(* ===== verification/Prelude.thy ===== *)
theory Prelude
  imports Main "HOL-Library.Monad_Syntax"
begin

text \<open>
  Shared vocabulary of the development.

  \<^item> Bytes and memory: a \<open>char\<close> array is a list of \<^typ>\<open>char\<close>; \<open>blit\<close> is the effect of
    \<open>memcpy\<close>, \<open>std::copy\<close> or a kernel write into such an array. A write that leaves the
    array makes the list longer, so "the list keeps its length" is the bounds property.
  \<^item> Machine integers: a \<open>size_t\<close> is a \<^typ>\<open>nat\<close> whose subtraction wraps modulo
    \<open>2 ^ 64\<close> (\<open>usub\<close>); a conversion of a signed value to \<open>size_t\<close> is \<open>size_t_of\<close>;
    signed division truncates towards zero (\<open>cdiv\<close>, \<open>cmod\<close>).
  \<^item> Results: an operation that can end the process (\<open>abort\<close> of a FATAL log line) or
    run into undefined behaviour returns an \<open>option\<close>, with \<open>None\<close> for that outcome; a
    system call returns \<open>errno + 'a\<close>, with \<open>Inl\<close> for the value \<open>-1\<close> and its \<open>errno\<close>.
    \<open>yields must r P\<close> is the judgement about a result: a value has \<open>P\<close>, and there is one
    if \<open>must\<close>, so that one lemma serves the invariants and the absence of failures.
  \<^item> State machines: reachable states of a step relation and the invariant rule, stated
    once as the locale \<open>invariant_system\<close> and interpreted for every component that
    has a step relation.
\<close>

named_theorems mem_simps \<open>lists as memory: blit, take, drop\<close>
named_theorems word_arith \<open>size_t arithmetic away from wrap-around\<close>
named_theorems opt_simps \<open>do-blocks in the option monad\<close>

type_synonym bytes = "char list"
type_synonym errno = int
type_synonym fd = int

subsection \<open>Memory\<close>

definition NUL :: char where
  "NUL = CHR 0x00"

definition blit :: "nat \<Rightarrow> 'a list \<Rightarrow> 'a list \<Rightarrow> 'a list" where
  "blit i bs xs = take i xs @ bs @ drop (i + length bs) xs"

definition slice :: "nat \<Rightarrow> nat \<Rightarrow> 'a list \<Rightarrow> 'a list" where
  "slice i n xs = take n (drop i xs)"

lemma length_blit [mem_simps]:
  "i + length bs \<le> length xs \<Longrightarrow> length (blit i bs xs) = length xs"
  by (simp add: blit_def)

lemma length_blit_gen:
  "length (blit i bs xs) = min i (length xs) + length bs + (length xs - (i + length bs))"
  by (simp add: blit_def)

lemma length_slice [mem_simps]: "length (slice i n xs) = min n (length xs - i)"
  by (simp add: slice_def)

lemma slice_all [mem_simps]: "slice 0 (length xs) xs = xs"
  by (simp add: slice_def)

lemma slice_empty [mem_simps]: "slice i 0 xs = []"
  by (simp add: slice_def)

lemma slice_split:
  "slice i (m + n) xs = slice i m xs @ slice (i + m) n xs"
  by (simp add: slice_def take_add add.commute)

lemma drop_slice [mem_simps]: "drop k (slice i n xs) = slice (i + k) (n - k) xs"
  by (simp add: slice_def drop_take add.commute)

lemma take_slice [mem_simps]: "k \<le> n \<Longrightarrow> take k (slice i n xs) = slice i k xs"
  by (simp add: slice_def)

lemma slice_blit_same [mem_simps]:
  assumes "i \<le> length xs"
  shows "slice i (length bs) (blit i bs xs) = bs"
  using assms by (simp add: slice_def blit_def)

lemma slice_blit_before [mem_simps]:
  assumes "j + n \<le> i" "i \<le> length xs"
  shows "slice j n (blit i bs xs) = slice j n xs"
proof -
  have "drop j (take i xs) = take (i - j) (drop j xs)" by (rule drop_take)
  moreover have "n \<le> length (drop j (take i xs))" using assms by simp
  ultimately show ?thesis using assms by (simp add: slice_def blit_def)
qed

lemma slice_append_left [mem_simps]:
  "i + n \<le> length xs \<Longrightarrow> slice i n (xs @ ys) = slice i n xs"
  by (simp add: slice_def)

lemma blit_empty [mem_simps]: "blit i [] xs = xs"
  by (simp add: blit_def)

text \<open>\<open>vector<char>::resize\<close>: keeps the prefix, value-initialises what it adds.\<close>

definition resize_vec :: "nat \<Rightarrow> bytes \<Rightarrow> bytes" where
  "resize_vec n xs = take n xs @ replicate (n - length xs) NUL"

lemma length_resize_vec [mem_simps]: "length (resize_vec n xs) = n"
  by (simp add: resize_vec_def)

lemma slice_resize_vec [mem_simps]:
  assumes "i + k \<le> length xs" "i + k \<le> n"
  shows "slice i k (resize_vec n xs) = slice i k xs"
  using assms by (simp add: slice_def resize_vec_def drop_take min_def)

subsection \<open>Machine integers\<close>

definition usub :: "nat \<Rightarrow> nat \<Rightarrow> nat" where
  "usub a b = (if b \<le> a then a - b else a + 2 ^ 64 - b)"

definition size_t_of :: "int \<Rightarrow> nat" where
  "size_t_of i = nat (i mod 2 ^ 64)"

definition cdiv :: "int \<Rightarrow> int \<Rightarrow> int" where
  "cdiv a b = sgn a * sgn b * (\<bar>a\<bar> div \<bar>b\<bar>)"

definition cmod :: "int \<Rightarrow> int \<Rightarrow> int" where
  "cmod a b = a - cdiv a b * b"

lemma usub_le [word_arith, simp]: "b \<le> a \<Longrightarrow> usub a b = a - b"
  by (simp add: usub_def)

lemma size_t_of_nonneg [word_arith, simp]:
  "0 \<le> i \<Longrightarrow> i < 2 ^ 64 \<Longrightarrow> size_t_of i = nat i"
  by (simp add: size_t_of_def)

lemma size_t_of_neg [word_arith]:
  assumes "i < 0" "- (2 ^ 31) \<le> i"
  shows "2 ^ 63 \<le> size_t_of i"
proof -
  have "i mod 2 ^ 64 = (i + 2 ^ 64) mod 2 ^ 64" by simp
  also have "\<dots> = i + 2 ^ 64" using assms by (intro mod_pos_pos_trivial) auto
  finally show ?thesis using assms by (simp add: size_t_of_def nat_le_iff le_nat_iff)
qed

lemma cdiv_nonneg: "0 \<le> a \<Longrightarrow> 0 < b \<Longrightarrow> cdiv a b = a div b"
  by (cases "a = 0") (simp_all add: cdiv_def)

lemma cmod_nonneg: "0 \<le> a \<Longrightarrow> 0 < b \<Longrightarrow> cmod a b = a mod b"
  by (simp add: cmod_def cdiv_nonneg minus_div_mult_eq_mod)

lemma cdiv_neg: "cdiv (- a) b = - cdiv a b"
  by (simp add: cdiv_def)

lemma cmod_neg: "cmod (- a) b = - cmod a b"
  by (simp add: cmod_def cdiv_neg)

subsection \<open>Option blocks\<close>

lemma bind_eq_Some [opt_simps]:
  "(x \<bind> f = Some y) \<longleftrightarrow> (\<exists>a. x = Some a \<and> f a = Some y)"
  by (cases x) auto

lemma bind_eq_None [opt_simps]:
  "(x \<bind> f = None) \<longleftrightarrow> (x = None \<or> (\<exists>a. x = Some a \<and> f a = None))"
  by (cases x) auto

text \<open>Folding a partial step over a list, stopping where it fails.\<close>

fun fold_opt :: "('a \<Rightarrow> 's \<Rightarrow> 's option) \<Rightarrow> 'a list \<Rightarrow> 's \<Rightarrow> 's option" where
  "fold_opt f [] s = Some s"
| "fold_opt f (x # xs) s = f x s \<bind> fold_opt f xs"

lemma fold_opt_Nil_fun: "fold_opt f [] = Some"
  by (rule ext) simp

lemma fold_opt_Cons_fun: "fold_opt f (x # xs) = (\<lambda>s. f x s \<bind> fold_opt f xs)"
  by (rule ext) simp

lemma fold_opt_single: "fold_opt f [x] = f x"
  by (rule ext) (simp add: fold_opt_Nil_fun)

lemma fold_opt_append:
  "fold_opt f (xs @ ys) s = fold_opt f xs s \<bind> fold_opt f ys"
  by (induction xs arbitrary: s) (auto split: Option.bind_splits)

lemma fold_opt_invariant:
  assumes "fold_opt f xs s = Some t" "I s"
    and "\<And>x s t. x \<in> set xs \<Longrightarrow> I s \<Longrightarrow> f x s = Some t \<Longrightarrow> I t"
  shows "I t"
  using assms by (induction xs arbitrary: s) (auto simp: opt_simps)

lemma fold_opt_total:
  assumes "I s" "\<And>x s. x \<in> set xs \<Longrightarrow> I s \<Longrightarrow> \<exists>t. f x s = Some t \<and> I t"
  shows "\<exists>t. fold_opt f xs s = Some t \<and> I t"
  using assms
proof (induction xs arbitrary: s)
  case (Cons x xs)
  obtain u where "f x s = Some u" "I u" using Cons.prems by (metis list.set_intros(1))
  then show ?case using Cons.IH [of u] Cons.prems(2) by simp
qed simp

subsection \<open>Outcomes\<close>

text \<open>
  Total correctness in two parts, as \<open>None\<close> is a failure: \<open>yields must r P\<close> says that a
  result of \<open>r\<close> satisfies \<open>P\<close>, and, where \<open>must\<close> holds, that there is one.
\<close>

definition yields :: "bool \<Rightarrow> 'a option \<Rightarrow> ('a \<Rightarrow> bool) \<Rightarrow> bool" where
  "yields must r P \<longleftrightarrow> (\<forall>x. r = Some x \<longrightarrow> P x) \<and> (must \<longrightarrow> r \<noteq> None)"

lemma yieldsD: "yields must r P \<Longrightarrow> r = Some x \<Longrightarrow> P x"
  by (simp add: yields_def)

lemma yields_total: "yields must r P \<Longrightarrow> must \<Longrightarrow> \<exists>x. r = Some x \<and> P x"
  by (cases r) (auto simp: yields_def)

lemma yields_True [simp]: "yields True r P \<longleftrightarrow> (\<exists>x. r = Some x \<and> P x)"
  by (cases r) (auto simp: yields_def)

lemma yields_Some [simp]: "yields must (Some x) P \<longleftrightarrow> P x"
  by (simp add: yields_def)

lemma yields_None [simp]: "yields must None P \<longleftrightarrow> \<not> must"
  by (simp add: yields_def)

lemma yieldsI: "\<exists>x. r = Some x \<and> P x \<Longrightarrow> yields must r P"
  by (auto simp: yields_def)

lemma yields_mono:
  assumes "yields must r P" "\<And>x. r = Some x \<Longrightarrow> P x \<Longrightarrow> Q x" "must' \<longrightarrow> must"
  shows "yields must' r Q"
  using assms by (auto simp: yields_def)

lemma yields_bind:
  assumes "yields must r P" "\<And>x. r = Some x \<Longrightarrow> P x \<Longrightarrow> yields must (f x) Q"
  shows "yields must (r \<bind> f) Q"
  using assms by (cases r) (auto simp: yields_def)

lemma fold_opt_yields:
  assumes "I s" "\<And>x s. x \<in> set xs \<Longrightarrow> I s \<Longrightarrow> yields must (f x s) I"
  shows "yields must (fold_opt f xs s) I"
  using assms
proof (induction xs arbitrary: s)
  case (Cons x xs)
  have "yields must (f x s) I" using Cons.prems by simp
  then show ?case unfolding fold_opt.simps
    by (rule yields_bind) (use Cons.IH Cons.prems(2) in simp)
qed simp

subsection \<open>Reachability and invariants\<close>

inductive reach :: "('s \<Rightarrow> bool) \<Rightarrow> ('s \<Rightarrow> 's \<Rightarrow> bool) \<Rightarrow> 's \<Rightarrow> bool"
  for init :: "'s \<Rightarrow> bool" and step :: "'s \<Rightarrow> 's \<Rightarrow> bool" where
  reach_init: "init s \<Longrightarrow> reach init step s"
| reach_step: "reach init step s \<Longrightarrow> step s t \<Longrightarrow> reach init step t"

locale invariant_system =
  fixes init :: "'s \<Rightarrow> bool"
    and step :: "'s \<Rightarrow> 's \<Rightarrow> bool"
    and inv :: "'s \<Rightarrow> bool"
  assumes inv_init: "init s \<Longrightarrow> inv s"
    and inv_step: "step s t \<Longrightarrow> inv s \<Longrightarrow> inv t"
begin

lemma reach_inv: "reach init step s \<Longrightarrow> inv s"
  by (induction rule: reach.induct) (auto intro: inv_init inv_step)

lemma run_inv: "step\<^sup>*\<^sup>* s t \<Longrightarrow> inv s \<Longrightarrow> inv t"
  by (induction rule: rtranclp_induct) (auto intro: inv_step)

end

lemma reach_run: "reach init step s \<Longrightarrow> step\<^sup>*\<^sup>* s t \<Longrightarrow> reach init step t"
  by (rotate_tac, induction rule: rtranclp_induct) (auto intro: reach.reach_step)

end
