(* ===== verification/NetBuffer.thy ===== *)
theory NetBuffer
  imports Prelude
begin

text \<open>
  \<open>class Buffer\<close> (include/Buffer.h, src/Buffer.cc): the input and output buffer of a
  connection. The vector \<open>buffer_\<close> (\<open>bufferVec\<close>) is a byte list, \<open>readerIndex\<close> and \<open>writerIndex\<close>
  are \<open>size_t\<close> indices into it. The abstract view (\<open>readable\<close>) is the queue of bytes
  between the two indices; the operations are shown to be the queue operations, except
  \<open>readFd\<close> and \<open>writeFd\<close>, whose exact behaviour is stated as the code has it.
\<close>

record buffer =
  bufferVec :: bytes
  readerIndex :: nat
  writerIndex :: nat

definition CheapPrepend :: nat where
  "CheapPrepend = 8"

definition InitialSize :: nat where
  "InitialSize = 1024"

definition new_Buffer :: "nat \<Rightarrow> buffer" where
  "new_Buffer initialSize =
     \<lparr>bufferVec = replicate (CheapPrepend + initialSize) NUL,
      readerIndex = CheapPrepend, writerIndex = CheapPrepend\<rparr>"

definition readableBytes :: "buffer \<Rightarrow> nat" where
  "readableBytes b = usub (writerIndex b) (readerIndex b)"

definition writableBytes :: "buffer \<Rightarrow> nat" where
  "writableBytes b = usub (length (bufferVec b)) (writerIndex b)"

definition prependableBytes :: "buffer \<Rightarrow> nat" where
  "prependableBytes b = readerIndex b"

definition retrieveAll :: "buffer \<Rightarrow> buffer" where
  "retrieveAll b = b\<lparr>readerIndex := CheapPrepend, writerIndex := CheapPrepend\<rparr>"

definition retrieve :: "nat \<Rightarrow> buffer \<Rightarrow> buffer" where
  "retrieve len b =
     (if len < readableBytes b then b\<lparr>readerIndex := readerIndex b + len\<rparr>
      else retrieveAll b)"

text \<open>
  \<open>std::string(peek(), len)\<close> reads \<open>len\<close> bytes from \<open>readerIndex\<close> on; past the end of
  the vector that is undefined behaviour, which is \<open>None\<close>.
\<close>

definition retrieveAsString :: "nat \<Rightarrow> buffer \<Rightarrow> (bytes \<times> buffer) option" where
  "retrieveAsString len b =
     (if readerIndex b + len \<le> length (bufferVec b)
      then Some (slice (readerIndex b) len (bufferVec b), retrieve len b)
      else None)"

definition retrieveAllAsString :: "buffer \<Rightarrow> (bytes \<times> buffer) option" where
  "retrieveAllAsString b = retrieveAsString (readableBytes b) b"

definition makeSpace :: "nat \<Rightarrow> buffer \<Rightarrow> buffer" where
  "makeSpace len b =
     (if usub (writableBytes b + prependableBytes b) CheapPrepend < len
      then b\<lparr>bufferVec := resize_vec (writerIndex b + len) (bufferVec b)\<rparr>
      else let readable = readableBytes b in
        b\<lparr>bufferVec := blit CheapPrepend (slice (readerIndex b) readable (bufferVec b)) (bufferVec b),
          readerIndex := CheapPrepend,
          writerIndex := CheapPrepend + readable\<rparr>)"

definition ensureWritableBytes :: "nat \<Rightarrow> buffer \<Rightarrow> buffer" where
  "ensureWritableBytes len b = (if writableBytes b < len then makeSpace len b else b)"

definition append :: "bytes \<Rightarrow> buffer \<Rightarrow> buffer" where
  "append data b =
     (let b1 = ensureWritableBytes (length data) b in
      b1\<lparr>bufferVec := blit (writerIndex b1) data (bufferVec b1),
         writerIndex := writerIndex b1 + length data\<rparr>)"

text \<open>
  \<open>readFd\<close> and \<open>writeFd\<close>. The system call is outside the program: \<open>readFd_capacity\<close> is
  the room offered to \<open>readv\<close>, and the argument \<open>r\<close> of \<open>readFd\<close> is what \<open>readv\<close> returned
  (the bytes it delivered, or the \<open>errno\<close>). The result is the return value of the
  function, the \<open>errno\<close> it saves, and the buffer.
\<close>

definition extraSize :: nat where
  "extraSize = 65536"

definition readFd_capacity :: "buffer \<Rightarrow> nat" where
  "readFd_capacity b =
     (if writableBytes b < extraSize then writableBytes b + extraSize else writableBytes b)"

definition readFd :: "errno + bytes \<Rightarrow> buffer \<Rightarrow> int \<times> errno option \<times> buffer" where
  "readFd r b =
     (case r of
        Inl e \<Rightarrow> (-1, Some e, b)
      | Inr data \<Rightarrow>
          (let writable = writableBytes b; n = length data;
               b1 = b\<lparr>bufferVec := blit (writerIndex b) (take writable data) (bufferVec b)\<rparr>;
               extraBuffer = blit 0 (drop writable data) (replicate extraSize NUL)
           in (int n, None,
               if n < writable then b1\<lparr>writerIndex := writerIndex b1 + n\<rparr>
               else append (take (usub n writable) extraBuffer) b1)))"

text \<open>What \<open>writeFd\<close> hands to \<open>write\<close>: \<open>writableBytes()\<close> bytes from \<open>beginWrite()\<close>.\<close>

definition writeFd_bytes :: "buffer \<Rightarrow> bytes" where
  "writeFd_bytes b = slice (writerIndex b) (writableBytes b) (bufferVec b)"

definition writeFd :: "errno + nat \<Rightarrow> buffer \<Rightarrow> int \<times> errno option" where
  "writeFd r b = (case r of Inl e \<Rightarrow> (-1, Some e) | Inr n \<Rightarrow> (int n, None))"

subsection \<open>Representation invariant and abstract view\<close>

definition buf_ok :: "buffer \<Rightarrow> bool" where
  "buf_ok b \<longleftrightarrow> CheapPrepend \<le> readerIndex b \<and> readerIndex b \<le> writerIndex b \<and>
     writerIndex b \<le> length (bufferVec b)"

definition readable :: "buffer \<Rightarrow> bytes" where
  "readable b = slice (readerIndex b) (readableBytes b) (bufferVec b)"

lemmas buf_sizes = readableBytes_def writableBytes_def prependableBytes_def

lemma buf_ok_new [simp]: "buf_ok (new_Buffer n)"
  by (simp add: buf_ok_def new_Buffer_def)

lemma readable_new [simp]: "readable (new_Buffer n) = []"
  by (simp add: readable_def new_Buffer_def buf_sizes mem_simps)

lemma new_Buffer_sizes [simp]:
  "writableBytes (new_Buffer n) = n" "readableBytes (new_Buffer n) = 0"
  "readerIndex (new_Buffer n) = 8" "writerIndex (new_Buffer n) = 8"
  "length (bufferVec (new_Buffer n)) = 8 + n"
  by (simp_all add: new_Buffer_def buf_sizes CheapPrepend_def)

lemma length_readable: "buf_ok b \<Longrightarrow> length (readable b) = readableBytes b"
  by (auto simp: readable_def buf_ok_def buf_sizes mem_simps)

lemma buf_ok_retrieveAll [simp]: "buf_ok b \<Longrightarrow> buf_ok (retrieveAll b)"
  by (simp add: buf_ok_def retrieveAll_def)

lemma readable_retrieveAll [simp]: "readable (retrieveAll b) = []"
  by (simp add: readable_def retrieveAll_def buf_sizes mem_simps)

lemma buf_ok_retrieve [simp]: "buf_ok b \<Longrightarrow> buf_ok (retrieve n b)"
  by (auto simp: retrieve_def buf_ok_def retrieveAll_def buf_sizes)

lemma readable_retrieve [simp]:
  assumes "buf_ok b"
  shows "readable (retrieve n b) = drop n (readable b)"
proof (cases "n < readableBytes b")
  case True
  with assms show ?thesis
    by (simp add: retrieve_def readable_def buf_ok_def buf_sizes mem_simps)
next
  case False
  then have "length (readable b) \<le> n" using assms by (simp add: length_readable)
  with False show ?thesis by (simp add: retrieve_def)
qed

lemma retrieveAllAsString_eq:
  "buf_ok b \<Longrightarrow> retrieveAllAsString b = Some (readable b, retrieveAll b)"
  by (auto simp: retrieveAllAsString_def retrieveAsString_def retrieve_def readable_def
      buf_ok_def buf_sizes)

text \<open>\<open>makeSpace\<close> keeps the queue and gives the room asked for.\<close>

lemma makeSpace_facts:
  assumes "buf_ok b" and "writableBytes b < len"
  shows "buf_ok (makeSpace len b)"
    and "readable (makeSpace len b) = readable b"
    and "len \<le> writableBytes (makeSpace len b)"
proof -
  note d = buf_ok_def buf_sizes CheapPrepend_def
  show "buf_ok (makeSpace len b)"
    using assms by (auto simp: makeSpace_def Let_def d mem_simps)
  show "len \<le> writableBytes (makeSpace len b)"
    using assms by (auto simp: makeSpace_def Let_def d mem_simps)
  show "readable (makeSpace len b) = readable b"
  proof (cases "usub (writableBytes b + prependableBytes b) CheapPrepend < len")
    case True
    with assms show ?thesis
      by (simp add: makeSpace_def readable_def d mem_simps)
  next
    case False
    let ?q = "slice (readerIndex b) (readableBytes b) (bufferVec b)"
    have len: "length ?q = readableBytes b"
      using assms by (auto simp: d mem_simps)
    have "slice CheapPrepend (length ?q) (blit CheapPrepend ?q (bufferVec b)) = ?q"
      using assms by (intro slice_blit_same) (simp add: d)
    then show ?thesis
      using False len by (simp add: makeSpace_def Let_def readable_def readableBytes_def)
  qed
qed

lemma ensureWritableBytes_facts:
  assumes "buf_ok b"
  shows "buf_ok (ensureWritableBytes len b)"
    and "readable (ensureWritableBytes len b) = readable b"
    and "len \<le> writableBytes (ensureWritableBytes len b)"
  using makeSpace_facts [OF assms] assms by (auto simp: ensureWritableBytes_def not_less)

lemma append_fits:
  assumes ok: "buf_ok b" and fits: "length data \<le> writableBytes b"
  defines "b' \<equiv> b\<lparr>bufferVec := blit (writerIndex b) data (bufferVec b),
       writerIndex := writerIndex b + length data\<rparr>"
  shows "buf_ok b'" and "readable b' = readable b @ data"
proof -
  note d = buf_ok_def buf_sizes
  have room: "writerIndex b + length data \<le> length (bufferVec b)"
    using ok fits by (auto simp: d)
  show "buf_ok b'"
    using ok room by (simp add: b'_def d mem_simps)
  have rw: "readerIndex b + (writerIndex b - readerIndex b) = writerIndex b"
    using ok by (simp add: d)
  have "readable b' = slice (readerIndex b)
      ((writerIndex b - readerIndex b) + length data) (blit (writerIndex b) data (bufferVec b))"
    using ok by (simp add: b'_def readable_def d)
  also have "\<dots> = readable b @ data"
    unfolding slice_split rw using ok room by (simp add: readable_def d mem_simps)
  finally show "readable b' = readable b @ data" .
qed

lemma buf_ok_append [simp]: "buf_ok b \<Longrightarrow> buf_ok (append data b)"
  by (simp add: append_def Let_def append_fits(1) ensureWritableBytes_facts)

lemma readable_append [simp]: "buf_ok b \<Longrightarrow> readable (append data b) = readable b @ data"
  by (simp add: append_def Let_def append_fits(2) ensureWritableBytes_facts)


subsection \<open>The queue interface\<close>

text \<open>
  What the connection relies on: a byte queue with an abstract view. \<open>queue_op\<close> is a
  client's call, \<open>queue_spec\<close> its effect on the abstract queue.
\<close>

datatype queue_op = Push bytes | Pop nat

fun queue_spec :: "queue_op \<Rightarrow> bytes \<Rightarrow> bytes" where
  "queue_spec (Push d) q = q @ d"
| "queue_spec (Pop n) q = drop n q"

locale byte_queue =
  fixes push :: "bytes \<Rightarrow> 'b \<Rightarrow> 'b"
    and pop :: "nat \<Rightarrow> 'b \<Rightarrow> 'b"
    and view :: "'b \<Rightarrow> bytes"
    and ok :: "'b \<Rightarrow> bool"
  assumes ok_push: "ok b \<Longrightarrow> ok (push d b)"
    and ok_pop: "ok b \<Longrightarrow> ok (pop n b)"
    and view_push: "ok b \<Longrightarrow> view (push d b) = view b @ d"
    and view_pop: "ok b \<Longrightarrow> view (pop n b) = drop n (view b)"
begin

lemmas queue_laws = ok_push ok_pop view_push view_pop

fun queue_exec :: "queue_op \<Rightarrow> 'b \<Rightarrow> 'b" where
  "queue_exec (Push d) b = push d b"
| "queue_exec (Pop n) b = pop n b"

lemma exec_refines:
  "ok b \<Longrightarrow> ok (queue_exec x b) \<and> view (queue_exec x b) = queue_spec x (view b)"
  by (cases x) (simp_all add: queue_laws)

lemma run_refines:
  "ok b \<Longrightarrow> ok (fold queue_exec xs b) \<and> view (fold queue_exec xs b) = fold queue_spec xs (view b)"
  by (induction xs arbitrary: b) (simp_all add: exec_refines)

lemma push_all:
  "ok b \<Longrightarrow> view (fold push ds b) = view b @ concat ds"
  by (induction ds arbitrary: b) (simp_all add: queue_laws)

lemma push_then_pop:
  "ok b \<Longrightarrow> view (pop (length (view b)) (push d b)) = d"
  by (simp add: queue_laws)

end

interpretation nb: byte_queue append retrieve readable buf_ok
  by unfold_locales simp_all

text \<open>The operations of the class as one step function, for whole runs.\<close>

fun buffer_exec :: "queue_op \<Rightarrow> buffer \<Rightarrow> buffer" where
  "buffer_exec (Push d) b = append d b"
| "buffer_exec (Pop n) b = retrieve n b"

lemma buffer_exec_eq: "buffer_exec = nb.queue_exec"
proof (rule ext, rule ext)
  show "buffer_exec x b = nb.queue_exec x b" for x b by (cases x) simp_all
qed

subsection \<open>Allocation, readFd and writeFd\<close>

lemma length_append_buffer:
  assumes "buf_ok b"
  shows "length (bufferVec (append data b)) =
    (if length data \<le> writableBytes b + readerIndex b - CheapPrepend then length (bufferVec b)
     else writerIndex b + length data)"
proof -
  note d = buf_ok_def buf_sizes CheapPrepend_def
  let ?n = "length data"
  consider "?n \<le> writableBytes b"
    | "writableBytes b < ?n" "?n \<le> writableBytes b + readerIndex b - CheapPrepend"
    | "writableBytes b + readerIndex b - CheapPrepend < ?n" "writableBytes b < ?n"
    by (meson not_le)
  then show ?thesis
  proof cases
    case 1
    with assms show ?thesis
      by (auto simp: append_def ensureWritableBytes_def d length_blit_gen)
  next
    case 2
    with assms show ?thesis
      by (auto simp: append_def ensureWritableBytes_def makeSpace_def Let_def d
          length_blit_gen length_slice)
  next
    case 3
    moreover have "usub (writableBytes b + readerIndex b) 8 = writableBytes b + readerIndex b - 8"
      using assms by (intro usub_le) (auto simp: d)
    ultimately show ?thesis
      using assms by (auto simp: append_def ensureWritableBytes_def makeSpace_def Let_def d
          length_blit_gen length_resize_vec)
  qed
qed

lemma readFd_Inl [simp]: "readFd (Inl e) b = (-1, Some e, b)"
  by (simp add: readFd_def)

lemma blit_extra:
  "length xs \<le> extraSize \<Longrightarrow> take (length xs) (blit 0 xs (replicate extraSize NUL)) = xs"
  by (simp add: blit_def)

text \<open>Bytes written above \<open>writerIndex_\<close> are not part of the queue.\<close>

lemma scribble_facts:
  assumes "buf_ok b" "length d \<le> writableBytes b"
  defines "b' \<equiv> b\<lparr>bufferVec := blit (writerIndex b) d (bufferVec b)\<rparr>"
  shows "buf_ok b'" "readable b' = readable b" "writableBytes b' = writableBytes b"
  using assms by (auto simp: b'_def buf_ok_def readable_def buf_sizes mem_simps)

lemma readFd_readable:
  assumes ok: "buf_ok b" and cap: "length data \<le> readFd_capacity b"
    and res: "readFd (Inr data) b = (n, e, b')"
  shows "n = int (length data) \<and> e = None \<and> buf_ok b' \<and>
     readable b' = readable b @ (if length data < writableBytes b then data
                                 else drop (writableBytes b) data)"
proof (cases "length data < writableBytes b")
  case True
  then show ?thesis
    using append_fits [OF ok, of data] res by (auto simp: readFd_def Let_def)
next
  case False
  let ?w = "writableBytes b"
  let ?b1 = "b\<lparr>bufferVec := blit (writerIndex b) (take ?w data) (bufferVec b)\<rparr>"
  have b1: "buf_ok ?b1" "readable ?b1 = readable b"
    using scribble_facts [OF ok, of "take ?w data"] by simp_all
  have "length (drop ?w data) \<le> extraSize"
    using cap False by (auto simp: readFd_capacity_def split: if_splits)
  then have "take (length data - ?w) (blit 0 (drop ?w data) (replicate extraSize NUL)) = drop ?w data"
    using blit_extra [of "drop ?w data"] by simp
  then have "b' = append (drop ?w data) ?b1" "n = int (length data)" "e = None"
    using res False by (simp_all add: readFd_def Let_def)
  with b1 False show ?thesis by simp
qed

lemma writeFd_bytes_eq: "buf_ok b \<Longrightarrow> writeFd_bytes b = drop (writerIndex b) (bufferVec b)"
  by (simp add: writeFd_bytes_def slice_def buf_ok_def writableBytes_def)

lemma writeFd_bytes_fresh:
  "writeFd_bytes (append d (new_Buffer n)) = replicate (n - length d) NUL"
  by (auto simp: writeFd_bytes_def append_def Let_def ensureWritableBytes_def makeSpace_def
      new_Buffer_def buf_sizes CheapPrepend_def slice_def blit_def resize_vec_def)


subsection \<open>Properties\<close>

text \<open>
  C17 (the buffer is a FIFO byte queue). Whatever sequence of \<open>append\<close> and \<open>retrieve\<close>
  calls is made on a fresh \<open>Buffer\<close>, its indices stay in order and inside the vector,
  and the readable bytes are those of the abstract queue: growing the vector, sliding the
  unread bytes to the front and resetting the indices are invisible to the client.
\<close>

theorem buffer_fifo:
  "buf_ok (fold buffer_exec xs (new_Buffer n)) \<and>
   readable (fold buffer_exec xs (new_Buffer n)) = fold queue_spec xs []"
  using nb.run_refines [of "new_Buffer n" xs] by (simp add: buffer_exec_eq)

text \<open>
  Growth. \<open>append\<close> enlarges the vector only when the free space behind the writer
  index and the space already consumed in front of the reader index together are too small,
  and then to exactly the end of the new data.
\<close>

lemma buffer_growth:
  assumes "buf_ok b"
  shows "length (bufferVec (append data b)) =
    (if length data \<le> writableBytes b + readerIndex b - CheapPrepend then length (bufferVec b)
     else writerIndex b + length data)"
  using assms by (rule length_append_buffer)

lemma buffer_growth_witness:
  "length (bufferVec (append ''abc'' (new_Buffer 2))) = 11"
  using buffer_growth [OF buf_ok_new [of 2], of "''abc''"] by (simp add: CheapPrepend_def)

text \<open>
  C25 (effect of \<open>readFd\<close>). When \<open>readv\<close> delivers fewer bytes than the free space behind
  the writer index, all of them are appended to the queue. When it delivers that many or
  more, the writer index is not advanced over the part stored in the vector, so exactly the
  first \<open>writableBytes()\<close> bytes of the delivery are lost and only the overflow that went to
  the stack buffer is appended.
\<close>

theorem readFd_effect:
  assumes "buf_ok b" and "length data \<le> readFd_capacity b"
  shows "readable (snd (snd (readFd (Inr data) b))) =
      readable b @ (if length data < writableBytes b then data else drop (writableBytes b) data)"
  using readFd_readable [OF assms] by (cases "readFd (Inr data) b") auto

theorem readFd_effect_witness:
  "readable (snd (snd (readFd (Inr ''abcdef'') (new_Buffer 4)))) = ''ef''"
  using readFd_effect [OF buf_ok_new [of 4], of "''abcdef''"]
  by (simp add: readFd_capacity_def extraSize_def)

text \<open>
  What \<open>writeFd\<close> sends. For a fresh buffer of any size that holds the unsent data \<open>d\<close>,
  the bytes handed to \<open>write\<close> are the zero bytes behind \<open>d\<close>, never a byte of \<open>d\<close>; when
  \<open>d\<close> fills the buffer, nothing at all is handed over.
\<close>

lemma writeFd_sends_slack:
  "readable (append d (new_Buffer n)) = d \<and>
   writeFd_bytes (append d (new_Buffer n)) = replicate (n - length d) NUL"
  by (simp add: writeFd_bytes_fresh)

end
