(* ===== verification/FixBuffer.thy ===== *)
theory FixBuffer
  imports Prelude
begin

text \<open>
  \<open>template<int bufferSize> class FixedBuffer\<close> (include/FixedBuffer.h), the buffer under a
  log line (4 KB) and under the asynchronous log (4 MB). The template argument is the
  parameter \<open>N\<close>. \<open>data_\<close> is the array \<open>fbData\<close>, \<open>cur_\<close> the offset \<open>fbCur\<close> of the write
  pointer, \<open>length_\<close> the count \<open>fbLength\<close>. The interface its clients use is the locale
  \<open>append_buffer\<close>, interpreted at both sizes.
\<close>

record fixbuf =
  fbData :: bytes
  fbCur :: nat
  fbLength :: nat

definition smallBufferSize :: nat where
  "smallBufferSize = 4096"

definition largeBufferSize :: nat where
  "largeBufferSize = 4096 * 1000"

text \<open>The constructor leaves the array as it finds it: \<open>raw\<close> is its indeterminate content.\<close>

definition new_fixbuf :: "bytes \<Rightarrow> fixbuf" where
  "new_fixbuf raw = \<lparr>fbData = raw, fbCur = 0, fbLength = 0\<rparr>"

definition fb_valid :: "nat \<Rightarrow> nat \<Rightarrow> fixbuf \<Rightarrow> bool" where
  "fb_valid N len b \<longleftrightarrow> len < usub N (fbLength b)"

definition fb_add :: "nat \<Rightarrow> fixbuf \<Rightarrow> fixbuf" where
  "fb_add len b = b\<lparr>fbCur := fbCur b + len, fbLength := fbLength b + len\<rparr>"

definition fb_append :: "nat \<Rightarrow> bytes \<Rightarrow> fixbuf \<Rightarrow> fixbuf" where
  "fb_append N buf b =
     (if fb_valid N (length buf) b
      then fb_add (length buf) (b\<lparr>fbData := blit (fbCur b) buf (fbData b)\<rparr>)
      else b)"

definition fb_reset :: "fixbuf \<Rightarrow> fixbuf" where
  "fb_reset b = b\<lparr>fbCur := 0, fbLength := 0\<rparr>"

definition fb_bzero :: "nat \<Rightarrow> fixbuf \<Rightarrow> fixbuf" where
  "fb_bzero N b = b\<lparr>fbData := replicate N NUL\<rparr>"

text \<open>The bytes a client reads: \<open>length()\<close> bytes from \<open>data()\<close>.\<close>

definition contents :: "fixbuf \<Rightarrow> bytes" where
  "contents b = slice 0 (fbLength b) (fbData b)"

definition fb_ok :: "nat \<Rightarrow> fixbuf \<Rightarrow> bool" where
  "fb_ok N b \<longleftrightarrow> length (fbData b) = N \<and> fbCur b = fbLength b \<and> fbLength b < N"

lemma fb_ok_new [simp]: "length raw = N \<Longrightarrow> 0 < N \<Longrightarrow> fb_ok N (new_fixbuf raw)"
  by (simp add: fb_ok_def new_fixbuf_def)

lemma contents_new [simp]: "contents (new_fixbuf raw) = []"
  by (simp add: contents_def new_fixbuf_def mem_simps)

lemma fb_ok_reset [simp]: "fb_ok N b \<Longrightarrow> fb_ok N (fb_reset b)"
  by (auto simp: fb_ok_def fb_reset_def)

lemma contents_reset [simp]: "contents (fb_reset b) = []"
  by (simp add: contents_def fb_reset_def mem_simps)

lemma fb_ok_bzero [simp]: "fb_ok N b \<Longrightarrow> fb_ok N (fb_bzero N b)"
  by (simp add: fb_ok_def fb_bzero_def)

lemma fb_length_contents: "fb_ok N b \<Longrightarrow> length (contents b) = fbLength b"
  by (simp add: fb_ok_def contents_def mem_simps)

lemma fb_bound: "fb_ok N b \<Longrightarrow> length (contents b) < N"
  by (simp add: fb_length_contents) (simp add: fb_ok_def)

lemma fb_valid_iff: "fb_ok N b \<Longrightarrow> fb_valid N n b \<longleftrightarrow> length (contents b) + n < N"
  by (auto simp: fb_length_contents fb_valid_def fb_ok_def)

text \<open>
  Every write through the write pointer: \<open>k\<close> further bytes may be stored behind the ones
  that are counted (the terminating NUL of \<open>formatInteger\<close>), as long as all fit.
\<close>

lemma fb_write_facts:
  assumes "fb_ok N b" "fbLength b + length bs + length slack < N"
  defines "b' \<equiv> fb_add (length bs) (b\<lparr>fbData := blit (fbCur b) (bs @ slack) (fbData b)\<rparr>)"
  shows "fb_ok N b'" and "contents b' = contents b @ bs"
proof -
  let ?d = "blit (fbLength b) (bs @ slack) (fbData b)"
  have "length ?d = N" using assms by (simp add: fb_ok_def mem_simps)
  then show "fb_ok N b'" using assms by (simp add: b'_def fb_ok_def fb_add_def)
  have "slice (fbLength b) (length bs) ?d = take (length bs) (slice (fbLength b) (length (bs @ slack)) ?d)"
    by (simp add: mem_simps)
  also have "\<dots> = bs" using assms by (subst slice_blit_same) (auto simp: fb_ok_def)
  finally have "slice (fbLength b) (length bs) ?d = bs" .
  moreover have "slice 0 (fbLength b) ?d = contents b"
    using assms by (simp add: contents_def fb_ok_def mem_simps)
  ultimately show "contents b' = contents b @ bs"
    using assms slice_split [of 0 "fbLength b" "length bs" ?d]
    by (simp add: b'_def contents_def fb_add_def fb_ok_def)
qed

lemma fb_append_facts:
  assumes "fb_ok N b"
  shows "fb_ok N (fb_append N d b)"
    and "contents (fb_append N d b) =
      (if length (contents b) + length d < N then contents b @ d else contents b)"
  using fb_write_facts [OF assms, of d "[]"] assms
  by (auto simp: fb_append_def fb_valid_iff fb_length_contents)

subsection \<open>The interface of an append-only buffer\<close>

locale append_buffer =
  fixes app :: "bytes \<Rightarrow> 'b \<Rightarrow> 'b"
    and fits :: "nat \<Rightarrow> 'b \<Rightarrow> bool"
    and view :: "'b \<Rightarrow> bytes"
    and ok :: "'b \<Rightarrow> bool"
    and cap :: nat
  assumes ok_app: "ok b \<Longrightarrow> ok (app d b)"
    and fits_iff: "ok b \<Longrightarrow> fits n b \<longleftrightarrow> length (view b) + n < cap"
    and view_app: "ok b \<Longrightarrow> view (app d b) =
      (if length (view b) + length d < cap then view b @ d else view b)"
    and view_bound: "ok b \<Longrightarrow> length (view b) < cap"
begin

lemmas buffer_laws = ok_app fits_iff view_app

text \<open>An append is all or nothing: the line written so far is never cut inside a piece.\<close>

lemma app_cases:
  assumes "ok b"
  obtains "fits (length d) b" "view (app d b) = view b @ d"
    | "\<not> fits (length d) b" "view (app d b) = view b"
  using assms by (cases "fits (length d) b") (auto simp: buffer_laws)

lemma app_all_ok: "ok b \<Longrightarrow> ok (fold app ds b)"
  by (induction ds arbitrary: b) (simp_all add: ok_app)

lemma app_all:
  assumes "ok b" "length (view b) + length (concat ds) < cap"
  shows "view (fold app ds b) = view b @ concat ds"
  using assms
proof (induction ds arbitrary: b)
  case (Cons d ds)
  then have "view (app d b) = view b @ d" by (simp add: view_app)
  with Cons show ?case by (simp add: ok_app)
qed simp

end

interpretation fb: append_buffer "fb_append N" "fb_valid N" contents "fb_ok N" N for N
  by unfold_locales (simp_all add: fb_append_facts fb_valid_iff fb_bound)

end
