(* ===== verification/LogStreams.thy ===== *)
theory LogStreams
  imports FixBuffer
begin

text \<open>
  \<open>class LogStream\<close> (include/LogStream.h, log/LogStream.cc): formatting into the 4 KB
  buffer of a log line. A stream is its buffer. \<open>formatInteger\<close> is a template over the
  integer types; the model takes the value as an \<^typ>\<open>int\<close>, with C's truncating division,
  and the statements bound it by the widest type. \<open>operator<<\<close> on \<open>float\<close> and \<open>double\<close>
  prints through \<open>snprintf("%.12g")\<close> of the C library, whose text is a parameter.
\<close>

abbreviation lsSize :: nat where
  "lsSize \<equiv> smallBufferSize"

definition maxNumSize :: nat where
  "maxNumSize = 32"

definition digits :: string where
  "digits = ''9876543210123456789''"

text \<open>\<open>zero = digits + 9\<close>; the remainder indexes it from -9 to 9.\<close>

definition digit_at :: "int \<Rightarrow> char" where
  "digit_at r = digits ! nat (9 + r)"

text \<open>The \<open>while\<close> loop of \<open>formatInteger\<close>: the characters it stores, in order.\<close>

function int_digits :: "int \<Rightarrow> string" where
  "int_digits num = (if num = 0 then [] else digit_at (cmod num 10) # int_digits (cdiv num 10))"
  by pat_completeness auto
termination
  by (relation "measure (\<lambda>n. nat \<bar>n\<bar>)")
    (auto simp: cdiv_def abs_mult abs_sgn_eq nat_less_iff)

declare int_digits.simps [simp del]

definition formatInteger :: "int \<Rightarrow> fixbuf \<Rightarrow> fixbuf" where
  "formatInteger num b =
     (if fb_valid lsSize maxNumSize b
      then let s = int_digits num @ (if num < 0 then ''-'' else [])
           in fb_add (length s) (b\<lparr>fbData := blit (fbCur b) (rev s @ [NUL]) (fbData b)\<rparr>)
      else b)"

text \<open>The raw access of the logger to the buffer of the line.\<close>

definition ls_append :: "bytes \<Rightarrow> nat \<Rightarrow> fixbuf \<Rightarrow> fixbuf" where
  "ls_append buf len b = fb_append lsSize (take len buf) b"

definition buffer_reset :: "fixbuf \<Rightarrow> fixbuf" where
  "buffer_reset b = fb_reset b"

text \<open>The overloads of \<open>operator<<\<close>, as one datatype of arguments and one dispatch.\<close>

datatype log_arg =
    LBool bool
  | LInt int
  | LDouble string
  | LChar char
  | LCStr bytes
  | LStr string
  | LTemplate bytes nat

text \<open>\<open>strlen\<close>: up to the first NUL.\<close>

definition c_str :: "bytes \<Rightarrow> bytes" where
  "c_str s = takeWhile (\<lambda>c. c \<noteq> NUL) s"

fun ls_put :: "log_arg \<Rightarrow> fixbuf \<Rightarrow> fixbuf" where
  "ls_put (LBool e) b = fb_append lsSize (if e then ''true'' else ''false'') b"
| "ls_put (LInt n) b = formatInteger n b"
| "ls_put (LDouble g) b = fb_append lsSize (c_str (take 31 g)) b"
| "ls_put (LChar c) b = fb_append lsSize [c] b"
| "ls_put (LCStr s) b = fb_append lsSize (c_str s) b"
| "ls_put (LStr s) b = fb_append lsSize s b"
| "ls_put (LTemplate data len) b = fb_append lsSize (take len data) b"

subsection \<open>Decimal notation\<close>

text \<open>The reference: decimal notation of an integer, and its reading.\<close>

definition digit :: "nat \<Rightarrow> char" where
  "digit d = ''0123456789'' ! d"

fun dec :: "nat \<Rightarrow> string" where
  "dec n = (if n < 10 then [digit n] else dec (n div 10) @ [digit (n mod 10)])"

declare dec.simps [simp del]

definition decimal :: "int \<Rightarrow> string" where
  "decimal i = (if i < 0 then ''-'' @ dec (nat (- i)) else dec (nat i))"

definition undigit :: "char \<Rightarrow> nat" where
  "undigit c = of_char c - 48"

definition undec :: "string \<Rightarrow> nat" where
  "undec s = foldl (\<lambda>n c. 10 * n + undigit c) 0 s"

definition undecimal :: "string \<Rightarrow> int" where
  "undecimal s = (case s of [] \<Rightarrow> 0
     | c # cs \<Rightarrow> if c = CHR ''-'' then - int (undec cs) else int (undec s))"

lemma less_10_cases:
  "(d::nat) < 10 \<longleftrightarrow> d \<in> {0, 1, 2, 3, 4, 5, 6, 7, 8, 9}"
  by auto

lemma undigit_digit [simp]: "d < 10 \<Longrightarrow> undigit (digit d) = d"
  by (subst (asm) less_10_cases) (auto simp: undigit_def digit_def)

lemma digit_not_minus: "d < 10 \<Longrightarrow> digit d \<noteq> CHR ''-''"
  by (subst (asm) less_10_cases) (auto simp: digit_def)

lemma digit_at_pos: "d < 10 \<Longrightarrow> digit_at (int d) = digit d"
  by (subst (asm) less_10_cases) (auto simp: digit_at_def digits_def digit_def)

lemma digit_at_neg: "d < 10 \<Longrightarrow> digit_at (- int d) = digit d"
  by (subst (asm) less_10_cases) (auto simp: digit_at_def digits_def digit_def)

lemma dec_nonempty: "dec n \<noteq> []"
  by (subst dec.simps) simp

lemma hd_dec: "\<exists>d < 10. hd (dec n) = digit d"
proof (induction n rule: dec.induct)
  case (1 n)
  show ?case
  proof (cases "n < 10")
    case True
    then show ?thesis by (subst dec.simps) auto
  next
    case False
    with 1 show ?thesis by (subst dec.simps) (auto simp: hd_append dec_nonempty)
  qed
qed

lemma undec_dec: "undec (dec n) = n"
proof (induction n rule: dec.induct)
  case (1 n)
  then show ?case by (subst dec.simps) (auto simp: undec_def)
qed

lemma undecimal_decimal: "undecimal (decimal i) = i"
proof (cases "i < 0")
  case True
  then show ?thesis by (simp add: undecimal_def decimal_def undec_dec)
next
  case False
  obtain c cs where d: "dec (nat i) = c # cs"
    using dec_nonempty by (cases "dec (nat i)") auto
  moreover have "c \<noteq> CHR ''-''"
    using hd_dec [of "nat i"] d digit_not_minus by auto
  ultimately show ?thesis
    using False undec_dec [of "nat i"] by (simp add: undecimal_def decimal_def)
qed

text \<open>The loop produces the decimal digits, least significant first, for either sign.\<close>

lemma int_digits_pos: "0 < n \<Longrightarrow> int_digits (int n) = rev (dec n)"
proof (induction n rule: dec.induct)
  case (1 n)
  have "int_digits (int n) = digit_at (int (n mod 10)) # int_digits (int (n div 10))"
    using "1.prems"
    by (subst int_digits.simps) (simp add: cmod_nonneg cdiv_nonneg zmod_int zdiv_int)
  moreover have "int_digits (int (n div 10)) = (if n < 10 then [] else rev (dec (n div 10)))"
    using "1.IH" by (auto simp: int_digits.simps [of 0])
  ultimately show ?case
    by (subst dec.simps) (simp add: digit_at_pos)
qed

lemma int_digits_neg: "0 < n \<Longrightarrow> int_digits (- int n) = rev (dec n)"
proof (induction n rule: dec.induct)
  case (1 n)
  have "int_digits (- int n) = digit_at (- int (n mod 10)) # int_digits (- int (n div 10))"
    using "1.prems"
    by (subst int_digits.simps)
      (simp add: cmod_neg cdiv_neg cmod_nonneg cdiv_nonneg zmod_int zdiv_int)
  moreover have "int_digits (- int (n div 10)) = (if n < 10 then [] else rev (dec (n div 10)))"
    using "1.IH" by (auto simp: int_digits.simps [of 0])
  ultimately show ?case
    by (subst dec.simps) (simp add: digit_at_neg)
qed

lemma formatted_eq:
  "rev (int_digits num @ (if num < 0 then ''-'' else [])) = (if num = 0 then [] else decimal num)"
  using int_digits_pos [of "nat num"] int_digits_neg [of "nat (- num)"]
  by (auto simp: decimal_def int_digits.simps [of 0])

lemma length_dec: "n < 10 ^ k \<Longrightarrow> 0 < k \<Longrightarrow> length (dec n) \<le> k"
proof (induction k arbitrary: n)
  case (Suc k)
  show ?case
  proof (cases "n < 10")
    case True
    then show ?thesis by (subst dec.simps) simp
  next
    case False
    with Suc.prems have "n div 10 < 10 ^ k" "0 < k" by (auto simp: div_less_iff_less_mult intro: gr0I)
    with Suc.IH False show ?thesis by (subst dec.simps) simp
  qed
qed simp

lemma length_decimal: "\<bar>i\<bar> < 2 ^ 64 \<Longrightarrow> length (decimal i) \<le> 21"
  using length_dec [of "nat (- i)" 20] length_dec [of "nat i" 20]
  by (auto simp: decimal_def nat_less_iff)

subsection \<open>The stream stays inside its buffer\<close>

text \<open>What one argument adds to a line that has room for it.\<close>

fun shown :: "log_arg \<Rightarrow> bytes" where
  "shown (LBool e) = (if e then ''true'' else ''false'')"
| "shown (LInt n) = (if n = 0 then [] else decimal n)"
| "shown (LDouble g) = c_str (take 31 g)"
| "shown (LChar c) = [c]"
| "shown (LCStr s) = c_str s"
| "shown (LStr s) = s"
| "shown (LTemplate data len) = take len data"

text \<open>The arguments a C++ caller can pass: integers of at most 64 bits.\<close>

fun arg_ok :: "log_arg \<Rightarrow> bool" where
  "arg_ok (LInt n) \<longleftrightarrow> \<bar>n\<bar> < 2 ^ 64"
| "arg_ok _ \<longleftrightarrow> True"

lemma formatInteger_facts:
  assumes "fb_ok lsSize b" "\<bar>n\<bar> < 2 ^ 64"
  shows "fb_ok lsSize (formatInteger n b)"
    and "contents (formatInteger n b) =
      (if length (contents b) + maxNumSize < lsSize then contents b @ shown (LInt n) else contents b)"
proof -
  define s where "s = int_digits n @ (if n < 0 then ''-'' else [])"
  have rev: "rev s = shown (LInt n)" by (simp only: s_def formatted_eq shown.simps)
  have len: "length s \<le> 21"
    using rev length_decimal [OF assms(2)] by (metis length_rev list.size(3) shown.simps(2) zero_le)
  let ?b = "fb_add (length s) (b\<lparr>fbData := blit (fbCur b) (rev s @ [NUL]) (fbData b)\<rparr>)"
  have room: "fb_ok lsSize ?b \<and> contents ?b = contents b @ rev s"
    if "length (contents b) + maxNumSize < lsSize"
    using fb_write_facts [OF assms(1), of "rev s" "[NUL]"] that len
    by (simp add: fb_length_contents [OF assms(1)] maxNumSize_def)
  have eq: "formatInteger n b = (if fb_valid lsSize maxNumSize b then ?b else b)"
    by (simp add: formatInteger_def s_def Let_def)
  show "fb_ok lsSize (formatInteger n b)"
    and "contents (formatInteger n b) =
      (if length (contents b) + maxNumSize < lsSize then contents b @ shown (LInt n) else contents b)"
    unfolding eq rev [symmetric] using room assms(1) by (simp_all add: fb_valid_iff)
qed

lemma ls_put_ok: "fb_ok lsSize b \<Longrightarrow> arg_ok a \<Longrightarrow> fb_ok lsSize (ls_put a b)"
  by (cases a) (simp_all add: fb_append_facts formatInteger_facts)

lemma ls_put_contents:
  assumes "fb_ok lsSize b" "arg_ok a" "length (contents b) + length (shown a) + maxNumSize < lsSize"
  shows "contents (ls_put a b) = contents b @ shown a"
  using assms by (cases a) (simp_all add: fb_append_facts formatInteger_facts del: shown.simps(2))

lemma ls_put_all:
  assumes "fb_ok lsSize b" "list_all arg_ok as"
    and "length (contents b) + length (concat (map shown as)) + maxNumSize < lsSize"
  shows "fb_ok lsSize (fold ls_put as b) \<and>
    contents (fold ls_put as b) = contents b @ concat (map shown as)"
  using assms by (induction as arbitrary: b) (simp_all add: ls_put_ok ls_put_contents)

lemma ls_put_all_ok:
  "fb_ok lsSize b \<Longrightarrow> list_all arg_ok as \<Longrightarrow> fb_ok lsSize (fold ls_put as b)"
  by (induction as arbitrary: b) (simp_all add: ls_put_ok)

text \<open>A line that has been reset takes what is appended as its only text, if it fits.\<close>

lemma reset_append:
  assumes "fb_ok lsSize b" "len < lsSize"
  shows "contents (ls_append buf len (buffer_reset b)) = take len buf"
  using assms fb_append_facts [of lsSize "fb_reset b" "take len buf"]
  by (auto simp: ls_append_def buffer_reset_def min_def split: if_splits)

subsection \<open>Properties\<close>

text \<open>
  C35 (integers round-trip through the log). While the line has more than \<open>maxNumSize\<close> = 32
  bytes of room, every integer other than zero, of either sign and of any width up to 64
  bits, the most negative values included, is appended in decimal notation, so that reading
  the added text back gives the number. Zero adds no text at all: the loop tests before it
  emits its first digit. In a line with less room no number is printed: the text stays as it
  was.
\<close>

theorem formatInteger_roundtrip:
  assumes "fb_ok lsSize b" and "\<bar>n\<bar> < 2 ^ 64"
  shows "if length (contents b) + maxNumSize < lsSize
    then \<exists>s. contents (formatInteger n b) = contents b @ s \<and> undecimal s = n \<and>
      (s = [] \<longleftrightarrow> n = 0) \<and> (n \<noteq> 0 \<longrightarrow> s = decimal n)
    else formatInteger n b = b"
proof (cases "length (contents b) + maxNumSize < lsSize")
  case room: True
  have "\<exists>s. contents (formatInteger n b) = contents b @ s \<and> undecimal s = n \<and>
      (s = [] \<longleftrightarrow> n = 0) \<and> (n \<noteq> 0 \<longrightarrow> s = decimal n)"
  proof (cases "n = 0")
    case True
    then show ?thesis
      using formatInteger_facts(2) [OF assms] by (auto simp: undecimal_def)
  next
    case False
    moreover have "decimal n \<noteq> []" by (simp add: decimal_def dec_nonempty)
    ultimately show ?thesis
      using formatInteger_facts(2) [OF assms] room
      by (intro exI [of _ "decimal n"]) (simp add: undecimal_decimal)
  qed
  with room show ?thesis by simp
next
  case False
  then show ?thesis
    using fb_valid_iff [OF assms(1)] by (simp add: formatInteger_def)
qed

theorem formatInteger_roundtrip_witness:
  "\<exists>s. contents (formatInteger (-9223372036854775808) (new_fixbuf (replicate lsSize NUL))) = s \<and>
     undecimal s = -9223372036854775808"
  using formatInteger_roundtrip
    [of "new_fixbuf (replicate lsSize NUL)" "-9223372036854775808"]
  by (auto simp: smallBufferSize_def maxNumSize_def)

text \<open>
  C36 (a log line never leaves its buffer). Whatever is streamed into a line, and however
  much of it, the write pointer agrees with the length, the array keeps its 4096 bytes and
  less than all of them are in use: pieces that do not fit are dropped whole.
\<close>

theorem log_line_in_bounds:
  assumes "length raw = lsSize" and "list_all arg_ok as"
  shows "fb_ok lsSize (fold ls_put as (new_fixbuf raw)) \<and>
    length (contents (fold ls_put as (new_fixbuf raw))) < 4096"
proof -
  have "fb_ok lsSize (fold ls_put as (new_fixbuf raw))"
    using assms by (intro ls_put_all_ok) (simp_all add: smallBufferSize_def)
  then show ?thesis using fb_bound by (simp add: smallBufferSize_def)
qed

theorem log_line_in_bounds_witness:
  "length (contents (fold ls_put [LStr ''n='', LInt (-7), LBool True]
     (new_fixbuf (replicate 4096 NUL)))) < 4096"
  using log_line_in_bounds [of "replicate 4096 NUL" "[LStr ''n='', LInt (-7), LBool True]"]
  by (simp add: smallBufferSize_def)

end
