(* ===== verification/Timestamps.thy ===== *)
theory Timestamps
  imports LogStreams
begin

text \<open>
  \<open>class Timestamp\<close> (include/Timestamp.h, src/Timestamp.cc) and the part of the C library
  it prints with. A time stamp is a signed count of microseconds, ordered as its
  \<open>operator<\<close> orders it (the \<open>linorder\<close> instance). \<open>localtime\<close> depends on the machine's
  time zone: it is the parameter \<open>lt\<close> of the functions that call it, from seconds since
  the epoch to the broken-down time \<open>tm\<close>. \<open>snprintf\<close> is modelled for the two directives
  the program uses, a minimum width padded with blanks (\<open>fmt_d\<close>) or zeros (\<open>fmt_0d\<close>).
\<close>

datatype timestamp = Timestamp (microSecondsSinceEpoch: int)

definition kMicroSecondsPerSecond :: int where
  "kMicroSecondsPerSecond = 1000 * 1000"

definition timestamp_less :: "timestamp \<Rightarrow> timestamp \<Rightarrow> bool" where
  "timestamp_less lhs rhs \<longleftrightarrow> microSecondsSinceEpoch lhs < microSecondsSinceEpoch rhs"

definition timestamp_eq :: "timestamp \<Rightarrow> timestamp \<Rightarrow> bool" where
  "timestamp_eq lhs rhs \<longleftrightarrow> microSecondsSinceEpoch lhs = microSecondsSinceEpoch rhs"

lemma timestamp_eq_iff [simp]: "timestamp_eq lhs rhs \<longleftrightarrow> lhs = rhs"
  by (cases lhs; cases rhs) (simp add: timestamp_eq_def)

instantiation timestamp :: linorder
begin

definition less_timestamp :: "timestamp \<Rightarrow> timestamp \<Rightarrow> bool" where
  "lhs < rhs \<longleftrightarrow> timestamp_less lhs rhs"

definition less_eq_timestamp :: "timestamp \<Rightarrow> timestamp \<Rightarrow> bool" where
  "lhs \<le> rhs \<longleftrightarrow> \<not> rhs < (lhs :: timestamp)"

instance
  by standard (auto simp: timestamp_less_def less_timestamp_def less_eq_timestamp_def timestamp.expand)

end

definition secondsSinceEpoch :: "timestamp \<Rightarrow> int" where
  "secondsSinceEpoch t = cdiv (microSecondsSinceEpoch t) kMicroSecondsPerSecond"

definition invalid :: timestamp where
  "invalid = Timestamp 0"

text \<open>\<open>now\<close> from the two fields \<open>gettimeofday\<close> fills in.\<close>

definition timestamp_now :: "int \<Rightarrow> int \<Rightarrow> timestamp" where
  "timestamp_now tv_sec tv_usec = Timestamp (tv_sec * kMicroSecondsPerSecond + tv_usec)"

text \<open>
  \<open>addTime\<close>: the product of the \<open>double\<close> with the constant, cast to \<open>int64_t\<close>, is the
  argument \<open>to_micros\<close> applied to it.
\<close>

definition addTime :: "('d \<Rightarrow> int) \<Rightarrow> timestamp \<Rightarrow> 'd \<Rightarrow> timestamp" where
  "addTime to_micros t seconds = Timestamp (microSecondsSinceEpoch t + to_micros seconds)"

record tm =
  tm_year :: int
  tm_mon :: int
  tm_mday :: int
  tm_hour :: int
  tm_min :: int
  tm_sec :: int

definition pad :: "char \<Rightarrow> nat \<Rightarrow> string \<Rightarrow> string" where
  "pad c w s = replicate (w - length s) c @ s"

definition fmt_d :: "nat \<Rightarrow> int \<Rightarrow> string" where
  "fmt_d w i = pad CHR '' '' w (decimal i)"

definition fmt_0d :: "nat \<Rightarrow> int \<Rightarrow> string" where
  "fmt_0d w i = (if i < 0 then ''-'' @ pad CHR ''0'' (w - 1) (dec (nat (- i)))
                 else pad CHR ''0'' w (dec (nat i)))"

definition snprintf :: "nat \<Rightarrow> string \<Rightarrow> bytes \<Rightarrow> bytes" where
  "snprintf n s buf = blit 0 (take (n - 1) s @ [NUL]) buf"

text \<open>The format \<open>"%4d/%02d/%02d %02d:%02d:%02d"\<close>, in its date and its seconds part.\<close>

definition calendar_min :: "tm \<Rightarrow> string" where
  "calendar_min t = fmt_d 4 (tm_year t + 1900) @ ''/'' @ fmt_0d 2 (tm_mon t + 1) @ ''/'' @
     fmt_0d 2 (tm_mday t) @ '' '' @ fmt_0d 2 (tm_hour t) @ '':'' @ fmt_0d 2 (tm_min t) @ '':''"

definition calendar :: "tm \<Rightarrow> string" where
  "calendar t = calendar_min t @ fmt_0d 2 (tm_sec t)"

text \<open>\<open>toString\<close> hands the address of the microsecond count to \<open>localtime\<close>.\<close>

definition toString :: "(int \<Rightarrow> tm) \<Rightarrow> timestamp \<Rightarrow> string" where
  "toString lt t =
     c_str (snprintf 128 (calendar (lt (microSecondsSinceEpoch t))) (replicate 128 NUL))"

definition toFormattedString :: "(int \<Rightarrow> tm) \<Rightarrow> bool \<Rightarrow> timestamp \<Rightarrow> string" where
  "toFormattedString lt showMicroseconds t =
     (let seconds = cdiv (microSecondsSinceEpoch t) kMicroSecondsPerSecond;
          tm_time = lt seconds
      in if showMicroseconds
         then let microseconds = cmod (microSecondsSinceEpoch t) kMicroSecondsPerSecond
              in c_str (snprintf 64 (calendar tm_time @ ''.'' @ fmt_0d 6 microseconds)
                   (replicate 64 NUL))
         else c_str (snprintf 64 (calendar tm_time) (replicate 64 NUL)))"

subsection \<open>Fixed-width fields\<close>

text \<open>The ranges \<open>localtime\<close> documents for its fields, up to the year 9999.\<close>

definition tm_ok :: "tm \<Rightarrow> bool" where
  "tm_ok t \<longleftrightarrow> -900 \<le> tm_year t \<and> tm_year t < 8100 \<and> 0 \<le> tm_mon t \<and> tm_mon t < 12 \<and>
     1 \<le> tm_mday t \<and> tm_mday t \<le> 31 \<and> 0 \<le> tm_hour t \<and> tm_hour t < 24 \<and>
     0 \<le> tm_min t \<and> tm_min t < 60 \<and> 0 \<le> tm_sec t \<and> tm_sec t \<le> 60"

lemma length_pad: "length s \<le> w \<Longrightarrow> length (pad c w s) = w"
  by (simp add: pad_def)

lemma length_fmt_0d:
  assumes "0 \<le> i" "i < 10 ^ w" "0 < w"
  shows "length (fmt_0d w i) = w"
proof -
  have "nat i < 10 ^ w" using assms by (simp add: nat_less_iff)
  then show ?thesis using assms length_dec [of "nat i" w] by (simp add: fmt_0d_def length_pad)
qed

lemma length_fmt_d:
  assumes "0 \<le> i" "i < 10 ^ w" "0 < w"
  shows "length (fmt_d w i) = w"
proof -
  have "nat i < 10 ^ w" using assms by (simp add: nat_less_iff)
  then show ?thesis using assms length_dec [of "nat i" w] by (simp add: fmt_d_def decimal_def length_pad)
qed

lemma length_calendar_min: "tm_ok t \<Longrightarrow> length (calendar_min t) = 17"
  by (simp add: calendar_min_def tm_ok_def length_fmt_0d length_fmt_d)

lemma length_calendar: "tm_ok t \<Longrightarrow> length (calendar t) = 19"
  by (simp add: calendar_def length_calendar_min) (simp add: tm_ok_def length_fmt_0d)

text \<open>No directive prints a NUL, so a string read back as a C string is whole.\<close>

lemma digit_not_NUL: "d < 10 \<Longrightarrow> digit d \<noteq> NUL"
  by (subst (asm) less_10_cases) (auto simp: digit_def NUL_def)

lemma NUL_notin_dec: "NUL \<notin> set (dec n)"
proof (induction n rule: dec.induct)
  case (1 n)
  then show ?case
    using digit_not_NUL [of n] digit_not_NUL [of "n mod 10"] by (subst dec.simps) auto
qed

lemma NUL_notin_fmt: "NUL \<notin> set (fmt_d w i)" "NUL \<notin> set (fmt_0d w i)"
  using NUL_notin_dec by (auto simp: fmt_d_def fmt_0d_def pad_def decimal_def NUL_def)

lemma NUL_notin_calendar: "NUL \<notin> set (calendar t)"
  using NUL_notin_fmt by (auto simp: calendar_def calendar_min_def) (auto simp: NUL_def)

lemma c_str_snprintf:
  assumes "NUL \<notin> set s"
  shows "c_str (snprintf (Suc n) s buf) = take n s"
proof -
  have "\<forall>c \<in> set (take n s). c \<noteq> NUL" using assms by (auto dest: in_set_takeD)
  then show ?thesis by (simp add: c_str_def snprintf_def blit_def takeWhile_append2)
qed

lemma toString_eq: "toString lt t = take 127 (calendar (lt (microSecondsSinceEpoch t)))"
  using c_str_snprintf [OF NUL_notin_calendar, of 127] by (simp add: toString_def)

lemma toFormattedString_eq:
  "toFormattedString lt False t = take 63 (calendar (lt (secondsSinceEpoch t)))"
  using c_str_snprintf [OF NUL_notin_calendar, of 63]
  by (simp add: toFormattedString_def secondsSinceEpoch_def Let_def)

subsection \<open>Properties\<close>

text \<open>
  \<open>toString\<close> prints another moment. For a time stamp of \<open>m\<close> microseconds, \<open>toString\<close>
  prints the calendar date of \<open>m\<close> seconds after the epoch: the date
  \<open>toFormattedString\<close> prints for a time stamp a million times larger.
\<close>

lemma toString_scale:
  assumes "tm_ok (lt m)"
  shows "toString lt (Timestamp m) = toFormattedString lt False (Timestamp (m * kMicroSecondsPerSecond))"
  using assms length_calendar [OF assms]
  by (simp add: toString_eq toFormattedString_eq secondsSinceEpoch_def cdiv_def
      kMicroSecondsPerSecond_def sgn_mult abs_mult mult_sgn_abs)

definition epoch_tm :: tm where
  "epoch_tm = \<lparr>tm_year = 70, tm_mon = 0, tm_mday = 1, tm_hour = 0, tm_min = 0, tm_sec = 0\<rparr>"

lemma toString_scale_witness:
  "toString (\<lambda>s. epoch_tm\<lparr>tm_sec := s mod 60\<rparr>) (Timestamp 7) =
   toFormattedString (\<lambda>s. epoch_tm\<lparr>tm_sec := s mod 60\<rparr>) False (Timestamp 7000000)"
proof -
  have "tm_ok (epoch_tm\<lparr>tm_sec := 7 mod 60\<rparr>)" by (simp add: tm_ok_def epoch_tm_def)
  then show ?thesis
    using toString_scale [of "\<lambda>s. epoch_tm\<lparr>tm_sec := s mod 60\<rparr>" 7]
    by (simp add: kMicroSecondsPerSecond_def)
qed

end
