(* ===== verification/Loggers.thy ===== *)
theory Loggers
  imports Timestamps
begin

text \<open>
  \<open>class Logger\<close> with its \<open>SourceFile\<close> and \<open>Impl\<close> (include/Logger.h, log/Logger.cc): one
  log line from the constructor (time, level, error) through the arguments streamed by the
  caller to the destructor, which completes the line and hands it to \<open>g_output\<close>. The
  effects of the destructor on the rest of the program are a list of \<open>log_effect\<close>s.
\<close>

text \<open>\<open>strrchr\<close>: the index of the last occurrence.\<close>

definition strrchr :: "char \<Rightarrow> string \<Rightarrow> nat option" where
  "strrchr c s = (case filter (\<lambda>i. s ! i = c) [0..<length s] of [] \<Rightarrow> None | is \<Rightarrow> Some (last is))"

definition SourceFile :: "string \<Rightarrow> string" where
  "SourceFile fileName =
     (case strrchr CHR ''/'' fileName of Some slash \<Rightarrow> drop (slash + 1) fileName | None \<Rightarrow> fileName)"

datatype LogLevel = TRACE | DEBUG | INFO | WARM | ERROR | FATAL

fun getLevelName :: "LogLevel \<Rightarrow> string" where
  "getLevelName TRACE = ''TRACE ''"
| "getLevelName DEBUG = ''DEBUG ''"
| "getLevelName INFO = ''INFO  ''"
| "getLevelName WARM = ''WARM  ''"
| "getLevelName ERROR = ''ERROR ''"
| "getLevelName FATAL = ''FATAL ''"

record logger =
  stream :: fixbuf
  level :: LogLevel
  line :: int
  basename :: string
  t_timer :: bytes

text \<open>
  \<open>formatTime\<close>: \<open>us\<close> is the count \<open>Timestamp::now()\<close> returns, \<open>t_timer\<close> the thread-local
  array of 64 bytes. Seventeen bytes of it go to the stream, then seven of the microseconds.
\<close>

definition formatTime :: "(int \<Rightarrow> tm) \<Rightarrow> int \<Rightarrow> logger \<Rightarrow> logger" where
  "formatTime lt us l =
     (let seconds = cdiv us kMicroSecondsPerSecond;
          microseconds = cmod us kMicroSecondsPerSecond;
          timer = snprintf 64 (calendar (lt seconds)) (t_timer l);
          microTime = snprintf 32 (fmt_0d 6 microseconds @ '' '') (replicate 32 NUL)
      in l\<lparr>t_timer := timer,
           stream := ls_put (LTemplate microTime 7) (ls_put (LTemplate timer 17) (stream l))\<rparr>)"

definition put :: "log_arg \<Rightarrow> logger \<Rightarrow> logger" where
  "put a l = l\<lparr>stream := ls_put a (stream l)\<rparr>"

text \<open>
  The constructor of \<open>Impl\<close>. \<open>getErrnoMsg\<close> is \<open>strerror_r\<close> of the C library, a parameter.
  \<open>raw\<close> is the indeterminate content of the line's array, \<open>timer\<close> the thread's \<open>t_timer\<close>.
\<close>

definition Impl ::
  "(int \<Rightarrow> tm) \<Rightarrow> (errno \<Rightarrow> string) \<Rightarrow> int \<Rightarrow> bytes \<Rightarrow> bytes \<Rightarrow>
     LogLevel \<Rightarrow> errno \<Rightarrow> string \<Rightarrow> int \<Rightarrow> logger" where
  "Impl lt getErrnoMsg us raw timer lev savedErrno fileName ln =
     (let l0 = \<lparr>stream = new_fixbuf raw, level = lev, line = ln,
                 basename = SourceFile fileName, t_timer = timer\<rparr>;
          l1 = put (LTemplate (getLevelName lev) 6) (formatTime lt us l0)
      in if savedErrno \<noteq> 0
         then fold put [LCStr (getErrnoMsg savedErrno), LCStr '' (errno='', LInt savedErrno,
                        LCStr '') ''] l1
         else l1)"

definition Logger ::
  "(int \<Rightarrow> tm) \<Rightarrow> (errno \<Rightarrow> string) \<Rightarrow> int \<Rightarrow> bytes \<Rightarrow> bytes \<Rightarrow> string \<Rightarrow> int \<Rightarrow> LogLevel \<Rightarrow> logger" where
  "Logger lt getErrnoMsg us raw timer fileName ln lev =
     Impl lt getErrnoMsg us raw timer lev 0 fileName ln"

definition finish :: "logger \<Rightarrow> logger" where
  "finish l = fold put [LCStr '' - '', LTemplate (basename l) (length (basename l)),
     LCStr '':'', LInt (line l), LChar CHR 0x0A] l"

datatype log_effect = GOutput bytes | GFlush | Abort

definition Logger_dtor :: "logger \<Rightarrow> log_effect list" where
  "Logger_dtor l =
     (let l' = finish l
      in GOutput (contents (stream l')) # (if level l' = FATAL then [GFlush, Abort] else []))"

text \<open>\<open>Logger(file, line, level).stream() << a1 << a2 ...\<close>: a whole logging statement.\<close>

definition log_statement ::
  "(int \<Rightarrow> tm) \<Rightarrow> (errno \<Rightarrow> string) \<Rightarrow> int \<Rightarrow> bytes \<Rightarrow> bytes \<Rightarrow> string \<Rightarrow> int \<Rightarrow> LogLevel \<Rightarrow>
     log_arg list \<Rightarrow> log_effect list" where
  "log_statement lt getErrnoMsg us raw timer fileName ln lev as =
     Logger_dtor (fold put as (Logger lt getErrnoMsg us raw timer fileName ln lev))"

subsection \<open>The text of a line\<close>

lemma put_sel [simp]:
  "stream (put a l) = ls_put a (stream l)" "level (put a l) = level l" "line (put a l) = line l"
  "basename (put a l) = basename l" "t_timer (put a l) = t_timer l"
  by (simp_all add: put_def)

lemma fold_put_sel [simp]:
  "stream (fold put as l) = fold ls_put as (stream l)" "level (fold put as l) = level l"
  "line (fold put as l) = line l" "basename (fold put as l) = basename l"
  by (induction as arbitrary: l) simp_all

lemma length_getLevelName [simp]: "length (getLevelName lev) = 6"
  by (cases lev) simp_all

lemma snprintf_prefix:
  "k \<le> length s \<Longrightarrow> length s < n \<Longrightarrow> take k (snprintf n s buf) = take k s"
  by (simp add: snprintf_def blit_def)

text \<open>The seventeen bytes of the calendar that reach the line end with the minute's colon.\<close>

lemma timer_prefix:
  assumes "tm_ok t"
  shows "take 17 (snprintf 64 (calendar t) buf) = calendar_min t"
proof -
  have "take 17 (snprintf 64 (calendar t) buf) = take 17 (calendar t)"
    using length_calendar [OF assms] by (intro snprintf_prefix) simp_all
  also have "\<dots> = calendar_min t"
    using length_calendar_min [OF assms] by (simp add: calendar_def)
  finally show ?thesis .
qed

definition micro_field :: "int \<Rightarrow> string" where
  "micro_field us = fmt_0d 6 (us mod kMicroSecondsPerSecond) @ '' ''"

lemma length_micro_field: "length (micro_field us) = 7"
  by (simp add: micro_field_def kMicroSecondsPerSecond_def length_fmt_0d)

lemma micro_prefix:
  assumes "0 \<le> us"
  shows "take 7 (snprintf 32 (fmt_0d 6 (cmod us kMicroSecondsPerSecond) @ '' '') buf) = micro_field us"
proof -
  have "cmod us kMicroSecondsPerSecond = us mod kMicroSecondsPerSecond"
    using assms by (simp add: cmod_nonneg kMicroSecondsPerSecond_def)
  then show ?thesis
    using snprintf_prefix [of 7 "micro_field us" 32 buf] length_micro_field [of us]
    by (simp add: micro_field_def)
qed

text \<open>The arguments a whole statement streams, in order.\<close>

definition line_args ::
  "(int \<Rightarrow> tm) \<Rightarrow> int \<Rightarrow> bytes \<Rightarrow> string \<Rightarrow> int \<Rightarrow> LogLevel \<Rightarrow> log_arg list \<Rightarrow> log_arg list" where
  "line_args lt us timer fileName ln lev as =
     [LTemplate (snprintf 64 (calendar (lt (cdiv us kMicroSecondsPerSecond))) timer) 17,
      LTemplate (snprintf 32 (fmt_0d 6 (cmod us kMicroSecondsPerSecond) @ '' '') (replicate 32 NUL)) 7,
      LTemplate (getLevelName lev) 6] @ as @
     [LCStr '' - '', LTemplate (SourceFile fileName) (length (SourceFile fileName)),
      LCStr '':'', LInt ln, LChar CHR 0x0A]"

lemma log_statement_eq:
  "log_statement lt ge us raw timer fileName ln lev as =
     GOutput (contents (fold ls_put (line_args lt us timer fileName ln lev as) (new_fixbuf raw))) #
     (if lev = FATAL then [GFlush, Abort] else [])"
  by (simp add: log_statement_def Logger_dtor_def finish_def Logger_def Impl_def formatTime_def
      line_args_def Let_def)

text \<open>The text a line consists of when everything fits.\<close>

definition line_text ::
  "(int \<Rightarrow> tm) \<Rightarrow> int \<Rightarrow> string \<Rightarrow> int \<Rightarrow> LogLevel \<Rightarrow> log_arg list \<Rightarrow> string" where
  "line_text lt us fileName ln lev as =
     calendar_min (lt (us div kMicroSecondsPerSecond)) @ micro_field us @ getLevelName lev @
     concat (map shown as) @ '' - '' @ SourceFile fileName @ '':'' @ shown (LInt ln) @ [CHR 0x0A]"

lemma c_str_literals [simp]: "c_str '' - '' = '' - ''" "c_str '':'' = '':''"
  by (simp_all add: c_str_def NUL_def)

lemma line_args_text:
  assumes "0 \<le> us" "tm_ok (lt (us div kMicroSecondsPerSecond))"
  shows "concat (map shown (line_args lt us timer fileName ln lev as)) =
    line_text lt us fileName ln lev as"
proof -
  have sec: "cdiv us kMicroSecondsPerSecond = us div kMicroSecondsPerSecond"
    using assms(1) by (simp add: cdiv_nonneg kMicroSecondsPerSecond_def)
  show ?thesis
    using timer_prefix [OF assms(2)] micro_prefix [OF assms(1)]
    by (simp add: line_args_def line_text_def sec)
qed

subsection \<open>Properties\<close>

text \<open>
  C37 (layout of a log line). When the line fits, the message handed to \<open>g_output\<close> is, in
  this order and with nothing else: date and minute, microseconds, level, the streamed
  arguments, the file's base name, the line number and a newline. The output happens once,
  and a FATAL line then flushes and aborts, in that order.
\<close>

theorem log_line_layout:
  assumes "length raw = 4096" and "0 \<le> us" and "tm_ok (lt (us div kMicroSecondsPerSecond))"
    and "list_all arg_ok as" and "\<bar>ln\<bar> < 2 ^ 31"
    and "length (line_text lt us fileName ln lev as) + maxNumSize < 4096"
  shows "log_statement lt ge us raw timer fileName ln lev as =
    GOutput (line_text lt us fileName ln lev as) # (if lev = FATAL then [GFlush, Abort] else [])"
proof -
  let ?as = "line_args lt us timer fileName ln lev as"
  have line_eq: "concat (map shown ?as) = line_text lt us fileName ln lev as"
    using assms(2,3) by (rule line_args_text)
  have ok: "list_all arg_ok ?as" using assms(4,5) by (simp add: line_args_def)
  have "contents (fold ls_put ?as (new_fixbuf raw)) = contents (new_fixbuf raw) @ concat (map shown ?as)"
    using ls_put_all [OF _ ok, of "new_fixbuf raw"] assms(1,6)
    by (simp only: line_eq) (simp add: smallBufferSize_def)
  then show ?thesis by (simp add: log_statement_eq line_eq)
qed

theorem log_line_layout_witness:
  "log_statement (\<lambda>s. epoch_tm\<lparr>tm_sec := s mod 60\<rparr>) (\<lambda>e. []) 5000042 (replicate 4096 NUL)
     (replicate 64 NUL) ''src/a.cc'' 12 FATAL [LStr ''x='', LInt (-3)] =
   [GOutput (''1970/01/01 00:00:000042 FATAL x=-3 - a.cc:12'' @ [CHR 0x0A]), GFlush, Abort]"
proof -
  have sec: "(5000042::int) div kMicroSecondsPerSecond = 5"
    by (simp add: kMicroSecondsPerSecond_def)
  have line_eq: "line_text (\<lambda>s. epoch_tm\<lparr>tm_sec := s mod 60\<rparr>) 5000042 ''src/a.cc'' 12 FATAL
      [LStr ''x='', LInt (-3)] = ''1970/01/01 00:00:000042 FATAL x=-3 - a.cc:12'' @ [CHR 0x0A]"
    by code_simp
  show ?thesis
    using log_line_layout [of "replicate 4096 NUL" 5000042 "\<lambda>s. epoch_tm\<lparr>tm_sec := s mod 60\<rparr>"
        "[LStr ''x='', LInt (-3)]" 12 "''src/a.cc''" FATAL "\<lambda>e. []" "replicate 64 NUL"]
    unfolding line_eq sec by (simp add: tm_ok_def epoch_tm_def maxNumSize_def)
qed

text \<open>
  The second is not logged. The seventeen bytes of the formatted time that go into the
  line stop before the seconds field: two statements of the same minute whose microsecond
  parts agree produce the same line.
\<close>

lemma log_line_drops_seconds:
  assumes "0 \<le> us" and "0 \<le> us'" and "tm_ok (lt (us div kMicroSecondsPerSecond))"
    and "us' mod kMicroSecondsPerSecond = us mod kMicroSecondsPerSecond"
    and "lt (us' div kMicroSecondsPerSecond) = (lt (us div kMicroSecondsPerSecond))\<lparr>tm_sec := s\<rparr>"
    and "0 \<le> s" and "s \<le> 60"
  shows "log_statement lt ge us' raw timer fileName ln lev as =
    log_statement lt ge us raw timer fileName ln lev as"
proof -
  let ?t = "lt (us div kMicroSecondsPerSecond)"
  have ok': "tm_ok (?t\<lparr>tm_sec := s\<rparr>)" using assms(3,6,7) by (simp add: tm_ok_def)
  have "calendar_min (?t\<lparr>tm_sec := s\<rparr>) = calendar_min ?t" by (simp add: calendar_min_def)
  then have "take 17 (snprintf 64 (calendar (?t\<lparr>tm_sec := s\<rparr>)) timer) =
      take 17 (snprintf 64 (calendar ?t) timer)"
    using timer_prefix [OF ok'] timer_prefix [OF assms(3)] by simp
  moreover have "cmod us' kMicroSecondsPerSecond = cmod us kMicroSecondsPerSecond"
    using assms(1,2,4) by (simp add: cmod_nonneg kMicroSecondsPerSecond_def)
  moreover have "cdiv us' kMicroSecondsPerSecond = us' div kMicroSecondsPerSecond"
    "cdiv us kMicroSecondsPerSecond = us div kMicroSecondsPerSecond"
    using assms(1,2) by (simp_all add: cdiv_nonneg kMicroSecondsPerSecond_def)
  ultimately show ?thesis by (simp add: log_statement_eq line_args_def assms(5))
qed

lemma log_line_drops_seconds_witness:
  "log_statement (\<lambda>s. epoch_tm\<lparr>tm_sec := s mod 60\<rparr>) (\<lambda>e. []) 59000001 (replicate 4096 NUL)
     (replicate 64 NUL) ''a.cc'' 1 INFO [] =
   log_statement (\<lambda>s. epoch_tm\<lparr>tm_sec := s mod 60\<rparr>) (\<lambda>e. []) 1 (replicate 4096 NUL)
     (replicate 64 NUL) ''a.cc'' 1 INFO []"
  using log_line_drops_seconds [of 1 59000001 "\<lambda>s. epoch_tm\<lparr>tm_sec := s mod 60\<rparr>" 59
      "\<lambda>e. []" "replicate 4096 NUL" "replicate 64 NUL" "''a.cc''" 1 INFO "[]"]
  by (simp add: tm_ok_def epoch_tm_def kMicroSecondsPerSecond_def)

end
