(* ===== verification/LogFiles.thy ===== *)
theory LogFiles
  imports Timestamps
begin

text \<open>
  \<open>class FileUtil\<close> (include/FileUtil.h, log/FileUtil.cc) and \<open>class LogFile\<close>
  (include/LogFile.h, log/LogFile.cc): appending to the current log file and rolling to a
  new one by size and by day.

  The C library's streams are outside the program. \<open>'f\<close> is the type of an open stream and
  the record \<open>'f logenv\<close> holds the calls the code makes: \<open>fopen\<close> (\<open>None\<close> for a null
  pointer), \<open>fwrite\<close> with its count, \<open>ferror\<close>, \<open>clearerr\<close>, \<open>fflush\<close>, \<open>fclose\<close>, the
  results \<open>clock k\<close> of the successive calls of \<open>time(NULL)\<close>, and \<open>localtime_r\<close>. What the
  code relies on is the predicate \<open>stdio_ok\<close>; \<open>accepted f\<close> stands for the bytes a stream
  has taken.
\<close>

record 'f logenv =
  fopen :: "string \<Rightarrow> 'f option"
  fwrite :: "bytes \<Rightarrow> 'f \<Rightarrow> nat \<times> 'f"
  ferror :: "'f \<Rightarrow> int"
  clearerr :: "'f \<Rightarrow> 'f"
  fflush :: "'f \<Rightarrow> 'f"
  fclose :: "'f \<Rightarrow> 'f"
  clock :: "nat \<Rightarrow> int"
  localtime_r :: "int \<Rightarrow> tm"

record 'f fileutil =
  stream_of :: 'f
  writtenBytes :: int

text \<open>The constructor: \<open>setbuffer\<close> on a null \<open>FILE*\<close> is the \<open>None\<close> case.\<close>

definition FileUtil :: "'f logenv \<Rightarrow> string \<Rightarrow> 'f fileutil option" where
  "FileUtil E fileName =
     map_option (\<lambda>f. \<lparr>stream_of = f, writtenBytes = 0\<rparr>) (fopen E fileName)"

text \<open>\<open>FileUtil::write\<close>, on the stream.\<close>

definition FileUtil_write :: "'f logenv \<Rightarrow> bytes \<Rightarrow> 'f \<Rightarrow> nat \<times> 'f" where
  [simp]: "FileUtil_write E data f = fwrite E data f"

text \<open>The \<open>while\<close> loop of \<open>FileUtil::append\<close>; \<open>None\<close> is a loop that does not end.\<close>

partial_function (option) append_loop ::
  "'f logenv \<Rightarrow> bytes \<Rightarrow> nat \<Rightarrow> 'f \<Rightarrow> (nat \<times> 'f) option" where
  "append_loop E data written f =
     (if written = length data then Some (written, f)
      else let remain = length data - written;
               r = FileUtil_write E (slice written remain data) f;
               n = fst r; f1 = snd r
           in if n \<noteq> remain \<and> ferror E f1 \<noteq> 0 then Some (written, clearerr E f1)
              else append_loop E data (written + n) f1)"

definition FileUtil_append :: "'f logenv \<Rightarrow> bytes \<Rightarrow> 'f fileutil \<Rightarrow> 'f fileutil option" where
  "FileUtil_append E data u = do {
     (written, f) \<leftarrow> append_loop E data 0 (stream_of u);
     Some (u\<lparr>stream_of := f, writtenBytes := writtenBytes u + int written\<rparr>)
   }"

definition FileUtil_flush :: "'f logenv \<Rightarrow> 'f fileutil \<Rightarrow> 'f fileutil" where
  "FileUtil_flush E u = u\<lparr>stream_of := fflush E (stream_of u)\<rparr>"

definition FileUtil_dtor :: "'f logenv \<Rightarrow> 'f fileutil \<Rightarrow> 'f" where
  "FileUtil_dtor E u = fclose E (stream_of u)"

text \<open>
  \<open>LogFile\<close>. \<open>logFile\<close> is the \<open>unique_ptr file_\<close>; \<open>ticks\<close> counts the calls of \<open>time\<close> and
  \<open>archive\<close> collects the streams closed so far, for the statements.
\<close>

record 'f logfile =
  lfBasename :: string
  rollsize :: int
  flushInterval :: int
  checkEveryN :: int
  lineCount :: int
  startOfPeriod :: int
  lastRoll :: int
  lastFlush :: int
  logFile :: "'f fileutil option"
  ticks :: nat
  archive :: "'f list"

definition KRollPerSeconds :: int where
  "KRollPerSeconds = 24 * 60 * 60"

text \<open>\<open>strftime(".%Y%m%d-%H%M%S")\<close> between the base name and \<open>".log"\<close>.\<close>

definition getLogFileName :: "'f logenv \<Rightarrow> string \<Rightarrow> int \<Rightarrow> string" where
  "getLogFileName E base secs =
     (let t = localtime_r E secs in
      base @ ''.'' @ fmt_0d 4 (tm_year t + 1900) @ fmt_0d 2 (tm_mon t + 1) @ fmt_0d 2 (tm_mday t) @
      ''-'' @ fmt_0d 2 (tm_hour t) @ fmt_0d 2 (tm_min t) @ fmt_0d 2 (tm_sec t) @ ''.log'')"

definition period_of :: "int \<Rightarrow> int" where
  "period_of t = cdiv t KRollPerSeconds * KRollPerSeconds"

definition rollFile :: "'f logenv \<Rightarrow> 'f logfile \<Rightarrow> (bool \<times> 'f logfile) option" where
  "rollFile E l =
     (let nw = clock E (ticks l);
          filename = getLogFileName E (lfBasename l) nw;
          start = period_of nw;
          l1 = l\<lparr>ticks := Suc (ticks l)\<rparr>
      in if nw > lastRoll l1
         then do {
           u \<leftarrow> FileUtil E filename;
           Some (True, l1\<lparr>lastFlush := nw, lastRoll := nw, startOfPeriod := start,
             archive := archive l1 @
               (case logFile l1 of None \<Rightarrow> [] | Some old \<Rightarrow> [FileUtil_dtor E old]),
             logFile := Some u\<rparr>)
         }
         else Some (False, l1))"

definition LogFile :: "'f logenv \<Rightarrow> nat \<Rightarrow> string \<Rightarrow> int \<Rightarrow> int \<Rightarrow> int \<Rightarrow> 'f logfile option" where
  "LogFile E tick0 base roll flush_iv every =
     map_option snd (rollFile E
       \<lparr>lfBasename = base, rollsize = roll, flushInterval = flush_iv, checkEveryN = every,
        lineCount = 0, startOfPeriod = 0, lastRoll = 0, lastFlush = 0, logFile = None,
        ticks = tick0, archive = []\<rparr>)"

definition LogFile_flush :: "'f logenv \<Rightarrow> 'f logfile \<Rightarrow> 'f logfile option" where
  "LogFile_flush E l = do {
     u \<leftarrow> logFile l;
     Some (l\<lparr>logFile := Some (FileUtil_flush E u)\<rparr>)
   }"

text \<open>The roll decision of \<open>appendInLock\<close>, at time \<open>nw\<close> with \<open>written\<close> bytes in the file.\<close>

definition roll_check :: "'f logenv \<Rightarrow> int \<Rightarrow> int \<Rightarrow> 'f logfile \<Rightarrow> 'f logfile option" where
  "roll_check E nw written l =
     (if written > rollsize l then map_option snd (rollFile E l)
      else if lineCount l \<ge> checkEveryN l
      then let l' = l\<lparr>lineCount := 0\<rparr>; thisPeriod = period_of nw
           in if thisPeriod \<noteq> startOfPeriod l' then map_option snd (rollFile E l') else Some l'
      else Some l)"

definition appendInLock :: "'f logenv \<Rightarrow> bytes \<Rightarrow> 'f logfile \<Rightarrow> 'f logfile option" where
  "appendInLock E data l = do {
     u0 \<leftarrow> logFile l;
     u \<leftarrow> FileUtil_append E data u0;
     let nw = clock E (ticks l);
     let l1 = l\<lparr>logFile := Some u, ticks := Suc (ticks l), lineCount := lineCount l + 1\<rparr>;
     l2 \<leftarrow> roll_check E nw (writtenBytes u) l1;
     if nw - lastFlush l2 > flushInterval l2
     then LogFile_flush E (l2\<lparr>lastFlush := nw\<rparr>)
     else Some l2
   }"

text \<open>\<open>LogFile::append\<close> is \<open>appendInLock\<close> under the mutex.\<close>

definition LogFile_append :: "'f logenv \<Rightarrow> bytes \<Rightarrow> 'f logfile \<Rightarrow> 'f logfile option" where
  "LogFile_append E data l = appendInLock E data l"

subsection \<open>What the C library promises\<close>

text \<open>
  \<open>fwrite\<close> takes a prefix of its argument and returns its length, which is short only if
  the error indicator is then set; a fresh stream has taken nothing; flushing, closing and
  clearing the indicator do not change what was taken.
\<close>

definition stdio_ok :: "'f logenv \<Rightarrow> ('f \<Rightarrow> bytes) \<Rightarrow> bool" where
  "stdio_ok E accepted \<longleftrightarrow>
     (\<forall>d f. fst (fwrite E d f) \<le> length d \<and>
        accepted (snd (fwrite E d f)) = accepted f @ take (fst (fwrite E d f)) d \<and>
        (fst (fwrite E d f) < length d \<longrightarrow> ferror E (snd (fwrite E d f)) \<noteq> 0)) \<and>
     (\<forall>f. accepted (clearerr E f) = accepted f \<and> accepted (fflush E f) = accepted f \<and>
        accepted (fclose E f) = accepted f) \<and>
     (\<forall>name f. fopen E name = Some f \<longrightarrow> accepted f = [])"

lemma append_loop_result:
  assumes "stdio_ok E accepted"
  shows "append_loop E data 0 f =
    (if data = [] then Some (0, f)
     else let r = fwrite E data f in
       if fst r = length data then Some (length data, snd r) else Some (0, clearerr E (snd r)))"
proof (cases "data = []")
  case True
  then show ?thesis by (subst append_loop.simps) simp
next
  case False
  let ?r = "fwrite E data f"
  have le: "fst ?r \<le> length data" and err: "fst ?r < length data \<Longrightarrow> ferror E (snd ?r) \<noteq> 0"
    using assms by (auto simp: stdio_ok_def)
  have stop: "append_loop E data (length data) (snd ?r) = Some (length data, snd ?r)"
    by (subst append_loop.simps) simp
  show ?thesis
  proof (cases "fst ?r = length data")
    case True
    with False stop show ?thesis
      by (subst append_loop.simps) (simp add: Let_def mem_simps)
  next
    case short: False
    with le err have "ferror E (snd ?r) \<noteq> 0" by simp
    with False short show ?thesis
      by (subst append_loop.simps) (simp add: Let_def mem_simps)
  qed
qed

lemma FileUtil_append_result:
  assumes "stdio_ok E accepted"
  obtains u' n where "FileUtil_append E data u = Some u'"
    and "n = fst (fwrite E data (stream_of u))"
    and "data \<noteq> [] \<Longrightarrow> accepted (stream_of u') = accepted (stream_of u) @ take n data"
    and "data \<noteq> [] \<Longrightarrow>
      writtenBytes u' = writtenBytes u + (if n = length data then int (length data) else 0)"
    and "data = [] \<Longrightarrow> u' = u"
proof -
  let ?r = "fwrite E data (stream_of u)"
  have acc: "accepted (snd ?r) = accepted (stream_of u) @ take (fst ?r) data"
    and clr: "accepted (clearerr E (snd ?r)) = accepted (snd ?r)"
    using assms by (auto simp: stdio_ok_def)
  show ?thesis
  proof (cases "data = []")
    case True
    then show ?thesis
      using that [of u "fst ?r"] append_loop_result [OF assms, of data "stream_of u"]
      by (simp add: FileUtil_append_def)
  next
    case False
    let ?u = "if fst ?r = length data
      then u\<lparr>stream_of := snd ?r, writtenBytes := writtenBytes u + int (length data)\<rparr>
      else u\<lparr>stream_of := clearerr E (snd ?r)\<rparr>"
    have "FileUtil_append E data u = Some ?u"
      using False append_loop_result [OF assms, of data "stream_of u"]
      by (simp add: FileUtil_append_def Let_def)
    then show ?thesis using that [of ?u "fst ?r"] acc clr False by simp
  qed
qed


subsection \<open>Rolling\<close>

text \<open>
  A healthy machine: the library keeps its promises, no write fails, every file can be
  opened, and the clock is past the epoch and does not run backwards.
\<close>

definition healthy :: "'f logenv \<Rightarrow> ('f \<Rightarrow> bytes) \<Rightarrow> bool" where
  "healthy E accepted \<longleftrightarrow> stdio_ok E accepted \<and>
     (\<forall>d f. fst (fwrite E d f) = length d) \<and> (\<forall>name. fopen E name \<noteq> None) \<and>
     (\<forall>k. 0 < clock E k) \<and> mono (clock E)"

definition lf_ok :: "'f logenv \<Rightarrow> 'f logfile \<Rightarrow> bool" where
  "lf_ok E l \<longleftrightarrow> logFile l \<noteq> None \<and> startOfPeriod l = period_of (lastRoll l) \<and>
     0 < lastRoll l \<and> lastRoll l \<le> clock E (ticks l)"

text \<open>Everything logged so far, over all files in the order they were opened.\<close>

definition logged :: "('f \<Rightarrow> bytes) \<Rightarrow> 'f logfile \<Rightarrow> bytes" where
  "logged accepted l = concat (map accepted (archive l)) @
     (case logFile l of None \<Rightarrow> [] | Some u \<Rightarrow> accepted (stream_of u))"

lemma stdio_ok_files [simp]:
  assumes "stdio_ok E accepted"
  shows "accepted (fflush E f) = accepted f" "accepted (fclose E f) = accepted f"
    "fopen E name = Some f \<Longrightarrow> accepted f = []"
  using assms by (auto simp: stdio_ok_def)

text \<open>The three cases of \<open>rollFile\<close>.\<close>

lemma rollFile_cases:
  assumes "rollFile E l = Some (rolled, l')"
  obtains u where "rolled" "clock E (ticks l) > lastRoll l" "FileUtil E
        (getLogFileName E (lfBasename l) (clock E (ticks l))) = Some u"
      "l' = l\<lparr>ticks := Suc (ticks l), lastFlush := clock E (ticks l), lastRoll := clock E (ticks l),
         startOfPeriod := period_of (clock E (ticks l)),
         archive := archive l @ (case logFile l of None \<Rightarrow> [] | Some old \<Rightarrow> [FileUtil_dtor E old]),
         logFile := Some u\<rparr>"
    | "\<not> rolled" "clock E (ticks l) \<le> lastRoll l" "l' = l\<lparr>ticks := Suc (ticks l)\<rparr>"
  using assms by (auto simp: rollFile_def Let_def opt_simps split: if_splits)

lemma rollFile_ok:
  assumes "healthy E accepted" "lf_ok E l"
  shows "\<exists>rolled l'. rollFile E l = Some (rolled, l') \<and> lf_ok E l' \<and>
    logged accepted l' = logged accepted l"
proof -
  have st: "stdio_ok E accepted" and clk: "0 < clock E (ticks l)"
    and mono: "clock E (ticks l) \<le> clock E (Suc (ticks l))"
    using assms by (auto simp: healthy_def mono_def)
  obtain f where f: "fopen E (getLogFileName E (lfBasename l) (clock E (ticks l))) = Some f"
    using assms(1) unfolding healthy_def by (meson not_None_eq)
  obtain u where u: "logFile l = Some u" using assms(2) by (auto simp: lf_ok_def)
  have "accepted f = []" using st f by simp
  then show ?thesis
    using st clk mono f u assms(2)
    by (auto simp: rollFile_def FileUtil_def FileUtil_dtor_def Let_def lf_ok_def logged_def)
qed

lemma LogFile_flush_ok:
  assumes "stdio_ok E accepted" "lf_ok E l"
  shows "\<exists>l'. LogFile_flush E l = Some l' \<and> lf_ok E l' \<and> logged accepted l' = logged accepted l"
  using assms by (auto simp: LogFile_flush_def FileUtil_flush_def lf_ok_def logged_def)

lemma lf_ok_fields:
  "lf_ok E (l\<lparr>lastFlush := x\<rparr>) = lf_ok E l" "lf_ok E (l\<lparr>lineCount := c\<rparr>) = lf_ok E l"
  "logged acc (l\<lparr>lastFlush := x\<rparr>) = logged acc l" "logged acc (l\<lparr>lineCount := c\<rparr>) = logged acc l"
  by (simp_all add: lf_ok_def logged_def)

lemma roll_check_ok:
  assumes "healthy E accepted" "lf_ok E l"
  shows "\<exists>l'. roll_check E nw n l = Some l' \<and> lf_ok E l' \<and> logged accepted l' = logged accepted l"
proof -
  have "\<exists>l'. map_option snd (rollFile E (l\<lparr>lineCount := c\<rparr>)) = Some l' \<and> lf_ok E l' \<and>
      logged accepted l' = logged accepted l" for c
    using rollFile_ok [OF assms(1), of "l\<lparr>lineCount := c\<rparr>"] assms(2)
    by (fastforce simp: lf_ok_fields)
  from this [of 0] this [of "lineCount l"] show ?thesis
    using assms(2) by (simp add: roll_check_def Let_def lf_ok_fields)
qed

text \<open>An append on a healthy machine succeeds and logs exactly its argument.\<close>

lemma appendInLock_ok:
  assumes "healthy E accepted" "lf_ok E l"
  shows "\<exists>l'. appendInLock E data l = Some l' \<and> lf_ok E l' \<and>
    logged accepted l' = logged accepted l @ data"
proof -
  have st: "stdio_ok E accepted" and full: "fst (fwrite E d f) = length d" for d f
    using assms(1) by (auto simp: healthy_def)
  obtain u0 where u0: "logFile l = Some u0" using assms(2) by (auto simp: lf_ok_def)
  obtain u where u: "FileUtil_append E data u0 = Some u"
    and acc: "accepted (stream_of u) = accepted (stream_of u0) @ data"
    using FileUtil_append_result [OF st, where data = data and u = u0] full
    by (metis append_Nil2 take_all_iff order_refl)
  define l1 where
    "l1 = l\<lparr>logFile := Some u, ticks := Suc (ticks l), lineCount := lineCount l + 1\<rparr>"
  have mono: "clock E (ticks l) \<le> clock E (Suc (ticks l))"
    using assms(1) by (simp add: healthy_def mono_def)
  have l1: "lf_ok E l1" "logged accepted l1 = logged accepted l @ data"
    using assms(2) u0 acc mono by (auto simp: l1_def lf_ok_def logged_def)
  obtain l2 where l2: "roll_check E (clock E (ticks l)) (writtenBytes u) l1 = Some l2"
      "lf_ok E l2" "logged accepted l2 = logged accepted l @ data"
    using roll_check_ok [OF assms(1) l1(1)] l1(2) by metis
  show ?thesis
    using u0 u l2 LogFile_flush_ok [OF st, of "l2\<lparr>lastFlush := clock E (ticks l)\<rparr>"]
    by (auto simp: appendInLock_def Let_def l1_def [symmetric] lf_ok_fields)
qed


subsection \<open>The interface of a log sink\<close>

text \<open>
  What the asynchronous log relies on: a sink takes every message, keeps what it has and
  appends; flushing changes nothing it has taken.
\<close>

locale log_sink =
  fixes put :: "bytes \<Rightarrow> 'o \<Rightarrow> 'o option"
    and flush :: "'o \<Rightarrow> 'o option"
    and out :: "'o \<Rightarrow> bytes"
    and ok :: "'o \<Rightarrow> bool"
  assumes put_ok: "ok s \<Longrightarrow> \<exists>s'. put d s = Some s' \<and> ok s' \<and> out s' = out s @ d"
    and flush_ok: "ok s \<Longrightarrow> \<exists>s'. flush s = Some s' \<and> ok s' \<and> out s' = out s"
begin

lemma put_all:
  "ok s \<Longrightarrow> \<exists>s'. fold_opt put ds s = Some s' \<and> ok s' \<and> out s' = out s @ concat ds"
proof (induction ds arbitrary: s)
  case (Cons d ds)
  obtain s1 where "put d s = Some s1" "ok s1" "out s1 = out s @ d"
    using put_ok [OF Cons.prems] by blast
  with Cons.IH [of s1] show ?case by auto
qed simp

lemma put_all_flush:
  assumes "ok s"
  shows "\<exists>s'. fold_opt put ds s \<bind> flush = Some s' \<and> ok s' \<and> out s' = out s @ concat ds"
proof -
  obtain s1 where "fold_opt put ds s = Some s1" "ok s1" "out s1 = out s @ concat ds"
    using put_all [OF assms] by blast
  with flush_ok [of s1] show ?thesis by auto
qed

end

interpretation lf: log_sink "LogFile_append E" "LogFile_flush E" "logged accepted"
    "\<lambda>l. healthy E accepted \<and> lf_ok E l" for E accepted
proof
  fix l d
  assume "healthy E accepted \<and> lf_ok E l"
  then show "\<exists>l'. LogFile_append E d l = Some l' \<and> (healthy E accepted \<and> lf_ok E l') \<and>
      logged accepted l' = logged accepted l @ d"
    using appendInLock_ok by (fastforce simp: LogFile_append_def)
next
  fix l
  assume "healthy E accepted \<and> lf_ok E l"
  then show "\<exists>l'. LogFile_flush E l = Some l' \<and> (healthy E accepted \<and> lf_ok E l') \<and>
      logged accepted l' = logged accepted l"
    using LogFile_flush_ok by (fastforce simp: healthy_def)
qed

lemma LogFile_ctor_ok:
  assumes "healthy E accepted"
  shows "\<exists>l. LogFile E k base roll iv every = Some l \<and> lf_ok E l \<and> logged accepted l = [] \<and>
    rollsize l = roll"
proof -
  have clk: "0 < clock E k" "clock E k \<le> clock E (Suc k)"
    using assms by (auto simp: healthy_def mono_def)
  obtain f where "fopen E (getLogFileName E base (clock E k)) = Some f"
    using assms unfolding healthy_def by (meson not_None_eq)
  moreover from this have "accepted f = []" using assms by (auto simp: healthy_def)
  ultimately show ?thesis
    using clk by (auto simp: LogFile_def rollFile_def FileUtil_def Let_def lf_ok_def logged_def)
qed

text \<open>An instance of the library for the witnesses: streams on a disk of limited space.\<close>

definition disk :: "nat \<Rightarrow> (nat \<Rightarrow> int) \<Rightarrow> (bytes \<times> int) logenv" where
  "disk space clk = \<lparr>fopen = (\<lambda>_. Some ([], 0)),
     fwrite = (\<lambda>d (c, e). let n = min (length d) (space - length c)
       in (n, (c @ take n d, if n < length d then 28 else e))),
     ferror = snd, clearerr = (\<lambda>(c, e). (c, 0)), fflush = id, fclose = id,
     clock = clk, localtime_r = (\<lambda>_. epoch_tm)\<rparr>"

lemma stdio_ok_disk: "stdio_ok (disk space clk) fst"
  unfolding stdio_ok_def disk_def Let_def by (auto simp: split_beta)

definition big_disk :: "(nat \<Rightarrow> int) \<Rightarrow> (bytes \<times> int) logenv" where
  "big_disk clk = (disk 0 clk)\<lparr>fwrite := (\<lambda>d (c, e). (length d, (c @ d, e)))\<rparr>"

lemma healthy_big_disk:
  "mono clk \<Longrightarrow> (\<And>k. 0 < clk k) \<Longrightarrow> healthy (big_disk clk) fst"
  unfolding healthy_def stdio_ok_def big_disk_def disk_def by (auto simp: split_beta)

subsection \<open>Properties\<close>

text \<open>
  C40 (\<open>FileUtil::append\<close> returns, and what it counts). With a C library that keeps its
  promises the write loop ends after one \<open>fwrite\<close>, whatever the disk does. The file then
  holds the prefix that was written; the byte count of the roll decision grows by the whole
  length when the write was complete and by nothing when it was cut short, so after an
  error the count is smaller than the file.
\<close>

theorem FileUtil_append_effect:
  assumes "stdio_ok E accepted" and "data \<noteq> []"
  shows "\<exists>u' n. FileUtil_append E data u = Some u' \<and> n = fst (fwrite E data (stream_of u)) \<and>
    accepted (stream_of u') = accepted (stream_of u) @ take n data \<and>
    writtenBytes u' = writtenBytes u + (if n = length data then int (length data) else 0)"
  by (rule FileUtil_append_result [OF assms(1), of data u]) (use assms(2) in auto)

theorem FileUtil_append_effect_witness:
  "\<exists>u'. FileUtil_append (disk 2 (\<lambda>_. 1)) ''abc'' \<lparr>stream_of = ([], 0), writtenBytes = 0\<rparr> = Some u' \<and>
     fst (stream_of u') = ''ab'' \<and> writtenBytes u' = 0"
  using FileUtil_append_effect [OF stdio_ok_disk, of "''abc''" 2 "\<lambda>_. 1"
      "\<lparr>stream_of = ([], 0), writtenBytes = 0\<rparr>"]
  by (auto simp: disk_def)

text \<open>The counter of the roll decision against the stream it counts, when no write is short.\<close>

definition counted :: "('f \<Rightarrow> bytes) \<Rightarrow> 'f logfile \<Rightarrow> bool" where
  "counted accepted l \<longleftrightarrow> (\<exists>u. logFile l = Some u \<and>
     writtenBytes u = int (length (accepted (stream_of u))))"

lemma FileUtil_append_counted:
  assumes "healthy E accepted" "writtenBytes u0 = int (length (accepted (stream_of u0)))"
    "FileUtil_append E data u0 = Some u"
  shows "writtenBytes u = int (length (accepted (stream_of u)))"
proof -
  have st: "stdio_ok E accepted" and full: "fst (fwrite E data (stream_of u0)) = length data"
    using assms(1) by (auto simp: healthy_def)
  show ?thesis
    by (rule FileUtil_append_result [OF st, of data u0]) (use assms(2,3) full in \<open>cases "data = []"; auto\<close>)
qed

lemma rollFile_counted:
  assumes "healthy E accepted" "counted accepted l" "rollFile E l = Some (rolled, l')"
  shows "counted accepted l' \<and> rollsize l' = rollsize l \<and>
    (clock E (ticks l) \<le> lastRoll l \<or> (\<exists>u. logFile l' = Some u \<and> writtenBytes u = 0))"
  using assms(3)
proof (cases rule: rollFile_cases)
  case (1 u)
  have "accepted (stream_of u) = []" "writtenBytes u = 0"
    using 1(3) assms(1) by (auto simp: FileUtil_def healthy_def)
  then show ?thesis using 1(4) by (simp add: counted_def)
next
  case 2
  then show ?thesis using assms(2) by (simp add: counted_def)
qed

lemma roll_check_counted:
  assumes "healthy E accepted" "logFile l = Some u"
    "writtenBytes u = int (length (accepted (stream_of u)))" "0 \<le> rollsize l"
    "roll_check E nw (writtenBytes u) l = Some l'"
  shows "counted accepted l' \<and> rollsize l' = rollsize l \<and> (\<exists>u'. logFile l' = Some u' \<and>
    (writtenBytes u' \<le> rollsize l \<or> clock E (ticks l) \<le> lastRoll l))"
proof -
  have l: "counted accepted (l\<lparr>lineCount := c\<rparr>)" for c using assms(2,3) by (simp add: counted_def)
  have roll: "counted accepted m \<and> rollsize m = rollsize l \<and> (\<exists>u'. logFile m = Some u' \<and>
      (writtenBytes u' \<le> rollsize l \<or> clock E (ticks l) \<le> lastRoll l))"
    if "map_option snd (rollFile E (l\<lparr>lineCount := c\<rparr>)) = Some m" for c m
    using that rollFile_counted [OF assms(1) l [of c]] assms(4) by (force simp: counted_def)
  show ?thesis
    using assms(2-5) l [of 0] l [of "lineCount l"] roll [of 0 l'] roll [of "lineCount l" l']
    by (auto simp: roll_check_def Let_def counted_def split: if_splits)
qed

lemma LogFile_append_counted:
  assumes "healthy E accepted" "counted accepted l" "0 \<le> rollsize l"
    "LogFile_append E data l = Some l'"
  shows "counted accepted l' \<and> rollsize l' = rollsize l \<and> (\<exists>u'. logFile l' = Some u' \<and>
    (writtenBytes u' \<le> rollsize l \<or> clock E (Suc (ticks l)) \<le> lastRoll l))"
proof -
  obtain u0 u l2 where u0: "logFile l = Some u0" and u: "FileUtil_append E data u0 = Some u"
    and l2: "roll_check E (clock E (ticks l)) (writtenBytes u)
      (l\<lparr>logFile := Some u, ticks := Suc (ticks l), lineCount := lineCount l + 1\<rparr>) = Some l2"
    and l': "rollsize l' = rollsize l2" "logFile l' = logFile l2 \<or>
      (\<exists>u. logFile l2 = Some u \<and> logFile l' = Some (FileUtil_flush E u))"
    using assms(4)
    by (auto simp: LogFile_append_def appendInLock_def LogFile_flush_def Let_def opt_simps split: if_splits)
  have "writtenBytes u = int (length (accepted (stream_of u)))"
    using FileUtil_append_counted [OF assms(1) _ u] assms(2) u0 by (auto simp: counted_def)
  from roll_check_counted [OF assms(1) _ this _ l2] assms(3)
  have "counted accepted l2 \<and> rollsize l2 = rollsize l \<and> (\<exists>u'. logFile l2 = Some u' \<and>
      (writtenBytes u' \<le> rollsize l \<or> clock E (Suc (ticks l)) \<le> lastRoll l))" by simp
  then show ?thesis
    using l' assms(1) by (auto simp: counted_def FileUtil_flush_def healthy_def)
qed

text \<open>
  C38 (roll by size). On a healthy machine (no \<open>fwrite\<close> short, every \<open>fopen\<close> succeeds), after
  any messages written to a new \<open>LogFile\<close>, one more append leaves in the current file at most
  \<open>rollsize_\<close> of the bytes written to it, unless the roll was refused because the clock had
  not moved past the second of the previous roll. The count the decision is made on is the
  number of those bytes.
\<close>

theorem roll_by_size:
  assumes "healthy E accepted" and "0 \<le> roll"
    and "LogFile E k base roll iv every = Some l0"
    and "fold_opt (LogFile_append E) ds l0 = Some l"
  shows "\<exists>l' u'. LogFile_append E data l = Some l' \<and> logFile l' = Some u' \<and>
    writtenBytes u' = int (length (accepted (stream_of u'))) \<and>
    (int (length (accepted (stream_of u'))) \<le> roll \<or> clock E (Suc (ticks l)) \<le> lastRoll l)"
proof -
  have l0: "lf_ok E l0" "rollsize l0 = roll" "logged accepted l0 = []"
    using LogFile_ctor_ok [OF assms(1)] assms(3) by (metis option.inject)+
  obtain u0 where "logFile l0 = Some u0" "writtenBytes u0 = 0"
    using assms(3) l0(1)
    by (auto simp: LogFile_def FileUtil_def lf_ok_def elim!: rollFile_cases split: if_splits)
  then have "counted accepted l0 \<and> rollsize l0 = roll \<and> lf_ok E l0"
    using l0 by (simp add: counted_def logged_def)
  moreover have "counted accepted m' \<and> rollsize m' = roll \<and> lf_ok E m'"
    if "counted accepted m \<and> rollsize m = roll \<and> lf_ok E m" "LogFile_append E d m = Some m'" for d m m'
    using LogFile_append_counted [OF assms(1) _ _ that(2)] appendInLock_ok [OF assms(1), of m d] that assms(2)
    by (auto simp: LogFile_append_def)
  ultimately have l: "counted accepted l \<and> rollsize l = roll \<and> lf_ok E l"
    using fold_opt_invariant [OF assms(4), of "\<lambda>m. counted accepted m \<and> rollsize m = roll \<and> lf_ok E m"]
    by blast
  obtain l' where l': "LogFile_append E data l = Some l'"
    using appendInLock_ok [OF assms(1)] l by (auto simp: LogFile_append_def)
  show ?thesis
    using LogFile_append_counted [OF assms(1) _ _ l'] l l' assms(2) by (auto simp: counted_def)
qed

theorem roll_by_size_witness:
  "\<exists>l0 l l' u'. LogFile (big_disk (\<lambda>k. int k + 1)) 0 ''log'' 2 3 1024 = Some l0 \<and>
     fold_opt (LogFile_append (big_disk (\<lambda>k. int k + 1))) [] l0 = Some l \<and>
     LogFile_append (big_disk (\<lambda>k. int k + 1)) ''abc'' l = Some l' \<and> logFile l' = Some u' \<and>
     length (fst (stream_of u')) \<le> 2"
proof -
  let ?E = "big_disk (\<lambda>k. int k + 1)"
  have h: "healthy ?E fst" by (rule healthy_big_disk) (simp_all add: mono_def)
  then obtain l where l: "LogFile ?E 0 ''log'' 2 3 1024 = Some l"
    using LogFile_ctor_ok by blast
  have "ticks l = 1" "lastRoll l = 1"
    using l by (auto simp: LogFile_def rollFile_def FileUtil_def Let_def opt_simps
        big_disk_def disk_def)
  then show ?thesis
    using roll_by_size [OF h _ l, of "[]" l "''abc''"] l by (auto simp: big_disk_def disk_def)
qed

text \<open>
  Roll by day. On a healthy machine, an append that completes a batch of
  \<open>checkEveryN_\<close> lines after the day has changed leaves a fresh, empty file whose period is
  the day of the moment it was opened.
\<close>

lemma roll_by_day:
  assumes "healthy E accepted" and "lf_ok E l"
    and "checkEveryN l \<le> lineCount l + 1"
    and "period_of (clock E (ticks l)) \<noteq> startOfPeriod l"
  shows "\<exists>l' u'. appendInLock E data l = Some l' \<and> logFile l' = Some u' \<and> writtenBytes u' = 0 \<and>
    startOfPeriod l' = period_of (clock E (Suc (ticks l)))"
proof -
  obtain l' where l': "appendInLock E data l = Some l'"
    using appendInLock_ok [OF assms(1,2)] by blast
  then obtain u0 u l2 where u0: "logFile l = Some u0" and u: "FileUtil_append E data u0 = Some u"
    and l2: "roll_check E (clock E (ticks l)) (writtenBytes u)
      (l\<lparr>logFile := Some u, ticks := Suc (ticks l), lineCount := lineCount l + 1\<rparr>) = Some l2"
    and same: "startOfPeriod l' = startOfPeriod l2"
      "logFile l' = logFile l2 \<or> (\<exists>u. logFile l2 = Some u \<and> logFile l' = Some (FileUtil_flush E u))"
    by (auto simp: appendInLock_def LogFile_flush_def Let_def opt_simps split: if_splits)
  have "lastRoll l < clock E (ticks l)"
    using assms(2,4) by (auto simp: lf_ok_def order_less_le)
  moreover have "clock E (ticks l) \<le> clock E (Suc (ticks l))"
    using assms(1) by (simp add: healthy_def mono_def)
  ultimately have "lastRoll l < clock E (Suc (ticks l))" by simp
  then have "\<exists>u2. logFile l2 = Some u2 \<and> writtenBytes u2 = 0 \<and>
      startOfPeriod l2 = period_of (clock E (Suc (ticks l)))"
    using l2 assms(3,4)
    by (auto simp: roll_check_def Let_def FileUtil_def split: if_splits elim!: rollFile_cases)
  with l' same show ?thesis by (auto simp: FileUtil_flush_def)
qed

lemma roll_by_day_witness:
  "\<exists>l l' u'. appendInLock (big_disk (\<lambda>k. 86399 + int k)) ''x'' l = Some l' \<and>
     logFile l' = Some u' \<and> startOfPeriod l = 0 \<and> startOfPeriod l' = 86400"
proof -
  let ?E = "big_disk (\<lambda>k. 86399 + int k)"
  have h: "healthy ?E fst" by (rule healthy_big_disk) (simp_all add: mono_def)
  then obtain l where l: "LogFile ?E 0 ''log'' 2 3 1 = Some l" "lf_ok ?E l"
    using LogFile_ctor_ok by blast
  have f: "ticks l = 1" "startOfPeriod l = 0" "checkEveryN l = 1" "lineCount l = 0"
    using l(1) by (auto simp: LogFile_def rollFile_def FileUtil_def Let_def opt_simps
        big_disk_def disk_def period_of_def cdiv_def KRollPerSeconds_def)
  have c: "clock ?E n = 86399 + int n" for n by (simp add: big_disk_def disk_def)
  show ?thesis
    using roll_by_day [OF h l(2), of "''x''"] f
    by (auto simp: c period_of_def cdiv_def KRollPerSeconds_def)
qed

text \<open>
  C28 (no log byte is lost over rolls). On a healthy machine a new \<open>LogFile\<close> takes any
  sequence of messages; the files it has written, in the order they were opened, hold
  exactly the concatenation of the messages, wherever the rolls fell.
\<close>

theorem log_file_complete:
  assumes "healthy E accepted"
  shows "\<exists>l l'. LogFile E k base roll iv every = Some l \<and>
    fold_opt (LogFile_append E) ds l = Some l' \<and> logged accepted l' = concat ds"
proof -
  obtain l where l: "LogFile E k base roll iv every = Some l" "lf_ok E l" "logged accepted l = []"
    using LogFile_ctor_ok [OF assms] by blast
  then show ?thesis using lf.put_all [of E accepted l ds] assms by auto
qed

theorem log_file_complete_witness:
  "\<exists>l l'. LogFile (big_disk (\<lambda>k. int k + 1)) 0 ''log'' 2 3 1024 = Some l \<and>
     fold_opt (LogFile_append (big_disk (\<lambda>k. int k + 1))) [''abc'', ''de'', ''f''] l = Some l' \<and>
     logged fst l' = ''abcdef''"
  using log_file_complete [OF healthy_big_disk [of "\<lambda>k. int k + 1"],
      of 0 "''log''" 2 3 1024 "[''abc'', ''de'', ''f'']"]
  by (simp add: mono_def)

end
