(* ===== verification/AsyncLog.thy ===== *)
theory AsyncLog
  imports FixBuffer LogFiles
begin

text \<open>
  \<open>class AsyncLogging\<close> (include/AsyncLogging.h, log/AsyncLogging.cc): front ends append to
  \<open>currentBuffer_\<close> under \<open>mutex_\<close>, the logging thread swaps the full buffers out and
  writes them to its \<open>LogFile\<close>. A \<open>unique_ptr\<close> is an \<open>option\<close>; using a null one, or
  \<open>back()\<close> of an empty vector, is the result \<open>None\<close> of an operation.

  The lock is held during the whole of \<open>append\<close> and of one round of the loop in
  \<open>threadFunc\<close>, except while \<open>wait_for\<close> sleeps, so rounds and appends are atomic and
  interleave in any order: the step relation \<open>log_step\<close>. The sink is given by the two
  operations \<open>put\<close> and \<open>flush\<close> and its type \<open>'o\<close>; the locale \<open>log_sink\<close> says what is
  relied on, and \<open>LogFile\<close> provides it. \<open>history\<close> is a ghost: what \<open>append\<close> accepted.
\<close>

datatype log_pc = AtTest | InRound | Exited

record 'o asynclog =
  running :: bool
  currentBuffer :: "fixbuf option"
  nextBuffer :: "fixbuf option"
  buffers :: "fixbuf list"
  newBuffer1 :: "fixbuf option"
  newBuffer2 :: "fixbuf option"
  logOut :: 'o
  pc :: log_pc
  history :: bytes

definition LargeBuffer :: "bytes \<Rightarrow> fixbuf" where
  "LargeBuffer raw = fb_bzero largeBufferSize (new_fixbuf raw)"

text \<open>
  After the constructor, \<open>start()\<close> and the first lines of \<open>threadFunc\<close>: four zeroed
  buffers, no full ones, the log file opened.
\<close>

definition AsyncLogging :: "bytes \<Rightarrow> 'o \<Rightarrow> 'o asynclog" where
  "AsyncLogging raw o0 =
     \<lparr>running = True, currentBuffer = Some (LargeBuffer raw), nextBuffer = Some (LargeBuffer raw),
      buffers = [], newBuffer1 = Some (LargeBuffer raw), newBuffer2 = Some (LargeBuffer raw),
      logOut = o0, pc = AtTest, history = []\<rparr>"

definition al_stop :: "'o asynclog \<Rightarrow> 'o asynclog" where
  "al_stop s = s\<lparr>running := False\<rparr>"

definition al_append :: "bytes \<Rightarrow> bytes \<Rightarrow> 'o asynclog \<Rightarrow> 'o asynclog option" where
  "al_append raw data s = do {
     cb \<leftarrow> currentBuffer s;
     if fb_valid largeBufferSize (length data) cb
     then Some (s\<lparr>currentBuffer := Some (fb_append largeBufferSize data cb)\<rparr>)
     else do {
       let s1 = s\<lparr>buffers := buffers s @ [cb], currentBuffer := None\<rparr>;
       let s2 = (case nextBuffer s1 of
           Some nb \<Rightarrow> s1\<lparr>currentBuffer := Some nb, nextBuffer := None\<rparr>
         | None \<Rightarrow> s1\<lparr>currentBuffer := Some (new_fixbuf raw)\<rparr>);
       cb' \<leftarrow> currentBuffer s2;
       Some (s2\<lparr>currentBuffer := Some (fb_append largeBufferSize data cb')\<rparr>)
     }
   }"

text \<open>\<open>newBuffer = std::move(v.back()); v.pop_back(); newBuffer->reset()\<close>, when it is null.\<close>

definition refill :: "fixbuf option \<Rightarrow> fixbuf list \<Rightarrow> (fixbuf option \<times> fixbuf list) option" where
  "refill nb v =
     (case nb of
        Some b \<Rightarrow> Some (Some b, v)
      | None \<Rightarrow> if v = [] then None else Some (Some (fb_reset (last v)), butlast v))"

text \<open>\<open>if(v.size()>2) v.resize(2)\<close>.\<close>

definition keep2 :: "fixbuf list \<Rightarrow> fixbuf list" where
  "keep2 v = (if length v > 2 then take 2 v else v)"

text \<open>One round of the loop, from the \<open>push_back\<close> after the wait to the flush.\<close>

definition al_round ::
  "(bytes \<Rightarrow> 'o \<Rightarrow> 'o option) \<Rightarrow> ('o \<Rightarrow> 'o option) \<Rightarrow> 'o asynclog \<Rightarrow> 'o asynclog option" where
  "al_round put flush s = do {
     cb \<leftarrow> currentBuffer s;
     let s1 = s\<lparr>buffers := buffers s @ [cb], currentBuffer := newBuffer1 s, newBuffer1 := None\<rparr>;
     let s2 = (if nextBuffer s1 = None then s1\<lparr>nextBuffer := newBuffer2 s1, newBuffer2 := None\<rparr>
               else s1);
     let buffersToWrite = buffers s2;
     let s3 = s2\<lparr>buffers := []\<rparr>;
     o1 \<leftarrow> fold_opt put (map contents buffersToWrite) (logOut s3);
     (nb1, kept1) \<leftarrow> refill (newBuffer1 s3) (keep2 buffersToWrite);
     (nb2, kept2) \<leftarrow> refill (newBuffer2 s3) kept1;
     o2 \<leftarrow> flush o1;
     Some (s3\<lparr>newBuffer1 := nb1, newBuffer2 := nb2, logOut := o2\<rparr>)
   }"

text \<open>The flush after the loop.\<close>

definition al_exit :: "('o \<Rightarrow> 'o option) \<Rightarrow> 'o asynclog \<Rightarrow> 'o asynclog option" where
  "al_exit flush s = map_option (\<lambda>o1. s\<lparr>logOut := o1, pc := Exited\<rparr>) (flush (logOut s))"

text \<open>Whether \<open>append\<close> keeps a message: one that fills a whole buffer is dropped.\<close>

definition accepts :: "bytes \<Rightarrow> bytes" where
  "accepts data = (if length data < largeBufferSize then data else [])"

inductive log_step ::
  "(bytes \<Rightarrow> 'o \<Rightarrow> 'o option) \<Rightarrow> ('o \<Rightarrow> 'o option) \<Rightarrow> 'o asynclog \<Rightarrow> 'o asynclog \<Rightarrow> bool"
  for put flush where
  append_step: "length raw = largeBufferSize \<Longrightarrow> al_append raw data s = Some t \<Longrightarrow>
     log_step put flush s (t\<lparr>history := history t @ accepts data\<rparr>)"
| test_step: "pc s = AtTest \<Longrightarrow> running s \<Longrightarrow> log_step put flush s (s\<lparr>pc := InRound\<rparr>)"
| round_step: "pc s = InRound \<Longrightarrow> al_round put flush s = Some t \<Longrightarrow>
     log_step put flush s (t\<lparr>pc := AtTest\<rparr>)"
| exit_step: "pc s = AtTest \<Longrightarrow> \<not> running s \<Longrightarrow> al_exit flush s = Some t \<Longrightarrow>
     log_step put flush s t"
| stop_step: "log_step put flush s (al_stop s)"

inductive_cases log_stepE: "log_step put flush s t"

definition log_init :: "bytes \<Rightarrow> 'o \<Rightarrow> 'o asynclog \<Rightarrow> bool" where
  "log_init raw o0 s \<longleftrightarrow> s = AsyncLogging raw o0"

subsection \<open>Buffers are never null, and never missing when one is taken back\<close>

definition pending :: "'o asynclog \<Rightarrow> bytes" where
  "pending s = concat (map contents (buffers s)) @
     (case currentBuffer s of None \<Rightarrow> [] | Some cb \<Rightarrow> contents cb)"

abbreviation large_ok :: "fixbuf \<Rightarrow> bool" where
  "large_ok \<equiv> fb_ok largeBufferSize"

definition al_ok :: "'o asynclog \<Rightarrow> bool" where
  "al_ok s \<longleftrightarrow>
     (\<exists>cb. currentBuffer s = Some cb \<and> large_ok cb) \<and>
     (nextBuffer s = None \<longrightarrow> buffers s \<noteq> []) \<and>
     (\<forall>nb. nextBuffer s = Some nb \<longrightarrow> large_ok nb \<and> contents nb = []) \<and>
     (\<exists>b. newBuffer1 s = Some b \<and> large_ok b \<and> contents b = []) \<and>
     (\<exists>b. newBuffer2 s = Some b \<and> large_ok b \<and> contents b = []) \<and>
     list_all large_ok (buffers s)"

lemma large_pos [simp]: "0 < largeBufferSize"
  by (simp add: largeBufferSize_def)

lemma contents_bzero_new [simp]: "contents (fb_bzero N (new_fixbuf raw)) = []"
  by (simp add: contents_def fb_bzero_def new_fixbuf_def mem_simps)

lemma LargeBuffer_ok [simp]:
  "length raw = largeBufferSize \<Longrightarrow> large_ok (LargeBuffer raw)" "contents (LargeBuffer raw) = []"
  by (simp_all add: LargeBuffer_def)

lemma contents_append_fresh:
  "large_ok b \<Longrightarrow> contents b = [] \<Longrightarrow> contents (fb_append largeBufferSize d b) = accepts d"
  by (simp add: fb.view_app accepts_def)

lemma al_append_ok:
  assumes "al_ok s" "length raw = largeBufferSize"
  shows "\<exists>t. al_append raw d s = Some t \<and> al_ok t \<and> pending t = pending s @ accepts d \<and>
    logOut t = logOut s \<and> history t = history s \<and> pc t = pc s \<and> running t = running s"
proof -
  obtain cb where cb: "currentBuffer s = Some cb" "large_ok cb"
    using assms(1) by (auto simp: al_ok_def)
  show ?thesis
  proof (cases "fb_valid largeBufferSize (length d) cb")
    case True
    then have "contents (fb_append largeBufferSize d cb) = contents cb @ d" "accepts d = d"
      using cb(2) by (auto simp: fb.buffer_laws accepts_def)
    with True cb assms(1) show ?thesis
      by (auto simp: al_append_def al_ok_def pending_def fb.ok_app split: option.splits)
  next
    case False
    define nb where "nb = (case nextBuffer s of Some b \<Rightarrow> b | None \<Rightarrow> new_fixbuf raw)"
    have nb: "large_ok nb" "contents nb = []"
      using assms by (auto simp: nb_def al_ok_def split: option.splits)
    have "al_append raw d s = Some (s\<lparr>buffers := buffers s @ [cb], nextBuffer := None,
        currentBuffer := Some (fb_append largeBufferSize d nb)\<rparr>)"
      using False cb by (cases "nextBuffer s") (auto simp: al_append_def nb_def)
    with cb nb assms(1) show ?thesis
      by (auto simp: al_ok_def pending_def fb.ok_app contents_append_fresh)
  qed
qed

lemma refill_Some [simp]: "refill (Some b) v = Some (Some b, v)"
  by (simp add: refill_def)

lemma refill_None:
  "v \<noteq> [] \<Longrightarrow> list_all large_ok v \<Longrightarrow>
     \<exists>b. refill None v = Some (Some b, butlast v) \<and> large_ok b \<and> contents b = []"
  using last_in_set [of v] by (auto simp: refill_def list_all_iff)

text \<open>The bookkeeping of a round: after the swap there is a buffer for every empty slot.\<close>

lemma round_buffers:
  assumes "al_ok s" and cb: "currentBuffer s = Some cb"
  defines "w \<equiv> buffers s @ [cb]"
  defines "kept \<equiv> keep2 w"
  defines "nb2' \<equiv> (if nextBuffer s = None then None else newBuffer2 s)"
  shows "\<exists>b1 b2 kept2. refill None kept = Some (Some b1, butlast kept) \<and>
    refill nb2' (butlast kept) = Some (Some b2, kept2) \<and>
    large_ok b1 \<and> contents b1 = [] \<and> large_ok b2 \<and> contents b2 = []"
proof -
  have w: "list_all large_ok w" using assms(1,2) by (auto simp: al_ok_def w_def)
  then have k: "kept \<noteq> []" "list_all large_ok kept" "list_all large_ok (butlast kept)"
    by (auto simp: kept_def keep2_def w_def list_all_iff dest: in_set_takeD in_set_butlastD)
  obtain b1 where b1: "refill None kept = Some (Some b1, butlast kept)" "large_ok b1" "contents b1 = []"
    using refill_None [OF k(1,2)] by blast
  show ?thesis
  proof (cases "nextBuffer s")
    case None
    then have "2 \<le> length w" using assms(1) by (cases "buffers s") (auto simp: al_ok_def w_def)
    then have "length kept = 2" by (simp add: kept_def keep2_def)
    then have "butlast kept \<noteq> []" by (metis length_butlast list.size(3) diff_is_0_eq one_le_numeral
          numeral_le_one_iff semiring_norm(69))
    with b1 None refill_None [OF _ k(3)] show ?thesis by (auto simp: nb2'_def)
  next
    case (Some nb)
    with b1 assms(1) show ?thesis by (auto simp: nb2'_def al_ok_def)
  qed
qed


text \<open>A round writes everything that was pending, in order, and leaves nothing behind.\<close>

context log_sink begin

lemma al_round_ok:
  assumes "al_ok s" "ok (logOut s)"
  shows "\<exists>t. al_round put flush s = Some t \<and> al_ok t \<and> ok (logOut t) \<and> pending t = [] \<and>
    out (logOut t) = out (logOut s) @ pending s \<and> history t = history s \<and>
    pc t = pc s \<and> running t = running s"
proof -
  obtain cb where cb: "currentBuffer s = Some cb" "large_ok cb"
    using assms(1) by (auto simp: al_ok_def)
  obtain n1 n2 where n: "newBuffer1 s = Some n1" "newBuffer2 s = Some n2"
      "large_ok n1" "contents n1 = []" "large_ok n2" "contents n2 = []"
    using assms(1) by (auto simp: al_ok_def)
  let ?w = "buffers s @ [cb]"
  let ?kept = "keep2 ?w"
  let ?nb2 = "if nextBuffer s = None then None else newBuffer2 s"
  obtain b1 b2 kept2 where b: "refill None ?kept = Some (Some b1, butlast ?kept)"
      "refill ?nb2 (butlast ?kept) = Some (Some b2, kept2)"
      "large_ok b1" "contents b1 = []" "large_ok b2" "contents b2 = []"
    using round_buffers [OF assms(1) cb(1)] by blast
  obtain o1 where o1: "fold_opt put (map contents ?w) (logOut s) = Some o1" "ok o1"
      "out o1 = out (logOut s) @ concat (map contents ?w)"
    using put_all [OF assms(2)] by blast
  obtain o2 where o2: "flush o1 = Some o2" "ok o2" "out o2 = out o1"
    using flush_ok [OF o1(2)] by blast
  let ?t = "s\<lparr>buffers := [], currentBuffer := Some n1,
    nextBuffer := (if nextBuffer s = None then Some n2 else nextBuffer s),
    newBuffer1 := Some b1, newBuffer2 := Some b2, logOut := o2\<rparr>"
  have "al_round put flush s = Some ?t"
    using cb n b o1 o2 by (cases "nextBuffer s") (simp_all add: al_round_def Let_def)
  moreover have "al_ok ?t"
    using n b assms(1) by (auto simp: al_ok_def split: option.splits)
  ultimately show ?thesis
    using n o1 o2 cb by (auto simp: pending_def)
qed

lemma al_exit_ok:
  assumes "ok (logOut s)"
  shows "\<exists>t. al_exit flush s = Some t \<and> ok (logOut t) \<and> out (logOut t) = out (logOut s) \<and>
    pc t = Exited \<and> al_ok t = al_ok s \<and> pending t = pending s \<and> history t = history s"
  using flush_ok [OF assms] by (auto simp: al_exit_def al_ok_def pending_def)

end

lemma al_fields [simp]:
  "al_ok (s\<lparr>pc := p\<rparr>) = al_ok s" "al_ok (s\<lparr>history := h\<rparr>) = al_ok s"
  "al_ok (s\<lparr>running := r\<rparr>) = al_ok s"
  "pending (s\<lparr>pc := p\<rparr>) = pending s" "pending (s\<lparr>history := h\<rparr>) = pending s"
  "pending (s\<lparr>running := r\<rparr>) = pending s"
  by (simp_all add: al_ok_def pending_def)

subsection \<open>The invariant of the logging thread and its front ends\<close>

text \<open>
  \<open>log_inv\<close>: the buffers are in order, the sink is well, and what the sink has taken
  beyond its first content \<open>base\<close>, followed by what is still in the buffers, is the history.
\<close>

definition log_inv ::
  "('o \<Rightarrow> bytes) \<Rightarrow> ('o \<Rightarrow> bool) \<Rightarrow> bytes \<Rightarrow> 'o asynclog \<Rightarrow> bool" where
  "log_inv out ok base s \<longleftrightarrow> al_ok s \<and> ok (logOut s) \<and>
     out (logOut s) @ pending s = base @ history s"

context log_sink begin

lemma log_inv_init:
  "length raw = largeBufferSize \<Longrightarrow> ok o0 \<Longrightarrow> log_init raw o0 s \<Longrightarrow> log_inv out ok (out o0) s"
  by (simp add: log_init_def log_inv_def AsyncLogging_def al_ok_def pending_def)

lemma log_inv_step:
  assumes "log_step put flush s t" "log_inv out ok base s"
  shows "log_inv out ok base t"
  using assms
proof cases
  case (append_step raw data t')
  with assms(2) al_append_ok [of s raw data] show ?thesis
    by (auto simp: log_inv_def)
next
  case test_step
  with assms(2) show ?thesis by (simp add: log_inv_def)
next
  case (round_step t')
  with assms(2) al_round_ok [of s] show ?thesis by (auto simp: log_inv_def)
next
  case exit_step
  with assms(2) al_exit_ok [of s] show ?thesis by (auto simp: log_inv_def)
next
  case stop_step
  with assms(2) show ?thesis by (simp add: log_inv_def al_stop_def)
qed

text \<open>No operation of either side can fail in a state that satisfies the invariant.\<close>

lemma log_inv_progress:
  assumes "log_inv out ok base s"
  shows "length raw = largeBufferSize \<Longrightarrow> al_append raw d s \<noteq> None"
    and "al_round put flush s \<noteq> None" and "al_exit flush s \<noteq> None"
  using assms al_append_ok [of s raw d] al_round_ok [of s] al_exit_ok [of s]
  by (auto simp: log_inv_def)

lemma exited_stable:
  "(log_step put flush)\<^sup>*\<^sup>* s t \<Longrightarrow> pc s = Exited \<Longrightarrow> pc t = Exited \<and> logOut t = logOut s"
proof (induction rule: rtranclp_induct)
  case (step t u)
  from step.hyps(2) step.IH [OF step.prems] show ?case
  proof cases
    case (append_step raw data t')
    then have "logOut t' = logOut t \<and> pc t' = pc t"
      by (auto simp: al_append_def Let_def opt_simps split: if_splits option.splits)
    with append_step step.IH [OF step.prems] show ?thesis by simp
  qed (auto simp: al_stop_def)
qed simp

end

subsection \<open>The asynchronous log on its LogFile\<close>

text \<open>
  The instance the program runs: \<open>put\<close> and \<open>flush\<close> are \<open>LogFile::append\<close> and
  \<open>LogFile::flush\<close>. The state is well when the machine is healthy and the file is.
\<close>

abbreviation file_log_step :: "'f logenv \<Rightarrow> 'f logfile asynclog \<Rightarrow> 'f logfile asynclog \<Rightarrow> bool" where
  "file_log_step E \<equiv> log_step (LogFile_append E) (LogFile_flush E)"

definition started :: "'f logenv \<Rightarrow> bytes \<Rightarrow> 'f logfile asynclog \<Rightarrow> bool" where
  "started E raw s \<longleftrightarrow> (\<exists>k base roll l. LogFile E k base roll 3 1024 = Some l \<and> log_init raw l s)"

definition file_log_inv :: "'f logenv \<Rightarrow> ('f \<Rightarrow> bytes) \<Rightarrow> bytes \<Rightarrow> 'f logfile asynclog \<Rightarrow> bool" where
  "file_log_inv E accepted raw s \<longleftrightarrow>
     (healthy E accepted \<and> length raw = largeBufferSize \<longrightarrow> log_inv (logged accepted) (\<lambda>l. healthy E accepted \<and> lf_ok E l) [] s)"

interpretation al: invariant_system "started E raw" "file_log_step E" "file_log_inv E accepted raw"
  for E accepted raw
proof
  fix s
  assume "started E raw s"
  then show "file_log_inv E accepted raw s"
    unfolding started_def file_log_inv_def
  proof (intro impI, elim exE conjE)
    fix k base roll l
    assume l: "LogFile E k base roll 3 1024 = Some l" and s: "log_init raw l s"
      and E: "healthy E accepted" and raw: "length raw = largeBufferSize"
    obtain l' where "LogFile E k base roll 3 1024 = Some l'" "lf_ok E l'" "logged accepted l' = []"
      using LogFile_ctor_ok [OF E] by blast
    with l have "healthy E accepted \<and> lf_ok E l" "logged accepted l = []" using E by simp_all
    with lf.log_inv_init [OF raw _ s, of E accepted]
    show "log_inv (logged accepted) (\<lambda>l. healthy E accepted \<and> lf_ok E l) [] s" by simp
  qed
next
  fix s t
  assume "file_log_step E s t" "file_log_inv E accepted raw s"
  then show "file_log_inv E accepted raw t"
    unfolding file_log_inv_def using lf.log_inv_step by blast
qed

lemma reach_log_inv:
  assumes "healthy E accepted" "length raw = largeBufferSize" "reach (started E raw) (file_log_step E) s"
  shows "log_inv (logged accepted) (\<lambda>l. healthy E accepted \<and> lf_ok E l) [] s"
  using al.reach_inv [OF assms(3), of accepted] assms(1,2) by (simp add: file_log_inv_def)


subsection \<open>A concrete run\<close>

text \<open>For the witnesses: one line appended on a machine with an unbounded disk.\<close>

definition demo_env :: "(bytes \<times> int) logenv" where
  "demo_env = big_disk (\<lambda>k. int k + 1)"

definition demo_raw :: bytes where
  "demo_raw = replicate largeBufferSize NUL"

lemma demo_ok: "healthy demo_env fst" "length demo_raw = largeBufferSize"
  unfolding demo_env_def demo_raw_def by (rule healthy_big_disk) (simp_all add: mono_def)

lemma accepts_x [simp]: "accepts ''x'' = ''x''"
  by (simp add: accepts_def largeBufferSize_def)

lemma demo_append:
  "\<exists>s. reach (started demo_env demo_raw) (file_log_step demo_env) s \<and> pc s = AtTest \<and> running s \<and>
     history s = ''x'' \<and> pending s = ''x'' \<and> logged fst (logOut s) = []"
proof -
  obtain l where l: "LogFile demo_env 0 ''log'' 1000 3 1024 = Some l" "logged fst l = []"
    using LogFile_ctor_ok [OF demo_ok(1)] by blast
  let ?s0 = "AsyncLogging demo_raw l"
  have r0: "reach (started demo_env demo_raw) (file_log_step demo_env) ?s0"
    using l by (intro reach.reach_init) (auto simp: started_def log_init_def)
  have "al_ok ?s0" "pending ?s0 = []"
    using demo_ok(2) by (auto simp: AsyncLogging_def al_ok_def pending_def)
  then obtain t where t: "al_append demo_raw ''x'' ?s0 = Some t" "pending t = ''x''"
      "logOut t = l" "history t = []" "pc t = AtTest" "running t"
    using al_append_ok [of ?s0 demo_raw "''x''"] demo_ok(2) by (auto simp: AsyncLogging_def)
  have "file_log_step demo_env ?s0 (t\<lparr>history := history t @ accepts ''x''\<rparr>)"
    using t(1) demo_ok(2) by (rule log_step.append_step [rotated])
  from reach.reach_step [OF r0 this] show ?thesis
    using t l by (intro exI [of _ "t\<lparr>history := history t @ accepts ''x''\<rparr>"]) simp
qed

subsection \<open>Properties\<close>

text \<open>
  C30 (no null buffer, no empty \<open>back()\<close>). In every state the front ends and the logging
  thread can reach, in any interleaving and on a healthy machine, an append finds a current
  buffer, a round of the thread finds a buffer to take back for each slot it emptied, and
  none of the operations fails.
\<close>

theorem async_log_never_fails:
  assumes "healthy E accepted" and "length raw = largeBufferSize"
    and "reach (started E raw) (file_log_step E) s"
  shows "al_append raw d s \<noteq> None \<and> al_round (LogFile_append E) (LogFile_flush E) s \<noteq> None \<and>
    al_exit (LogFile_flush E) s \<noteq> None"
  using lf.log_inv_progress [OF reach_log_inv [OF assms]] assms(2) by simp

theorem async_log_never_fails_witness:
  "\<exists>s. history s = ''x'' \<and> al_round (LogFile_append demo_env) (LogFile_flush demo_env) s \<noteq> None"
proof -
  obtain s where s: "reach (started demo_env demo_raw) (file_log_step demo_env) s" "history s = ''x''"
    using demo_append by blast
  from async_log_never_fails [OF demo_ok s(1)] s(2) show ?thesis by blast
qed

text \<open>
  C21 (conservation of the log). On a healthy machine (no \<open>fwrite\<close> is cut short, every \<open>fopen\<close>
  succeeds, the clock does not run backwards): in every reachable state, the bytes in the log
  files, followed by the full buffers in order and the current buffer, are exactly the messages
  accepted so far, in the order of their appends. None is lost, repeated or reordered between
  the front ends and the thread, whatever buffers were swapped or reused. A short \<open>fwrite\<close>
  does lose bytes (\<open>FileUtil_append_effect\<close>).
\<close>

theorem async_log_conserves:
  assumes "healthy E accepted" and "length raw = largeBufferSize"
    and "reach (started E raw) (file_log_step E) s"
  shows "logged accepted (logOut s) @ pending s = history s"
  using reach_log_inv [OF assms] by (simp add: log_inv_def)

theorem async_log_conserves_witness:
  "\<exists>s :: (bytes \<times> int) logfile asynclog. logged fst (logOut s) @ pending s = ''x'' \<and> history s = ''x''"
proof -
  obtain s where s: "reach (started demo_env demo_raw) (file_log_step demo_env) s" "history s = ''x''"
    using demo_append by blast
  from async_log_conserves [OF demo_ok s(1)] s(2) show ?thesis by metis
qed

text \<open>
  A round writes everything. After any round of the logging thread the files hold all
  messages accepted up to the round, and the buffers are empty.
\<close>

lemma async_round_drains:
  assumes "healthy E accepted" and "length raw = largeBufferSize"
    and "reach (started E raw) (file_log_step E) s"
    and "al_round (LogFile_append E) (LogFile_flush E) s = Some t"
  shows "logged accepted (logOut t) = history s \<and> pending t = []"
proof -
  have "log_inv (logged accepted) (\<lambda>l. healthy E accepted \<and> lf_ok E l) [] s"
    by (rule reach_log_inv [OF assms(1-3)])
  then show ?thesis
    using lf.al_round_ok [of s E accepted] assms(4) by (auto simp: log_inv_def)
qed

lemma async_round_drains_witness:
  "\<exists>s t. al_round (LogFile_append demo_env) (LogFile_flush demo_env) s = Some t \<and>
     logged fst (logOut t) = ''x''"
proof -
  obtain s where s: "reach (started demo_env demo_raw) (file_log_step demo_env) s" "history s = ''x''"
    using demo_append by blast
  then obtain t where "al_round (LogFile_append demo_env) (LogFile_flush demo_env) s = Some t"
    using lf.log_inv_progress(2) [OF reach_log_inv [OF demo_ok s(1)]] by blast
  with async_round_drains [OF demo_ok s(1) this] s(2) show ?thesis by auto
qed

text \<open>
  What is still buffered when the thread ends is not written. Once the logging thread
  has left its loop, no later step changes the files: whatever was in the buffers then, and
  whatever is appended afterwards, stays out of them. The flush after the loop writes the
  stream of the file only.
\<close>

lemma async_exit_leaves_buffers:
  assumes "healthy E accepted" and "length raw = largeBufferSize"
    and "reach (started E raw) (file_log_step E) s" and "pc s = Exited"
    and "(file_log_step E)\<^sup>*\<^sup>* s t"
  shows "pc t = Exited \<and> logged accepted (logOut t) = logged accepted (logOut s) \<and>
    logged accepted (logOut s) @ pending t = history t"
proof -
  have t: "pc t = Exited \<and> logOut t = logOut s" by (rule lf.exited_stable [OF assms(5,4)])
  have "reach (started E raw) (file_log_step E) t" by (rule reach_run [OF assms(3,5)])
  from reach_log_inv [OF assms(1,2) this] t show ?thesis by (simp add: log_inv_def)
qed

lemma demo_exit:
  "\<exists>s. reach (started demo_env demo_raw) (file_log_step demo_env) s \<and> pc s = Exited \<and>
     history s = ''x'' \<and> logged fst (logOut s) = []"
proof -
  obtain s where s: "reach (started demo_env demo_raw) (file_log_step demo_env) s" "pc s = AtTest"
      "history s = ''x''" "logged fst (logOut s) = []"
    using demo_append by blast
  have r1: "reach (started demo_env demo_raw) (file_log_step demo_env) (al_stop s)"
    using s(1) by (rule reach.reach_step) (rule log_step.stop_step)
  obtain t where t: "al_exit (LogFile_flush demo_env) (al_stop s) = Some t"
      "logged fst (logOut t) = logged fst (logOut (al_stop s))" "pc t = Exited"
      "history t = history (al_stop s)"
    using lf.al_exit_ok [of demo_env fst "al_stop s"] reach_log_inv [OF demo_ok r1]
    by (auto simp: log_inv_def)
  have "file_log_step demo_env (al_stop s) t"
    using t(1) s(2) by (intro log_step.exit_step) (simp_all add: al_stop_def)
  from reach.reach_step [OF r1 this] show ?thesis using t s by (auto simp: al_stop_def)
qed

lemma async_exit_leaves_buffers_witness:
  "\<exists>s :: (bytes \<times> int) logfile asynclog.
     pc s = Exited \<and> logged fst (logOut s) = [] \<and> pending s = ''x'' \<and> history s = ''x''"
proof -
  obtain s where s: "reach (started demo_env demo_raw) (file_log_step demo_env) s" "pc s = Exited"
      "history s = ''x''" "logged fst (logOut s) = []"
    using demo_exit by blast
  from async_exit_leaves_buffers [OF demo_ok s(1,2) rtranclp.rtrancl_refl] s
  show ?thesis by auto
qed

end
