(* ===== verification/LogPipeline.thy ===== *)
theory LogPipeline
  imports Loggers AsyncLog
begin

text \<open>
  The way of a log line through the program: \<open>Logger\<close> hands it to \<open>g_output\<close>, which is
  \<open>defaultOutput\<close> (standard output) until \<open>main\<close> sets it to \<open>asyncLog\<close>; that appends it to the
  global \<open>AsyncLogging\<close>, whose thread writes it to the log files (log/Logger.cc, src/main.cc).

  \<open>logworld\<close> is what the output functions act on: the bytes printed, those of them flushed out
  of the stream's buffer, the object \<open>g_asyncLog\<close> points to, and whether \<open>abort()\<close> was called.
  The main part compares the two ways: asynchronous logging is equivalent to the synchronous
  one, except when the process aborts.
\<close>

subsection \<open>Output functions\<close>

record 'f logworld =
  console :: bytes
  stdoutBuf :: bytes
  g_asyncLog :: "'f logfile asynclog option"
  aborted :: bool

definition no_output :: "'f logworld" where
  "no_output = \<lparr>console = [], stdoutBuf = [], g_asyncLog = None, aborted = False\<rparr>"

lemma no_output_sel [simp]:
  "console no_output = []" "stdoutBuf no_output = []" "g_asyncLog no_output = None" "\<not> aborted no_output"
  by (simp_all add: no_output_def)

record 'f log_hooks =
  g_output :: "bytes \<Rightarrow> 'f logworld \<Rightarrow> 'f logworld option"
  g_flush :: "'f logworld \<Rightarrow> 'f logworld option"

definition defaultOutput :: "bytes \<Rightarrow> 'f logworld \<Rightarrow> 'f logworld option" where
  "defaultOutput data w = Some (w\<lparr>stdoutBuf := stdoutBuf w @ data\<rparr>)"

definition defaultFlush :: "'f logworld \<Rightarrow> 'f logworld option" where
  "defaultFlush w = Some (w\<lparr>console := console w @ stdoutBuf w, stdoutBuf := []\<rparr>)"

definition default_hooks :: "'f log_hooks" where
  "default_hooks = \<lparr>g_output = defaultOutput, g_flush = defaultFlush\<rparr>"

definition setOutput :: "(bytes \<Rightarrow> 'f logworld \<Rightarrow> 'f logworld option) \<Rightarrow> 'f log_hooks \<Rightarrow> 'f log_hooks" where
  "setOutput out h = h\<lparr>g_output := out\<rparr>"

definition setFlush :: "('f logworld \<Rightarrow> 'f logworld option) \<Rightarrow> 'f log_hooks \<Rightarrow> 'f log_hooks" where
  "setFlush flush h = h\<lparr>g_flush := flush\<rparr>"

text \<open>The effects of a destroyed \<open>Logger\<close>; nothing happens after \<open>abort()\<close>.\<close>

fun run_effect :: "'f log_hooks \<Rightarrow> log_effect \<Rightarrow> 'f logworld \<Rightarrow> 'f logworld option" where
  "run_effect h (GOutput msg) w = (if aborted w then Some w else g_output h msg w)"
| "run_effect h GFlush w = (if aborted w then Some w else g_flush h w)"
| "run_effect h Abort w = Some (w\<lparr>aborted := True\<rparr>)"

definition emit :: "'f log_hooks \<Rightarrow> log_effect list \<Rightarrow> 'f logworld \<Rightarrow> 'f logworld option" where
  "emit h effs w = fold_opt (run_effect h) effs w"

text \<open>\<open>asyncLog\<close>; the ghost \<open>history\<close> of the log notes what is accepted.\<close>

definition asyncLog :: "bytes \<Rightarrow> bytes \<Rightarrow> 'f logworld \<Rightarrow> 'f logworld option" where
  "asyncLog raw data w =
     (case g_asyncLog w of
        None \<Rightarrow> Some w
      | Some logging \<Rightarrow> do {
          s \<leftarrow> al_append raw data logging;
          Some (w\<lparr>g_asyncLog := Some (s\<lparr>history := history s @ accepts data\<rparr>)\<rparr>)
        })"

definition main_hooks :: "bytes \<Rightarrow> 'f log_hooks" where
  "main_hooks raw = setOutput (asyncLog raw) default_hooks"

definition RollSize :: int where
  "RollSize = 1 * 1024 * 1024"

text \<open>The logging part of \<open>main\<close>; \<open>libgen_basename\<close> is the function of the C library.\<close>

definition main_log ::
  "'f logenv \<Rightarrow> nat \<Rightarrow> (string \<Rightarrow> string) \<Rightarrow> string \<Rightarrow> bytes \<Rightarrow> 'f logworld \<Rightarrow> 'f logworld option" where
  "main_log E k libgen_basename argv0 raw w = do {
     l \<leftarrow> LogFile E k (''logs'' @ ''/'' @ libgen_basename argv0) RollSize 3 1024;
     Some (w\<lparr>g_asyncLog := Some (AsyncLogging raw l)\<rparr>)
   }"

text \<open>The destructor of \<open>AsyncLogging\<close>.\<close>

definition AsyncLogging_dtor :: "'o asynclog \<Rightarrow> 'o asynclog" where
  "AsyncLogging_dtor s = (if running s then al_stop s else s)"


subsection \<open>Log statements while the logging thread runs\<close>

definition thread_step :: "'f logenv \<Rightarrow> 'f logfile asynclog \<Rightarrow> 'f logfile asynclog \<Rightarrow> bool" where
  "thread_step E s t \<longleftrightarrow> pc s = AtTest \<and> running s \<and> t = s\<lparr>pc := InRound\<rparr> \<or>
     pc s = InRound \<and> (\<exists>u. al_round (LogFile_append E) (LogFile_flush E) s = Some u \<and> t = u\<lparr>pc := AtTest\<rparr>)"

text \<open>
  \<open>log_run h E es w w'\<close>: the effects \<open>es\<close> of log statements take place, from whatever threads, in
  this order, and steps of the logging thread come in between them anywhere, until \<open>abort()\<close>.
\<close>

inductive log_run ::
  "'f log_hooks \<Rightarrow> 'f logenv \<Rightarrow> log_effect list \<Rightarrow> 'f logworld \<Rightarrow> 'f logworld \<Rightarrow> bool" for h E where
  run_end: "log_run h E [] w w"
| run_line: "run_effect h e w = Some v \<Longrightarrow> log_run h E es v u \<Longrightarrow> log_run h E (e # es) w u"
| run_thread: "g_asyncLog w = Some s \<Longrightarrow> \<not> aborted w \<Longrightarrow> thread_step E s t \<Longrightarrow>
    log_run h E es (w\<lparr>g_asyncLog := Some t\<rparr>) u \<Longrightarrow> log_run h E es w u"

text \<open>A log on a healthy machine, and the text that is in it, written or not.\<close>

definition log_well :: "'f logenv \<Rightarrow> ('f \<Rightarrow> bytes) \<Rightarrow> 'f logfile asynclog \<Rightarrow> bool" where
  "log_well E accepted s \<longleftrightarrow>
     log_inv (logged accepted) (\<lambda>l. healthy E accepted \<and> lf_ok E l) [] s"

definition log_text :: "('f \<Rightarrow> bytes) \<Rightarrow> 'f logfile asynclog \<Rightarrow> bytes" where
  "log_text accepted s = logged accepted (logOut s) @ pending s"

lemma log_text_history: "log_well E accepted s \<Longrightarrow> log_text accepted s = history s"
  by (simp add: log_well_def log_inv_def log_text_def)

lemma thread_step_log:
  "thread_step E s t \<Longrightarrow> file_log_step E s t"
  unfolding thread_step_def by (auto intro: log_step.intros)

lemma thread_step_well:
  assumes "thread_step E s t" "log_well E accepted s"
  shows "log_well E accepted t \<and> log_text accepted t = log_text accepted s"
proof -
  have t: "log_well E accepted t"
    using lf.log_inv_step [OF thread_step_log [OF assms(1)]] assms(2) by (simp add: log_well_def)
  have "history t = history s"
    using assms lf.al_round_ok [of s E accepted] by (auto simp: thread_step_def log_well_def log_inv_def)
  then show ?thesis using t assms(2) log_text_history by metis
qed

lemma asyncLog_well:
  assumes "g_asyncLog w = Some s" "log_well E accepted s" "length raw = largeBufferSize"
  shows "\<exists>t. asyncLog raw d w = Some (w\<lparr>g_asyncLog := Some t\<rparr>) \<and> log_well E accepted t \<and>
    log_text accepted t = log_text accepted s @ accepts d \<and> logOut t = logOut s"
proof -
  obtain u where u: "al_append raw d s = Some u" "logOut u = logOut s" "history u = history s"
    using al_append_ok [of s raw d] assms(2,3) by (auto simp: log_well_def log_inv_def)
  have "log_well E accepted (u\<lparr>history := history u @ accepts d\<rparr>)"
    using lf.log_inv_step [OF log_step.append_step [OF assms(3) u(1)]] assms(2)
    by (simp add: log_well_def)
  moreover from log_text_history [OF this] log_text_history [OF assms(2)]
  have "log_text accepted (u\<lparr>history := history u @ accepts d\<rparr>) = log_text accepted s @ accepts d"
    by (simp add: u(3))
  ultimately show ?thesis using u assms(1)
    by (intro exI [of _ "u\<lparr>history := history u @ accepts d\<rparr>"]) (simp add: asyncLog_def)
qed


subsection \<open>Asynchronous and synchronous logging agree\<close>

text \<open>The two worlds hold the same text, and stop alike.\<close>

definition same_text :: "'f logenv \<Rightarrow> ('f \<Rightarrow> bytes) \<Rightarrow> 'f logworld \<Rightarrow> 'f logworld \<Rightarrow> bool" where
  "same_text E accepted w v \<longleftrightarrow> aborted w = aborted v \<and>
     (\<exists>s. g_asyncLog w = Some s \<and> log_well E accepted s \<and> log_text accepted s = console v @ stdoutBuf v)"

fun short_output :: "log_effect \<Rightarrow> bool" where
  "short_output (GOutput msg) \<longleftrightarrow> length msg < largeBufferSize"
| "short_output _ \<longleftrightarrow> True"

lemma main_hooks_sel [simp]: "g_output (main_hooks raw) = asyncLog raw" "g_flush (main_hooks raw) = defaultFlush"
  by (simp_all add: main_hooks_def setOutput_def default_hooks_def)

lemma default_hooks_sel [simp]: "g_output default_hooks = defaultOutput" "g_flush default_hooks = defaultFlush"
  by (simp_all add: default_hooks_def)

lemma effect_same:
  assumes "same_text E accepted w v" "short_output e" "length raw = largeBufferSize"
  shows "\<exists>w' v'. run_effect (main_hooks raw) e w = Some w' \<and> run_effect default_hooks e v = Some v' \<and>
    same_text E accepted w' v'"
proof (cases e)
  case (GOutput msg)
  obtain s where s: "g_asyncLog w = Some s" "log_well E accepted s" "aborted w = aborted v"
    "log_text accepted s = console v @ stdoutBuf v"
    using assms(1) by (auto simp: same_text_def)
  obtain t where "asyncLog raw msg w = Some (w\<lparr>g_asyncLog := Some t\<rparr>)" "log_well E accepted t"
    "log_text accepted t = log_text accepted s @ accepts msg"
    using asyncLog_well [OF s(1,2) assms(3), of msg] by blast
  then show ?thesis
    using GOutput assms(1,2) s by (simp add: same_text_def defaultOutput_def accepts_def)
qed (use assms(1) in \<open>auto simp: same_text_def defaultFlush_def\<close>)

lemma run_same:
  assumes "log_run (main_hooks raw) E es w u" "same_text E accepted w v" "list_all short_output es"
    and "length raw = largeBufferSize"
  shows "\<exists>v'. emit default_hooks es v = Some v' \<and> same_text E accepted u v'"
  using assms(1-3)
proof (induction arbitrary: v)
  case (run_end w)
  then show ?case by (simp add: emit_def)
next
  case (run_line e w w' es u)
  obtain v' where v': "run_effect default_hooks e v = Some v'" "same_text E accepted w' v'"
    using effect_same [OF run_line.prems(1) _ assms(4), of e] run_line by auto
  show ?case using run_line.IH [OF v'(2)] run_line.prems(2) v'(1) by (simp add: emit_def)
next
  case (run_thread w s t es u)
  have "log_well E accepted s" "log_text accepted s = console v @ stdoutBuf v"
    using run_thread.prems(1) run_thread.hyps(1) by (auto simp: same_text_def)
  then have "same_text E accepted (w\<lparr>g_asyncLog := Some t\<rparr>) v"
    using thread_step_well [OF run_thread.hyps(3)] run_thread.prems(1) by (auto simp: same_text_def)
  then show ?case using run_thread.IH run_thread.prems(2) by blast
qed

lemma main_log_ok:
  assumes "healthy E accepted" "length raw = largeBufferSize"
  shows "\<exists>s. main_log E k bn argv0 raw w = Some (w\<lparr>g_asyncLog := Some s\<rparr>) \<and> log_well E accepted s \<and>
    log_text accepted s = [] \<and> pc s = AtTest \<and> running s"
proof -
  obtain l where l: "LogFile E k (''logs'' @ ''/'' @ bn argv0) RollSize 3 1024 = Some l" "lf_ok E l"
    "logged accepted l = []"
    using LogFile_ctor_ok [OF assms(1)] by blast
  have "log_well E accepted (AsyncLogging raw l)"
    using lf.log_inv_init [OF assms(2), of E accepted l] assms(1) l(2,3)
    by (simp add: log_well_def log_init_def)
  then show ?thesis using l log_text_history [of E accepted "AsyncLogging raw l"]
    by (intro exI [of _ "AsyncLogging raw l"]) (simp add: main_log_def AsyncLogging_def)
qed

text \<open>Every log statement of the library is short enough for the buffers.\<close>

lemma log_statement_short:
  assumes "length raw = 4096" "list_all arg_ok as" "\<bar>ln\<bar> < 2 ^ 31"
  shows "list_all short_output (log_statement lt ge us raw timer fileName ln lev as)"
proof -
  have "list_all arg_ok (line_args lt us timer fileName ln lev as)"
    using assms(2,3) by (simp add: line_args_def)
  then have "fb_ok lsSize (fold ls_put (line_args lt us timer fileName ln lev as) (new_fixbuf raw))"
    using assms(1) by (intro ls_put_all_ok) (simp_all add: smallBufferSize_def)
  from fb_bound [OF this]
  have "length (contents (fold ls_put (line_args lt us timer fileName ln lev as) (new_fixbuf raw))) < 4096"
    by (simp add: smallBufferSize_def)
  then show ?thesis by (simp add: log_statement_eq largeBufferSize_def)
qed

text \<open>
  C14 (asynchronous logging is equivalent to synchronous logging). Take the log that \<open>main\<close> sets
  up, on a healthy machine, and any sequence of effects of log statements from any threads,
  with the logging thread taking steps anywhere in between. What is in the log files and the
  buffers is, byte for byte, what the default output would have printed for the same statements;
  one more round of the logging thread returns, and after it all of that is in the files.
\<close>

theorem async_equals_sync:
  fixes E :: "'f logenv" and u :: "'f logworld"
  assumes "healthy E accepted" "length raw = largeBufferSize"
    and "main_log E k bn argv0 raw no_output = Some w"
    and "log_run (main_hooks raw) E es w u" "list_all short_output es"
  shows "\<exists>v s t. emit default_hooks es (no_output :: 'f logworld) = Some v \<and>
    g_asyncLog u = Some s \<and> aborted u = aborted v \<and>
    logged accepted (logOut s) @ pending s = console v @ stdoutBuf v \<and>
    al_round (LogFile_append E) (LogFile_flush E) s = Some t \<and>
    logged accepted (logOut t) = console v @ stdoutBuf v"
proof -
  define w0 :: "'f logworld" where "w0 = no_output"
  have "same_text E accepted w w0"
    using main_log_ok [OF assms(1,2), of k bn argv0 w0] assms(3) by (auto simp: w0_def same_text_def)
  from run_same [OF assms(4) this assms(5,2)]
  obtain v s where v: "emit default_hooks es w0 = Some v" "aborted u = aborted v" "g_asyncLog u = Some s"
    "log_well E accepted s" "log_text accepted s = console v @ stdoutBuf v"
    by (auto simp: same_text_def)
  moreover obtain t where "al_round (LogFile_append E) (LogFile_flush E) s = Some t"
    "logged accepted (logOut t) = logged accepted (logOut s) @ pending s"
    using lf.al_round_ok [of s E accepted] v(4) by (auto simp: log_well_def log_inv_def)
  ultimately show ?thesis unfolding w0_def log_text_def
    by (intro exI [of _ v] exI [of _ s] exI [of _ t]) simp
qed

lemma demo_log:
  "\<exists>w s. main_log demo_env 0 id ''echo'' demo_raw no_output = Some w \<and>
     g_asyncLog w = Some s \<and> log_well demo_env fst s \<and> \<not> aborted w \<and> logged fst (logOut s) = []"
proof -
  obtain s where "main_log demo_env 0 id ''echo'' demo_raw no_output = Some (no_output\<lparr>g_asyncLog := Some s\<rparr>)"
    "log_well demo_env fst s" "log_text fst s = []"
    using main_log_ok [OF demo_ok, of 0 id "''echo''" no_output] by blast
  then show ?thesis
    by (intro exI [of _ "no_output\<lparr>g_asyncLog := Some s\<rparr>"] exI [of _ s] conjI)
      (simp_all add: log_text_def run_end)
qed

theorem async_equals_sync_witness:
  "\<exists>u s t. log_run (main_hooks demo_raw) demo_env [GOutput ''up'', GOutput ''down'', GFlush] (fst u) (snd u) \<and>
     g_asyncLog (snd u) = Some s \<and> logged fst (logOut s) @ pending s = ''updown'' \<and>
     al_round (LogFile_append demo_env) (LogFile_flush demo_env) s = Some t \<and>
     logged fst (logOut t) = ''updown''"
proof -
  let ?w0 = "no_output :: (bytes \<times> int) logworld"
  let ?es = "[GOutput ''up'', GOutput ''down'', GFlush]"
  obtain w s where w: "main_log demo_env 0 id ''echo'' demo_raw ?w0 = Some w" "g_asyncLog w = Some s"
    "log_well demo_env fst s" "\<not> aborted w"
    using demo_log by blast
  obtain s1 where s1: "asyncLog demo_raw ''up'' w = Some (w\<lparr>g_asyncLog := Some s1\<rparr>)" "log_well demo_env fst s1"
    using asyncLog_well [OF w(2,3) demo_ok(2)] by blast
  obtain s2 where s2: "asyncLog demo_raw ''down'' (w\<lparr>g_asyncLog := Some s1\<rparr>) = Some (w\<lparr>g_asyncLog := Some s2\<rparr>)"
    using asyncLog_well [OF _ s1(2) demo_ok(2), of "w\<lparr>g_asyncLog := Some s1\<rparr>" "''down''"] by auto
  define u where "u = w\<lparr>g_asyncLog := Some s2, console := console w @ stdoutBuf w, stdoutBuf := []\<rparr>"
  have "log_run (main_hooks demo_raw) demo_env ?es w u"
    by (rule run_line [where v = "w\<lparr>g_asyncLog := Some s1\<rparr>"], simp add: s1(1) w(4),
        rule run_line [where v = "w\<lparr>g_asyncLog := Some s2\<rparr>"], simp add: s2 w(4),
        rule run_line [OF _ run_end]) (simp add: defaultFlush_def u_def w(4))
  moreover have "emit default_hooks ?es ?w0 =
      Some \<lparr>console = ''updown'', stdoutBuf = [], g_asyncLog = None, aborted = False\<rparr>"
    by (simp add: emit_def defaultOutput_def defaultFlush_def no_output_def)
  ultimately show ?thesis
    using async_equals_sync [OF demo_ok w(1), of ?es u] by (auto simp: largeBufferSize_def)
qed

text \<open>
  C16 (a FATAL line can be lost). \<open>main\<close> sets the output function but leaves \<open>g_flush\<close> at the
  default, which flushes standard output. So from any state of a healthy log, there is a run in which a FATAL
  statement appends its line to the buffers and aborts the process, and the log files are as
  before: the line that says why the process ended, and everything else still buffered, is not in them.
\<close>

theorem fatal_line_lost:
  assumes "g_asyncLog w = Some s" "log_well E accepted s" "\<not> aborted w" "length raw = largeBufferSize"
    and "length raw1 = 4096" "list_all arg_ok as" "\<bar>ln\<bar> < 2 ^ 31"
  shows "\<exists>u t msg. log_run (main_hooks raw) E (log_statement lt ge us raw1 timer fileName ln FATAL as) w u \<and>
    hd (log_statement lt ge us raw1 timer fileName ln FATAL as) = GOutput msg \<and>
    aborted u \<and> g_asyncLog u = Some t \<and> logged accepted (logOut t) = logged accepted (logOut s) \<and>
    pending t = pending s @ msg"
proof -
  obtain msg where m: "log_statement lt ge us raw1 timer fileName ln FATAL as = [GOutput msg, GFlush, Abort]"
    using log_statement_eq [of lt ge us raw1 timer fileName ln FATAL as] by simp
  have sh: "accepts msg = msg"
    using log_statement_short [OF assms(5-7), of lt ge us timer fileName FATAL] by (simp add: m accepts_def)
  obtain t where t: "asyncLog raw msg w = Some (w\<lparr>g_asyncLog := Some t\<rparr>)"
    "log_text accepted t = log_text accepted s @ msg" "logOut t = logOut s"
    using asyncLog_well [OF assms(1,2,4), of msg] sh by auto
  define v where "v = w\<lparr>g_asyncLog := Some t\<rparr>"
  define u where "u = v\<lparr>console := console v @ stdoutBuf v, stdoutBuf := [], aborted := True\<rparr>"
  have "log_run (main_hooks raw) E [GOutput msg, GFlush, Abort] w u"
  proof (rule run_line)
    show "run_effect (main_hooks raw) (GOutput msg) w = Some v" using t(1) assms(3) by (simp add: v_def)
    show "log_run (main_hooks raw) E [GFlush, Abort] v u"
      by (rule run_line [where v = "v\<lparr>console := console v @ stdoutBuf v, stdoutBuf := []\<rparr>"])
        (use assms(3) in \<open>auto simp: v_def u_def defaultFlush_def intro!: run_line run_end\<close>)
  qed
  moreover have "pending t = pending s @ msg" using t(2,3) by (simp add: log_text_def)
  ultimately show ?thesis using m t(3) by (intro exI [of _ u] exI [of _ t] exI [of _ msg]) (simp add: u_def v_def)
qed

theorem fatal_line_lost_witness:
  "\<exists>w u t. log_run (main_hooks demo_raw) demo_env
       (log_statement (\<lambda>s. epoch_tm) (\<lambda>e. []) 42 (replicate 4096 NUL) (replicate 64 NUL) ''a.cc'' 7 FATAL
         [LStr ''bad'']) w u \<and>
     aborted u \<and> g_asyncLog u = Some t \<and> logged fst (logOut t) = []"
proof -
  obtain w :: "(bytes \<times> int) logworld" and s where w: "g_asyncLog w = Some s" "log_well demo_env fst s" "\<not> aborted w"
    "logged fst (logOut s) = []"
    using demo_log by blast
  show ?thesis
    using fatal_line_lost [OF w(1-3) demo_ok(2), of "replicate 4096 NUL" "[LStr ''bad'']" 7
        "\<lambda>s. epoch_tm" "\<lambda>e. []" 42 "replicate 64 NUL" "''a.cc''"] w(4)
    by auto
qed

end
