(* ===== verification/Channels.thy ===== *)
theory Channels
  imports Prelude "HOL-Library.Word"
begin

unbundle bit_operations_syntax

text \<open>
  \<open>class Channel\<close> (include/Channel.h, src/Channel.cc) without its registration, which is in
  \<open>Pollers\<close>: the event masks and the dispatch of a returned event to the callbacks. A mask
  is a 32-bit word. A \<open>std::function\<close> member is an optional state transformer; a transformer
  returns \<open>None\<close> when the process ends inside it. The read callback gets the poll time.
\<close>

type_synonym evmask = "32 word"

definition EPOLLIN :: evmask where
  "EPOLLIN = 1"

definition EPOLLPRI :: evmask where
  "EPOLLPRI = 2"

definition EPOLLOUT :: evmask where
  "EPOLLOUT = 4"

definition EPOLLERR :: evmask where
  "EPOLLERR = 8"

definition EPOLLHUP :: evmask where
  "EPOLLHUP = 16"

lemmas epoll_bits = EPOLLIN_def EPOLLPRI_def EPOLLOUT_def EPOLLERR_def EPOLLHUP_def

definition NoneEvent :: evmask where
  "NoneEvent = 0"

definition ReadEvent :: evmask where
  "ReadEvent = EPOLLIN OR EPOLLPRI"

definition WriteEvent :: evmask where
  "WriteEvent = EPOLLOUT"

lemmas channel_masks = NoneEvent_def ReadEvent_def WriteEvent_def epoll_bits

record channel =
  chFd :: fd
  events :: evmask
  revents :: evmask
  chIndex :: int
  tied :: bool

definition Channel :: "fd \<Rightarrow> channel" where
  "Channel fd = \<lparr>chFd = fd, events = 0, revents = 0, chIndex = -1, tied = False\<rparr>"

definition isNoneEvent :: "channel \<Rightarrow> bool" where
  "isNoneEvent c \<longleftrightarrow> events c = NoneEvent"

definition isWriting :: "channel \<Rightarrow> bool" where
  "isWriting c \<longleftrightarrow> events c AND WriteEvent \<noteq> 0"

definition isReading :: "channel \<Rightarrow> bool" where
  "isReading c \<longleftrightarrow> events c AND ReadEvent \<noteq> 0"

definition save_revents :: "evmask \<Rightarrow> channel \<Rightarrow> channel" where
  "save_revents r c = c\<lparr>revents := r\<rparr>"

definition set_index :: "int \<Rightarrow> channel \<Rightarrow> channel" where
  "set_index i c = c\<lparr>chIndex := i\<rparr>"

definition tie :: "channel \<Rightarrow> channel" where
  "tie c = c\<lparr>tied := True\<rparr>"

subsection \<open>Dispatch of a returned event\<close>

record 's callbacks =
  readCallback :: "(int \<Rightarrow> 's \<Rightarrow> 's option) option"
  writeCallback :: "('s \<Rightarrow> 's option) option"
  closeCallback :: "('s \<Rightarrow> 's option) option"
  errorCallback :: "('s \<Rightarrow> 's option) option"

text \<open>\<open>if(cb) cb();\<close> for a \<open>std::function\<close> that may be empty.\<close>

definition call :: "('s \<Rightarrow> 's option) option \<Rightarrow> 's \<Rightarrow> 's option" where
  "call cb s = (case cb of None \<Rightarrow> Some s | Some f \<Rightarrow> f s)"

definition handleEventWithGuard :: "'s callbacks \<Rightarrow> evmask \<Rightarrow> int \<Rightarrow> 's \<Rightarrow> 's option" where
  "handleEventWithGuard cb rv receiveTime s = do {
     s1 \<leftarrow> (if rv AND EPOLLHUP \<noteq> 0 \<and> \<not> (rv AND ReadEvent \<noteq> 0)
           then call (closeCallback cb) s else Some s);
     s2 \<leftarrow> (if rv AND EPOLLERR \<noteq> 0 then call (errorCallback cb) s1 else Some s1);
     s3 \<leftarrow> (if rv AND ReadEvent \<noteq> 0
           then call (map_option (\<lambda>f. f receiveTime) (readCallback cb)) s2 else Some s2);
     if rv AND EPOLLOUT \<noteq> 0 then call (writeCallback cb) s3 else Some s3
   }"

text \<open>\<open>alive\<close>: whether \<open>tie_.lock()\<close> yields the object the channel is tied to.\<close>

definition handleEvent ::
  "'s callbacks \<Rightarrow> channel \<Rightarrow> bool \<Rightarrow> int \<Rightarrow> 's \<Rightarrow> 's option" where
  "handleEvent cb c alive receiveTime s =
     (if tied c
      then if alive then handleEventWithGuard cb (revents c) receiveTime s else Some s
      else handleEventWithGuard cb (revents c) receiveTime s)"

text \<open>The same dispatch as a list of calls: which of the four kinds, in which order.\<close>

datatype cb_kind = CbClose | CbError | CbRead | CbWrite

definition dispatch :: "evmask \<Rightarrow> cb_kind list" where
  "dispatch rv =
     (if rv AND EPOLLHUP \<noteq> 0 \<and> rv AND ReadEvent = 0 then [CbClose] else []) @
     (if rv AND EPOLLERR \<noteq> 0 then [CbError] else []) @
     (if rv AND ReadEvent \<noteq> 0 then [CbRead] else []) @
     (if rv AND EPOLLOUT \<noteq> 0 then [CbWrite] else [])"

fun run_cb :: "'s callbacks \<Rightarrow> int \<Rightarrow> cb_kind \<Rightarrow> 's \<Rightarrow> 's option" where
  "run_cb cb t CbClose = call (closeCallback cb)"
| "run_cb cb t CbError = call (errorCallback cb)"
| "run_cb cb t CbRead = call (map_option (\<lambda>f. f t) (readCallback cb))"
| "run_cb cb t CbWrite = call (writeCallback cb)"

lemma handleEventWithGuard_dispatch:
  "handleEventWithGuard cb rv t s = fold_opt (run_cb cb t) (dispatch rv) s"
  by (simp add: handleEventWithGuard_def dispatch_def fold_opt_append fold_opt_Cons_fun
      fold_opt_Nil_fun cong: if_cong)

lemma isWriting_enable [simp]: "isWriting (c\<lparr>events := e OR WriteEvent\<rparr>)"
  by (simp add: isWriting_def bit.conj_disj_distrib2 channel_masks)

lemma isWriting_disable [simp]: "\<not> isWriting (c\<lparr>events := e AND NOT WriteEvent\<rparr>)"
  by (simp add: isWriting_def and.assoc)

subsection \<open>Properties\<close>

text \<open>
  Dispatch of an event. Whatever the callbacks are, one returned event runs them in the
  order close, error, read, write, each at most once: close exactly for a hang-up without
  anything to read, error for the error bit, read for readable or urgent data, write for
  the output bit. In particular a hang-up with an error runs both close and error.
\<close>

lemma event_dispatch:
  "handleEventWithGuard cb rv t s = fold_opt (run_cb cb t) (dispatch rv) s \<and>
   distinct (dispatch rv) \<and>
   (CbClose \<in> set (dispatch rv) \<longleftrightarrow> rv AND EPOLLHUP \<noteq> 0 \<and> CbRead \<notin> set (dispatch rv)) \<and>
   dispatch (EPOLLHUP OR EPOLLERR) = [CbClose, CbError]"
  by (simp add: handleEventWithGuard_dispatch) (auto simp: dispatch_def channel_masks)

text \<open>
  A tied channel never calls into a destroyed connection. When the channel is tied and
  the object it is tied to is gone, an event is dropped without running any callback.
\<close>

lemma tied_guard:
  "handleEvent cb (tie c) False t s = Some s \<and>
   handleEvent cb (tie c) True t s = handleEventWithGuard cb (revents c) t s"
  by (simp add: handleEvent_def tie_def)

end
