(* ===== verification/Pollers.thy ===== *)
theory Pollers
  imports Channels
begin

text \<open>
  \<open>class Poller\<close> and \<open>class EPollPoller\<close> (include/Poller.h, include/EPollPoller.h,
  src/Poller.cc, src/EPollPoller.cc), with the channels they manage and the \<open>Channel\<close>
  operations that go through \<open>update()\<close> and \<open>remove()\<close>.

  \<open>'c\<close> is the type of channel identities (pointers); \<open>chan\<close> is the memory they point to and
  \<open>channels\<close> the map \<open>channels_\<close>. The kernel is outside the program: \<open>ctlTrace\<close> records the
  \<open>epoll_ctl\<close> calls made with their results, and a parameter \<open>K\<close> of the operations says
  what \<open>epoll_ctl\<close> returns after a given trace (\<open>None\<close> for 0). What the manual promises of
  it is \<open>epoll_ok\<close>. A failing ADD or MOD is a FATAL log line, which ends the process.
\<close>

datatype epoll_op = CTL_ADD | CTL_MOD | CTL_DEL

record 'c ctl_call =
  ctlOp :: epoll_op
  ctlFd :: fd
  ctlEvents :: evmask
  ctlPtr :: 'c
  ctlResult :: "errno option"

type_synonym 'c kernel_ctl = "'c ctl_call list \<Rightarrow> epoll_op \<Rightarrow> fd \<Rightarrow> evmask \<Rightarrow> 'c \<Rightarrow> errno option"

record 'c poller =
  chan :: "'c \<Rightarrow> channel"
  channels :: "fd \<rightharpoonup> 'c"
  eventListSize :: nat
  ctlTrace :: "'c ctl_call list"

definition New :: int where
  "New = -1"

definition Added :: int where
  "Added = 1"

definition Deleted :: int where
  "Deleted = 2"

lemmas index_defs = New_def Added_def Deleted_def

definition InitEventListSize :: nat where
  "InitEventListSize = 16"

definition EPollPoller :: "('c \<Rightarrow> channel) \<Rightarrow> 'c poller" where
  "EPollPoller mem = \<lparr>chan = mem, channels = Map.empty, eventListSize = InitEventListSize, ctlTrace = []\<rparr>"

text \<open>\<open>Poller::newDefaultPoller\<close> (src/DefaultPoller.cc); the choice by an environment variable is commented out.\<close>

definition newDefaultPoller :: "('c \<Rightarrow> channel) \<Rightarrow> 'c poller" where
  "newDefaultPoller mem = EPollPoller mem"

definition set_chan :: "'c \<Rightarrow> (channel \<Rightarrow> channel) \<Rightarrow> 'c poller \<Rightarrow> 'c poller" where
  "set_chan c f p = p\<lparr>chan := (chan p)(c := f (chan p c))\<rparr>"

definition update :: "'c kernel_ctl \<Rightarrow> epoll_op \<Rightarrow> 'c \<Rightarrow> 'c poller \<Rightarrow> 'c poller option" where
  "update K operation c p =
     (let fd = chFd (chan p c); ev = events (chan p c);
          r = K (ctlTrace p) operation fd ev c;
          p1 = p\<lparr>ctlTrace := ctlTrace p @
            [\<lparr>ctlOp = operation, ctlFd = fd, ctlEvents = ev, ctlPtr = c, ctlResult = r\<rparr>]\<rparr>
      in case r of
           None \<Rightarrow> Some p1
         | Some e \<Rightarrow> if operation = CTL_DEL then Some p1 else None)"

definition updateChannel :: "'c kernel_ctl \<Rightarrow> 'c \<Rightarrow> 'c poller \<Rightarrow> 'c poller option" where
  "updateChannel K c p =
     (let index = chIndex (chan p c) in
      if index = New \<or> index = Deleted
      then let p1 = (if index = New then p\<lparr>channels := (channels p)(chFd (chan p c) \<mapsto> c)\<rparr> else p)
           in update K CTL_ADD c (set_chan c (set_index Added) p1)
      else if isNoneEvent (chan p c)
           then update K CTL_DEL c (set_chan c (set_index Deleted) p)
           else update K CTL_MOD c p)"

definition removeChannel :: "'c kernel_ctl \<Rightarrow> 'c \<Rightarrow> 'c poller \<Rightarrow> 'c poller option" where
  "removeChannel K c p =
     (let fd = chFd (chan p c);
          p1 = p\<lparr>channels := (channels p)(fd := None)\<rparr>;
          index = chIndex (chan p1 c)
      in do {
        p2 \<leftarrow> (if index = Added then update K CTL_DEL c p1 else Some p1);
        Some (set_chan c (set_index New) p2)
      })"

definition hasChannel :: "'c \<Rightarrow> 'c poller \<Rightarrow> bool" where
  "hasChannel c p \<longleftrightarrow> channels p (chFd (chan p c)) = Some c"

text \<open>
  \<open>fillActiveChannels\<close> and \<open>poll\<close>: \<open>r\<close> is what \<open>epoll_wait\<close> returned, the events with the
  pointers registered for them, or the \<open>errno\<close>. The result is the list of active channels
  and the poller.
\<close>

fun fillActiveChannels ::
  "(evmask \<times> 'c) list \<Rightarrow> 'c list \<Rightarrow> 'c poller \<Rightarrow> 'c list \<times> 'c poller" where
  "fillActiveChannels [] active p = (active, p)"
| "fillActiveChannels ((ev, c) # es) active p =
     fillActiveChannels es (active @ [c]) (set_chan c (save_revents ev) p)"

definition poll ::
  "errno + (evmask \<times> 'c) list \<Rightarrow> 'c list \<Rightarrow> 'c poller \<Rightarrow> 'c list \<times> 'c poller" where
  "poll r activeChannels p =
     (case r of
        Inl saveErrno \<Rightarrow> (activeChannels, p)
      | Inr evs \<Rightarrow>
          if 0 < length evs
          then let res = fillActiveChannels evs activeChannels p
               in if length evs = eventListSize (snd res)
                  then (fst res, (snd res)\<lparr>eventListSize := 2 * eventListSize (snd res)\<rparr>)
                  else res
          else (activeChannels, p))"

text \<open>The \<open>Channel\<close> operations that change the interest and call \<open>update()\<close>.\<close>

definition set_events :: "'c kernel_ctl \<Rightarrow> 'c \<Rightarrow> evmask \<Rightarrow> 'c poller \<Rightarrow> 'c poller option" where
  "set_events K c ev p = updateChannel K c (set_chan c (\<lambda>ch. ch\<lparr>events := ev\<rparr>) p)"

definition enableReading :: "'c kernel_ctl \<Rightarrow> 'c \<Rightarrow> 'c poller \<Rightarrow> 'c poller option" where
  "enableReading K c p = set_events K c (events (chan p c) OR ReadEvent) p"

definition enableWriting :: "'c kernel_ctl \<Rightarrow> 'c \<Rightarrow> 'c poller \<Rightarrow> 'c poller option" where
  "enableWriting K c p = set_events K c (events (chan p c) OR WriteEvent) p"

definition disableReading :: "'c kernel_ctl \<Rightarrow> 'c \<Rightarrow> 'c poller \<Rightarrow> 'c poller option" where
  "disableReading K c p = set_events K c (events (chan p c) AND NOT ReadEvent) p"

definition disableWriting :: "'c kernel_ctl \<Rightarrow> 'c \<Rightarrow> 'c poller \<Rightarrow> 'c poller option" where
  "disableWriting K c p = set_events K c (events (chan p c) AND NOT WriteEvent) p"

definition disableAll :: "'c kernel_ctl \<Rightarrow> 'c \<Rightarrow> 'c poller \<Rightarrow> 'c poller option" where
  "disableAll K c p = set_events K c NoneEvent p"

subsection \<open>The kernel's interest list\<close>

text \<open>What \<open>epoll_ctl(2)\<close> says the interest list is after the calls that succeeded.\<close>

fun interest_step :: "'c ctl_call \<Rightarrow> (fd \<rightharpoonup> evmask \<times> 'c) \<Rightarrow> (fd \<rightharpoonup> evmask \<times> 'c)" where
  "interest_step x m =
     (if ctlResult x \<noteq> None then m
      else if ctlOp x = CTL_DEL then m(ctlFd x := None)
      else m(ctlFd x \<mapsto> (ctlEvents x, ctlPtr x)))"

definition interest :: "'c ctl_call list \<Rightarrow> (fd \<rightharpoonup> evmask \<times> 'c)" where
  "interest tr = fold interest_step tr Map.empty"

text \<open>
  The promise: ADD succeeds on a descriptor that is not in the list (it fails with EEXIST
  on one that is), MOD and DEL on one that is (they fail with ENOENT otherwise).
\<close>

definition EEXIST :: errno where
  "EEXIST = 17"

definition ENOENT :: errno where
  "ENOENT = 2"

definition epoll_ok :: "'c kernel_ctl \<Rightarrow> bool" where
  "epoll_ok K \<longleftrightarrow> (\<forall>tr fd ev c.
     (interest tr fd = None \<longrightarrow> K tr CTL_ADD fd ev c = None) \<and>
     (interest tr fd \<noteq> None \<longrightarrow> K tr CTL_MOD fd ev c = None \<and> K tr CTL_DEL fd ev c = None))"

text \<open>A kernel that keeps the promise to the letter, for the witnesses.\<close>

definition epoll_ref :: "'c kernel_ctl" where
  "epoll_ref tr operation fd ev c =
     (case operation of
        CTL_ADD \<Rightarrow> if interest tr fd = None then None else Some EEXIST
      | _ \<Rightarrow> if interest tr fd = None then Some ENOENT else None)"

lemma epoll_ok_ref [simp]: "epoll_ok epoll_ref"
  by (simp add: epoll_ok_def epoll_ref_def)

lemma interest_Nil [simp]: "interest [] = Map.empty"
  by (simp add: interest_def)

lemma interest_snoc [simp]: "interest (tr @ [x]) = interest_step x (interest tr)"
  by (simp add: interest_def)

subsection \<open>The poller and the kernel agree\<close>

text \<open>
  The interest list the poller's own state calls for: the channels whose index says Added,
  each with the mask it wants.
\<close>

definition wanted :: "'c poller \<Rightarrow> (fd \<rightharpoonup> evmask \<times> 'c)" where
  "wanted p fd =
     (case channels p fd of
        None \<Rightarrow> None
      | Some c \<Rightarrow> if chIndex (chan p c) = Added then Some (events (chan p c), c) else None)"

definition keys_ok :: "'c poller \<Rightarrow> bool" where
  "keys_ok p \<longleftrightarrow>
     (\<forall>fd c. channels p fd = Some c \<longrightarrow> chFd (chan p c) = fd) \<and>
     (\<forall>c. chIndex (chan p c) \<in> {New, Added, Deleted}) \<and>
     (\<forall>c. chIndex (chan p c) \<noteq> New \<longleftrightarrow> hasChannel c p)"

definition poller_ok :: "'c poller \<Rightarrow> bool" where
  "poller_ok p \<longleftrightarrow> keys_ok p \<and> interest (ctlTrace p) = wanted p"

text \<open>No other channel uses the descriptor of \<open>c\<close>.\<close>

definition owns_fd :: "'c \<Rightarrow> 'c poller \<Rightarrow> bool" where
  "owns_fd c p \<longleftrightarrow> (\<forall>d. channels p (chFd (chan p c)) = Some d \<longrightarrow> d = c)"

lemma owns_fd_has: "hasChannel c p \<Longrightarrow> owns_fd c p"
  by (simp add: owns_fd_def hasChannel_def)

lemma set_chan_sel [simp]:
  "channels (set_chan c f p) = channels p" "ctlTrace (set_chan c f p) = ctlTrace p"
  "eventListSize (set_chan c f p) = eventListSize p"
  "chan (set_chan c f p) d = (if d = c then f (chan p c) else chan p d)"
  by (simp_all add: set_chan_def)

lemma set_index_sel [simp]:
  "chFd (set_index i c) = chFd c" "events (set_index i c) = events c" "chIndex (set_index i c) = i"
  by (simp_all add: set_index_def)

text \<open>A successful call of \<open>update\<close>, in terms of the interest list.\<close>

lemma update_ok:
  assumes "K (ctlTrace p) x (chFd (chan p c)) (events (chan p c)) c = None"
  shows "\<exists>q. update K x c p = Some q \<and> chan q = chan p \<and> channels q = channels p \<and>
    eventListSize q = eventListSize p \<and>
    interest (ctlTrace q) = (if x = CTL_DEL then (interest (ctlTrace p))(chFd (chan p c) := None)
      else (interest (ctlTrace p))(chFd (chan p c) \<mapsto> (events (chan p c), c)))"
  using assms by (auto simp: update_def Let_def)

lemma epoll_ctl_accepts:
  assumes "epoll_ok K" "interest tr fd = None \<longleftrightarrow> x = CTL_ADD"
  shows "K tr x fd ev c = None"
  using assms by (cases x) (auto simp: epoll_ok_def)

text \<open>What a change of the interest of \<open>c\<close> to \<open>ev\<close> leaves.\<close>

definition new_interest :: "'c \<Rightarrow> evmask \<Rightarrow> 'c poller \<Rightarrow> (evmask \<times> 'c) option" where
  "new_interest c ev p =
     (if chIndex (chan p c) = Added \<and> ev = NoneEvent then None else Some (ev, c))"

definition new_index :: "'c \<Rightarrow> evmask \<Rightarrow> 'c poller \<Rightarrow> int" where
  "new_index c ev p = (if chIndex (chan p c) = Added \<and> ev = NoneEvent then Deleted else Added)"

lemma keys_okD:
  assumes "keys_ok p"
  shows "channels p fd = Some c \<Longrightarrow> chFd (chan p c) = fd"
    and "chIndex (chan p c) = New \<or> chIndex (chan p c) = Added \<or> chIndex (chan p c) = Deleted"
    and "chIndex (chan p c) \<noteq> New \<longleftrightarrow> channels p (chFd (chan p c)) = Some c"
  using assms by (auto simp: keys_ok_def hasChannel_def)

lemma wanted_own:
  assumes "keys_ok p" "owns_fd c p"
  shows "wanted p (chFd (chan p c)) =
    (if chIndex (chan p c) = Added then Some (events (chan p c), c) else None)"
  using keys_okD(3) [OF assms(1), of c] assms(2)
  by (auto simp: wanted_def owns_fd_def index_defs split: option.splits)

lemma set_events_effect:
  assumes "epoll_ok K" "poller_ok p" "owns_fd c p"
  shows "\<exists>q. set_events K c ev p = Some q \<and>
    channels q = (channels p)(chFd (chan p c) \<mapsto> c) \<and>
    chan q = (chan p)(c := (chan p c)\<lparr>events := ev, chIndex := new_index c ev p\<rparr>) \<and>
    eventListSize q = eventListSize p \<and>
    interest (ctlTrace q) = (interest (ctlTrace p))(chFd (chan p c) := new_interest c ev p)"
proof -
  have k: "keys_ok p" and w: "interest (ctlTrace p) = wanted p"
    using assms(2) by (auto simp: poller_ok_def)
  note own = wanted_own [OF k assms(3)]
  have up: "channels p (chFd (chan p c)) = Some c \<Longrightarrow>
      (channels p)(chFd (chan p c) \<mapsto> c) = channels p" by (auto simp: fun_upd_idem)
  note acc = epoll_ctl_accepts [OF assms(1)]
  show ?thesis
    using keys_okD(2) [OF k, of c] keys_okD(3) [OF k, of c] own up
    by (auto simp: set_events_def updateChannel_def update_def Let_def index_defs isNoneEvent_def
        new_index_def new_interest_def acc w set_chan_def set_index_def)
qed

lemma removeChannel_effect:
  assumes "epoll_ok K" "poller_ok p" "owns_fd c p"
  shows "\<exists>q. removeChannel K c p = Some q \<and>
    channels q = (channels p)(chFd (chan p c) := None) \<and>
    chan q = (chan p)(c := (chan p c)\<lparr>chIndex := New\<rparr>) \<and>
    eventListSize q = eventListSize p \<and>
    interest (ctlTrace q) = (interest (ctlTrace p))(chFd (chan p c) := None)"
proof -
  have k: "keys_ok p" and w: "interest (ctlTrace p) = wanted p"
    using assms(2) by (auto simp: poller_ok_def)
  note own = wanted_own [OF k assms(3)]
  have up: "wanted p (chFd (chan p c)) = None \<Longrightarrow>
      (wanted p)(chFd (chan p c) := None) = wanted p" by (auto simp: fun_upd_idem)
  note acc = epoll_ctl_accepts [OF assms(1)]
  show ?thesis using own up
    by (auto simp: removeChannel_def update_def Let_def acc w set_chan_def set_index_def)
qed

text \<open>The agreement is kept by any change of one channel that has these effects.\<close>

lemma poller_ok_one:
  assumes "poller_ok p" "owns_fd c p"
    and ch: "channels q = (channels p)(chFd (chan p c) := (if i = New then None else Some c))"
    and me: "chan q = (chan p)(c := (chan p c)\<lparr>events := ev, chIndex := i\<rparr>)"
    and i: "i \<in> {New, Added, Deleted}"
    and int: "interest (ctlTrace q) = (interest (ctlTrace p))(chFd (chan p c) :=
      (if i = Added then Some (ev, c) else None))"
  shows "poller_ok q"
proof -
  have k: "keys_ok p" and w: "interest (ctlTrace p) = wanted p"
    using assms(1) by (auto simp: poller_ok_def)
  have oth: "chFd (chan p d) = chFd (chan p c) \<Longrightarrow> d \<noteq> c \<Longrightarrow> chIndex (chan p d) = New" for d
    using keys_okD(3) [OF k, of d] assms(2) by (auto simp: owns_fd_def)
  have kq: "keys_ok q"
    using k i oth unfolding keys_ok_def hasChannel_def
    by (auto simp: ch me split: if_splits)
  have "wanted q fd = interest (ctlTrace q) fd" for fd
    using assms(2) i keys_okD(1) [OF k, of fd] keys_okD(3) [OF k, of c]
    by (auto simp: wanted_def int w ch me owns_fd_def index_defs split: option.splits)
  then show ?thesis using kq by (auto simp: poller_ok_def)
qed

lemma set_events_ok:
  assumes "epoll_ok K" "poller_ok p" "owns_fd c p"
  shows "\<exists>q. set_events K c ev p = Some q \<and> poller_ok q \<and> owns_fd c q \<and>
    (\<forall>d. chFd (chan q d) = chFd (chan p d)) \<and>
    channels q = (channels p)(chFd (chan p c) \<mapsto> c) \<and>
    chan q = (chan p)(c := (chan p c)\<lparr>events := ev, chIndex := new_index c ev p\<rparr>) \<and>
    interest (ctlTrace q) = (interest (ctlTrace p))(chFd (chan p c) := new_interest c ev p)"
proof -
  obtain q where q: "set_events K c ev p = Some q"
    "channels q = (channels p)(chFd (chan p c) \<mapsto> c)"
    "chan q = (chan p)(c := (chan p c)\<lparr>events := ev, chIndex := new_index c ev p\<rparr>)"
    "interest (ctlTrace q) = (interest (ctlTrace p))(chFd (chan p c) := new_interest c ev p)"
    using set_events_effect [OF assms] by blast
  have "poller_ok q"
    using q(2,4) by (intro poller_ok_one [OF assms(2,3) _ q(3)])
      (auto simp: new_index_def new_interest_def index_defs)
  then show ?thesis using q by (auto simp: owns_fd_def)
qed

lemma removeChannel_ok:
  assumes "epoll_ok K" "poller_ok p" "owns_fd c p"
  shows "\<exists>q. removeChannel K c p = Some q \<and> poller_ok q \<and> owns_fd c q \<and>
    (\<forall>d. chFd (chan q d) = chFd (chan p d)) \<and>
    channels q = (channels p)(chFd (chan p c) := None) \<and>
    chan q = (chan p)(c := (chan p c)\<lparr>chIndex := New\<rparr>) \<and>
    interest (ctlTrace q) = (interest (ctlTrace p))(chFd (chan p c) := None)"
proof -
  obtain q where q: "removeChannel K c p = Some q"
    "channels q = (channels p)(chFd (chan p c) := None)"
    "chan q = (chan p)(c := (chan p c)\<lparr>chIndex := New\<rparr>)"
    "interest (ctlTrace q) = (interest (ctlTrace p))(chFd (chan p c) := None)"
    using removeChannel_effect [OF assms] by blast
  have "poller_ok q"
    using q(2,3,4) by (intro poller_ok_one [OF assms(2,3), where ev = "events (chan p c)" and i = New])
      (auto simp: index_defs)
  then show ?thesis using q by (auto simp: owns_fd_def)
qed

subsection \<open>The interface the connections use\<close>

locale event_registry =
  fixes watch :: "'s \<Rightarrow> fd \<rightharpoonup> evmask \<times> 'c"
    and key :: "'s \<Rightarrow> 'c \<Rightarrow> fd"
    and ok :: "'s \<Rightarrow> bool"
    and mine :: "'c \<Rightarrow> 's \<Rightarrow> bool"
    and setev :: "'c \<Rightarrow> evmask \<Rightarrow> 's \<Rightarrow> 's option"
    and remove :: "'c \<Rightarrow> 's \<Rightarrow> 's option"
  assumes setev_law: "ok s \<Longrightarrow> mine c s \<Longrightarrow>
      \<exists>t. setev c ev s = Some t \<and> ok t \<and> mine c t \<and> key t = key s \<and>
        (ev \<noteq> 0 \<longrightarrow> watch t (key s c) = Some (ev, c)) \<and>
        (\<forall>fd. fd \<noteq> key s c \<longrightarrow> watch t fd = watch s fd)"
    and remove_law: "ok s \<Longrightarrow> mine c s \<Longrightarrow>
      \<exists>t. remove c s = Some t \<and> ok t \<and> mine c t \<and> key t = key s \<and>
        watch t = (watch s)(key s c := None)"
begin

lemma changes:
  assumes "ok s" "mine c s"
  shows "\<exists>t. fold_opt (setev c) evs s = Some t \<and> ok t \<and> mine c t \<and> key t = key s \<and>
    (evs \<noteq> [] \<longrightarrow> last evs \<noteq> 0 \<longrightarrow> watch t (key s c) = Some (last evs, c)) \<and>
    (\<forall>fd. fd \<noteq> key s c \<longrightarrow> watch t fd = watch s fd)"
  using assms
proof (induction evs arbitrary: s)
  case Nil
  then show ?case by simp
next
  case (Cons e evs)
  obtain u where u: "setev c e s = Some u" "ok u" "mine c u" "key u = key s"
    "e \<noteq> 0 \<longrightarrow> watch u (key s c) = Some (e, c)" "\<forall>fd. fd \<noteq> key s c \<longrightarrow> watch u fd = watch s fd"
    using setev_law [OF Cons.prems, of e] by blast
  show ?case
  proof (cases "evs = []")
    case True
    then show ?thesis using u by simp
  next
    case False
    then show ?thesis using Cons.IH [OF u(2,3)] u by auto
  qed
qed

lemma session:
  assumes "ok s" "mine c s"
  shows "\<exists>t. fold_opt (setev c) evs s \<bind> remove c = Some t \<and> ok t \<and>
    watch t = (watch s)(key s c := None)"
proof -
  obtain u where u: "fold_opt (setev c) evs s = Some u" "ok u" "mine c u" "key u = key s"
    "\<forall>fd. fd \<noteq> key s c \<longrightarrow> watch u fd = watch s fd"
    using changes [OF assms] by blast
  have "(watch u)(key s c := None) = (watch s)(key s c := None)" using u(5) by auto
  then show ?thesis using remove_law [OF u(2,3)] u(1,4) by auto
qed

end

interpretation ep: event_registry "\<lambda>p. interest (ctlTrace p)" "\<lambda>p c. chFd (chan p c)"
  "\<lambda>p. epoll_ok K \<and> poller_ok p" owns_fd "set_events K" "removeChannel K" for K
proof (unfold_locales, goal_cases)
  case (1 p c ev)
  then show ?case using set_events_ok [of K p c ev]
    by (auto simp: new_interest_def NoneEvent_def)
next
  case (2 p c)
  then show ?case using removeChannel_ok [of K p c] by auto
qed

subsection \<open>Delivery of events\<close>

lemma fillActiveChannels_effect:
  "fst (fillActiveChannels evs as p) = as @ map snd evs \<and>
   channels (snd (fillActiveChannels evs as p)) = channels p \<and>
   ctlTrace (snd (fillActiveChannels evs as p)) = ctlTrace p \<and>
   eventListSize (snd (fillActiveChannels evs as p)) = eventListSize p \<and>
   (\<forall>c. \<exists>r. chan (snd (fillActiveChannels evs as p)) c = (chan p c)\<lparr>revents := r\<rparr> \<and>
      (c \<notin> snd ` set evs \<longrightarrow> r = revents (chan p c)) \<and>
      (distinct (map snd evs) \<longrightarrow> (\<forall>ev. (ev, c) \<in> set evs \<longrightarrow> r = ev)))"
proof (induction evs arbitrary: as p)
  case Nil
  have "\<exists>r. chan p c = (chan p c)\<lparr>revents := r\<rparr> \<and> r = revents (chan p c)" for c by simp
  then show ?case by auto
next
  case (Cons e evs)
  obtain ev d where e: "e = (ev, d)" by (cases e)
  have "\<exists>r. chan (snd (fillActiveChannels evs (as @ [d]) (set_chan d (save_revents ev) p))) c =
      (chan p c)\<lparr>revents := r\<rparr> \<and>
      (c \<notin> snd ` set (e # evs) \<longrightarrow> r = revents (chan p c)) \<and>
      (distinct (map snd (e # evs)) \<longrightarrow> (\<forall>ev. (ev, c) \<in> set (e # evs) \<longrightarrow> r = ev))" for c
  proof -
    obtain r where "chan (snd (fillActiveChannels evs (as @ [d]) (set_chan d (save_revents ev) p))) c =
        (chan (set_chan d (save_revents ev) p) c)\<lparr>revents := r\<rparr>"
      "c \<notin> snd ` set evs \<longrightarrow> r = revents (chan (set_chan d (save_revents ev) p) c)"
      "distinct (map snd evs) \<longrightarrow> (\<forall>ev. (ev, c) \<in> set evs \<longrightarrow> r = ev)"
      using Cons.IH [of "as @ [d]" "set_chan d (save_revents ev) p"] by blast
    then show ?thesis
      by (intro exI [of _ r]) (force simp: e save_revents_def)
  qed
  then show ?case using Cons.IH [of "as @ [d]" "set_chan d (save_revents ev) p"] by (simp add: e)
qed

subsection \<open>Properties\<close>

text \<open>A poller with one registered, readable channel, for the witnesses.\<close>

definition poller1 :: "nat poller" where
  "poller1 = \<lparr>chan = (\<lambda>c. Channel (int c + 5)), channels = Map.empty, eventListSize = 16, ctlTrace = []\<rparr>"

lemma poller1_ok [simp]: "poller_ok poller1" "owns_fd c poller1"
  by (auto simp: poller_ok_def keys_ok_def poller1_def Channel_def hasChannel_def wanted_def
      index_defs owns_fd_def)

lemma poller1_interest [simp]: "interest (ctlTrace poller1) = Map.empty"
  by (simp add: poller1_def)

text \<open>
  C27 (the kernel watches what the channel asks for). With a kernel that keeps the promise of
  \<open>epoll_ctl(2)\<close>, a change of the interest of a channel never ends the process, whatever its
  registration state is; afterwards the kernel's interest list and the poller's own state
  agree again; the entry of the channel's descriptor is the new mask and the channel pointer
  (or none, when a registered channel asks for nothing), and no other entry changes.
\<close>

theorem interest_follows_channel:
  assumes "epoll_ok K" "poller_ok p" "owns_fd c p"
  shows "\<exists>q. set_events K c ev p = Some q \<and> poller_ok q \<and> hasChannel c q \<and>
    events (chan q c) = ev \<and>
    interest (ctlTrace q) = (interest (ctlTrace p))(chFd (chan p c) :=
      (if chIndex (chan p c) = Added \<and> ev = NoneEvent then None else Some (ev, c)))"
proof -
  obtain q where "set_events K c ev p = Some q" "poller_ok q"
    "channels q = (channels p)(chFd (chan p c) \<mapsto> c)"
    "chan q = (chan p)(c := (chan p c)\<lparr>events := ev, chIndex := new_index c ev p\<rparr>)"
    "interest (ctlTrace q) = (interest (ctlTrace p))(chFd (chan p c) := new_interest c ev p)"
    using set_events_ok [OF assms] by blast
  then show ?thesis by (auto simp: hasChannel_def new_interest_def)
qed

theorem interest_follows_channel_witness:
  "\<exists>q. set_events epoll_ref (2::nat) ReadEvent poller1 = Some q \<and> poller_ok q \<and>
    interest (ctlTrace q) = [7 \<mapsto> (3, 2)]"
proof -
  obtain q where q: "set_events epoll_ref 2 ReadEvent poller1 = Some q" "poller_ok q"
    "interest (ctlTrace q) = (interest (ctlTrace poller1))(chFd (chan poller1 2) :=
      (if chIndex (chan poller1 2) = Added \<and> ReadEvent = NoneEvent then None
       else Some (ReadEvent, 2)))"
    using interest_follows_channel [of epoll_ref poller1 2 ReadEvent] by auto
  have "interest (ctlTrace q) = [7 \<mapsto> (3, 2)]"
    using q(3) by (simp add: poller1_def Channel_def channel_masks)
  then show ?thesis using q by blast
qed

text \<open>
  The life of a channel leaves no trace. Any sequence of interest changes of a channel
  followed by its removal never ends the process, and leaves the kernel's interest list as
  it was, except that the channel's descriptor is no longer watched.
\<close>

lemma channel_session:
  assumes "epoll_ok K" "poller_ok p" "owns_fd c p"
  shows "\<exists>q. fold_opt (set_events K c) evs p \<bind> removeChannel K c = Some q \<and> poller_ok q \<and>
    interest (ctlTrace q) = (interest (ctlTrace p))(chFd (chan p c) := None)"
  using ep.session [of K p c evs] assms by auto

text \<open>
  A second \<open>disableAll\<close> watches the channel again. A registered channel that asks for
  nothing is taken out of the kernel's list; asking for nothing once more puts it back, with
  an empty mask, for which the kernel still reports errors and hang-ups.
\<close>

lemma disableAll_twice:
  assumes "epoll_ok K" "poller_ok p" "owns_fd c p" "chIndex (chan p c) = Added"
  shows "\<exists>q r. disableAll K c p = Some q \<and> interest (ctlTrace q) (chFd (chan p c)) = None \<and>
    disableAll K c q = Some r \<and> interest (ctlTrace r) (chFd (chan p c)) = Some (0, c)"
proof -
  obtain q where q: "set_events K c NoneEvent p = Some q" "poller_ok q" "owns_fd c q"
    "chFd (chan q c) = chFd (chan p c)"
    "chan q = (chan p)(c := (chan p c)\<lparr>events := NoneEvent, chIndex := new_index c NoneEvent p\<rparr>)"
    "interest (ctlTrace q) = (interest (ctlTrace p))(chFd (chan p c) := new_interest c NoneEvent p)"
    using set_events_ok [OF assms(1,2,3), of NoneEvent] by blast
  obtain r where r: "set_events K c NoneEvent q = Some r"
    "interest (ctlTrace r) = (interest (ctlTrace q))(chFd (chan q c) := new_interest c NoneEvent q)"
    using set_events_ok [OF assms(1) q(2,3), of NoneEvent] by blast
  have d: "chIndex (chan q c) = Deleted" using q(5) assms(4) by (simp add: new_index_def)
  have "interest (ctlTrace q) (chFd (chan p c)) = None"
    using q(6) assms(4) by (simp add: new_interest_def)
  moreover have "interest (ctlTrace r) (chFd (chan p c)) = Some (0, c)"
    using r(2) q(4) d by (simp add: new_interest_def index_defs NoneEvent_def)
  ultimately show ?thesis using q(1) r(1) by (auto simp: disableAll_def)
qed

lemma disableAll_twice_witness:
  "\<exists>p q r. enableReading epoll_ref (4::nat) poller1 = Some p \<and>
    disableAll epoll_ref 4 p = Some q \<and> interest (ctlTrace q) 9 = None \<and>
    disableAll epoll_ref 4 q = Some r \<and> interest (ctlTrace r) 9 = Some (0, 4)"
proof -
  obtain p where p: "set_events epoll_ref 4 ReadEvent poller1 = Some p" "poller_ok p"
    "owns_fd 4 p" "chan p = (chan poller1)(4 := (chan poller1 4)\<lparr>events := ReadEvent,
      chIndex := new_index 4 ReadEvent poller1\<rparr>)"
    using set_events_ok [of epoll_ref poller1 4 ReadEvent] by auto
  have ix: "chIndex (chan p 4) = Added" "chFd (chan p 4) = 9"
    using p(4) by (simp_all add: new_index_def poller1_def Channel_def index_defs)
  have "enableReading epoll_ref 4 poller1 = Some p"
    using p(1) by (simp add: enableReading_def poller1_def Channel_def)
  then show ?thesis
    using disableAll_twice [of epoll_ref p 4] p(2,3) ix by auto
qed

text \<open>
  Delivery of the returned events. When \<open>epoll_wait\<close> returns \<open>evs\<close>, the channels behind
  the returned pointers are appended to the active list in that order, each gets its events
  as its \<open>revents\<close> and nothing else of it changes, no other channel, registration or
  interest changes, and the event list doubles when it was full. A timeout or an error
  (any \<open>errno\<close>) delivers nothing and changes nothing.
\<close>

lemma poll_delivers:
  assumes "distinct (map snd evs)"
  shows "poll (Inl e) as p = (as, p) \<and> poll (Inr []) as p = (as, p) \<and>
    fst (poll (Inr evs) as p) = as @ map snd evs \<and>
    (\<forall>ev c. (ev, c) \<in> set evs \<longrightarrow>
       chan (snd (poll (Inr evs) as p)) c = (chan p c)\<lparr>revents := ev\<rparr>) \<and>
    (\<forall>c. c \<notin> snd ` set evs \<longrightarrow> chan (snd (poll (Inr evs) as p)) c = chan p c) \<and>
    channels (snd (poll (Inr evs) as p)) = channels p \<and>
    ctlTrace (snd (poll (Inr evs) as p)) = ctlTrace p \<and>
    eventListSize (snd (poll (Inr evs) as p)) =
      (if evs \<noteq> [] \<and> length evs = eventListSize p then 2 * eventListSize p
       else eventListSize p)"
proof -
  define f where "f = fillActiveChannels evs as p"
  note F = fillActiveChannels_effect [of evs as p, folded f_def]
  have one: "(ev, c) \<in> set evs \<Longrightarrow> chan (snd f) c = (chan p c)\<lparr>revents := ev\<rparr>" for ev c
    using F assms by metis
  have oth: "c \<notin> snd ` set evs \<Longrightarrow> chan (snd f) c = chan p c" for c
  proof -
    assume "c \<notin> snd ` set evs"
    then obtain r where "chan (snd f) c = (chan p c)\<lparr>revents := r\<rparr>" "r = revents (chan p c)"
      using F by blast
    then show ?thesis by simp
  qed
  show ?thesis
    using F one oth by (cases "evs = []") (auto simp: poll_def Let_def f_def [symmetric])
qed

lemma poll_delivers_witness:
  "fst (poll (Inr [(1, 4::nat), (4, 2)]) [] poller1) = [4, 2] \<and>
   revents (chan (snd (poll (Inr [(1, 4::nat), (4, 2)]) [] poller1)) 2) = 4"
  using poll_delivers [of "[(1, 4::nat), (4, 2)]" _ "[]" poller1] by auto

end
