(* ===== verification/EventLoops.thy ===== *)
theory EventLoops
  imports Prelude
begin

text \<open>
  \<open>class EventLoop\<close> (include/EventLoop.h, src/EventLoop.cc): the task queue, the wake-up
  descriptor and the loop, as the loop's thread and any number of other threads run them.

  A functor is a value of a type \<open>'f\<close>; what it does to the loop it runs in is a
  sequence of calls of the loop's own operations. \<open>evloop\<close> holds the members of the class
  and the counter of the eventfd; \<open>loopsys\<close> adds the control point of \<open>loop()\<close>, its local
  variables, the number of threads that have published a task or a quit but have not yet
  called \<open>wakeup()\<close>, and the history the properties speak of.
\<close>

record 'f evloop =
  looping :: bool
  quit_flag :: bool
  callingPendingFunctors :: bool
  pendingFunctors :: "'f list"
  counter :: nat
  loopErrors :: nat

definition EventLoop :: "'f evloop" where
  "EventLoop = \<lparr>looping = False, quit_flag = True, callingPendingFunctors = False,
     pendingFunctors = [], counter = 0, loopErrors = 0\<rparr>"

text \<open>The largest value an eventfd counter can hold; \<open>write\<close> fails (EAGAIN) beyond it.\<close>

definition eventfd_max :: nat where
  "eventfd_max = 2 ^ 64 - 2"

text \<open>\<open>if(n < sizeof(one)) LOG_ERROR\<close>: the \<open>ssize_t\<close> is converted to \<open>size_t\<close> first.\<close>

definition check_transfer :: "int \<Rightarrow> 'f evloop \<Rightarrow> 'f evloop" where
  "check_transfer n l =
     (if size_t_of n < 8 then l\<lparr>loopErrors := loopErrors l + 1\<rparr> else l)"

definition wakeup :: "'f evloop \<Rightarrow> 'f evloop" where
  "wakeup l =
     (if counter l < eventfd_max
      then check_transfer 8 (l\<lparr>counter := counter l + 1\<rparr>)
      else check_transfer (-1) l)"

definition handleRead :: "'f evloop \<Rightarrow> 'f evloop" where
  "handleRead l =
     (if counter l = 0 then check_transfer (-1) l
      else check_transfer 8 (l\<lparr>counter := 0\<rparr>))"

definition push :: "'f \<Rightarrow> 'f evloop \<Rightarrow> 'f evloop" where
  "push cb l = l\<lparr>pendingFunctors := pendingFunctors l @ [cb]\<rparr>"

text \<open>\<open>here\<close> is \<open>isInLoopThread()\<close> for the calling thread.\<close>

definition queueInLoop :: "bool \<Rightarrow> 'f \<Rightarrow> 'f evloop \<Rightarrow> 'f evloop" where
  "queueInLoop here cb l =
     (let l1 = push cb l
      in if \<not> here \<or> callingPendingFunctors l1 then wakeup l1 else l1)"

definition set_quit :: "'f evloop \<Rightarrow> 'f evloop" where
  "set_quit l = l\<lparr>quit_flag := True\<rparr>"

definition quit :: "bool \<Rightarrow> 'f evloop \<Rightarrow> 'f evloop" where
  "quit here l = (if here then set_quit l else wakeup (set_quit l))"

definition start_loop :: "'f evloop \<Rightarrow> 'f evloop" where
  "start_loop l = l\<lparr>looping := True, quit_flag := False\<rparr>"

definition stop_loop :: "'f evloop \<Rightarrow> 'f evloop" where
  "stop_loop l = l\<lparr>looping := False\<rparr>"

subsection \<open>The loop and its environment\<close>

text \<open>
  The control points: before \<open>loop()\<close>, at the test of \<open>while(!quit_)\<close>, inside \<open>poll\<close>, in
  the handlers of the active channels, in \<open>doPendingFunctors\<close> before and after the swap,
  and after the loop.
\<close>

datatype loop_pc = LStart | LCheck | LPoll | LHandle | LSwap | LRun | LDone

record 'f loopsys =
  lp :: "'f evloop"
  pc :: loop_pc
  wakeActive :: bool
  functors :: "'f list"
  waking :: nat
  early :: bool
  queued :: "'f list"
  executed :: "'f list"
  swapped :: "'f list"

definition loop_init :: "'f loopsys \<Rightarrow> bool" where
  "loop_init s \<longleftrightarrow> s = \<lparr>lp = EventLoop, pc = LStart, wakeActive = False, functors = [],
     waking = 0, early = False, queued = [], executed = [], swapped = []\<rparr>"

text \<open>
  \<open>l_poll\<close>: \<open>epoll_wait\<close> returns because of a timeout or any channel; the wake-up channel
  can be among the active ones only when the counter is not zero. the
  \<open>_queue\<close> and \<open>_quit\<close> steps are calls from the loop's thread before \<open>loop()\<close>, in a handler
  or in a functor; \<open>t_\<close> steps belong to other threads, whose \<open>queueInLoop\<close> and \<open>quit\<close> are split
  at the point where another thread can see the queue or the flag.
\<close>

inductive loop_step :: "'f loopsys \<Rightarrow> 'f loopsys \<Rightarrow> bool" where
  l_start: "pc s = LStart \<Longrightarrow>
    loop_step s (s\<lparr>lp := start_loop (lp s), pc := LCheck\<rparr>)"
| l_check: "pc s = LCheck \<Longrightarrow> \<not> quit_flag (lp s) \<Longrightarrow>
    loop_step s (s\<lparr>pc := LPoll\<rparr>)"
| l_stop: "pc s = LCheck \<Longrightarrow> quit_flag (lp s) \<Longrightarrow>
    loop_step s (s\<lparr>lp := stop_loop (lp s), pc := LDone\<rparr>)"
| l_poll: "pc s = LPoll \<Longrightarrow> (w \<longrightarrow> 0 < counter (lp s)) \<Longrightarrow>
    loop_step s (s\<lparr>pc := LHandle, wakeActive := w\<rparr>)"
| l_handleRead: "pc s = LHandle \<Longrightarrow> wakeActive s \<Longrightarrow>
    loop_step s (s\<lparr>lp := handleRead (lp s), wakeActive := False\<rparr>)"
| l_functors: "pc s = LHandle \<Longrightarrow> \<not> wakeActive s \<Longrightarrow>
    loop_step s (s\<lparr>lp := (lp s)\<lparr>callingPendingFunctors := True\<rparr>, pc := LSwap\<rparr>)"
| l_swap: "pc s = LSwap \<Longrightarrow>
    loop_step s (s\<lparr>functors := pendingFunctors (lp s), lp := (lp s)\<lparr>pendingFunctors := []\<rparr>,
      pc := LRun, early := False, swapped := queued s\<rparr>)"
| l_exec: "pc s = LRun \<Longrightarrow> functors s = f # fs \<Longrightarrow>
    loop_step s (s\<lparr>functors := fs, executed := executed s @ [f]\<rparr>)"
| l_end: "pc s = LRun \<Longrightarrow> functors s = [] \<Longrightarrow>
    loop_step s (s\<lparr>lp := (lp s)\<lparr>callingPendingFunctors := False\<rparr>, pc := LCheck\<rparr>)"
| l_early_queue: "pc s = LStart \<Longrightarrow>
    loop_step s (s\<lparr>lp := queueInLoop True f (lp s), queued := queued s @ [f], early := True\<rparr>)"
| l_handler_queue: "pc s = LHandle \<Longrightarrow>
    loop_step s (s\<lparr>lp := queueInLoop True f (lp s), queued := queued s @ [f]\<rparr>)"
| l_functor_queue: "pc s = LRun \<Longrightarrow>
    loop_step s (s\<lparr>lp := queueInLoop True f (lp s), queued := queued s @ [f]\<rparr>)"
| l_handler_quit: "pc s = LHandle \<Longrightarrow> loop_step s (s\<lparr>lp := quit True (lp s)\<rparr>)"
| l_functor_quit: "pc s = LRun \<Longrightarrow> loop_step s (s\<lparr>lp := quit True (lp s)\<rparr>)"
| t_push: "loop_step s (s\<lparr>lp := push f (lp s), queued := queued s @ [f],
      waking := waking s + 1\<rparr>)"
| t_quit: "loop_step s (s\<lparr>lp := set_quit (lp s), waking := waking s + 1\<rparr>)"
| t_wakeup: "0 < waking s \<Longrightarrow>
    loop_step s (s\<lparr>lp := wakeup (lp s), waking := waking s - 1\<rparr>)"

inductive_cases loop_stepE: "loop_step s t"

lemma check_transfer_sel [simp]:
  "looping (check_transfer n l) = looping l" "quit_flag (check_transfer n l) = quit_flag l"
  "callingPendingFunctors (check_transfer n l) = callingPendingFunctors l"
  "pendingFunctors (check_transfer n l) = pendingFunctors l"
  "counter (check_transfer n l) = counter l"
  by (simp_all add: check_transfer_def)

lemma wakeup_sel [simp]:
  "quit_flag (wakeup l) = quit_flag l" "pendingFunctors (wakeup l) = pendingFunctors l"
  "callingPendingFunctors (wakeup l) = callingPendingFunctors l"
  "0 < counter (wakeup l)"
  by (simp_all add: wakeup_def eventfd_max_def)

lemma wakeup_counts [simp]: "0 < w \<Longrightarrow> Suc 0 < counter (wakeup l) + w"
  using wakeup_sel(4) [of l] by linarith

lemma handleRead_sel [simp]:
  "quit_flag (handleRead l) = quit_flag l" "pendingFunctors (handleRead l) = pendingFunctors l"
  "callingPendingFunctors (handleRead l) = callingPendingFunctors l" "counter (handleRead l) = 0"
  by (simp_all add: handleRead_def)

lemma push_sel [simp]:
  "quit_flag (push f l) = quit_flag l" "pendingFunctors (push f l) = pendingFunctors l @ [f]"
  "callingPendingFunctors (push f l) = callingPendingFunctors l" "counter (push f l) = counter l"
  by (simp_all add: push_def)

lemma queueInLoop_sel [simp]:
  "quit_flag (queueInLoop h f l) = quit_flag l"
  "pendingFunctors (queueInLoop h f l) = pendingFunctors l @ [f]"
  "callingPendingFunctors (queueInLoop h f l) = callingPendingFunctors l"
  "callingPendingFunctors l \<Longrightarrow> 0 < counter (queueInLoop h f l)"
  by (simp_all add: queueInLoop_def Let_def)

lemma flags_sel [simp]:
  "quit_flag (set_quit l)" "pendingFunctors (set_quit l) = pendingFunctors l"
  "callingPendingFunctors (set_quit l) = callingPendingFunctors l" "counter (set_quit l) = counter l"
  "\<not> quit_flag (start_loop l)" "pendingFunctors (start_loop l) = pendingFunctors l"
  "callingPendingFunctors (start_loop l) = callingPendingFunctors l"
  "counter (start_loop l) = counter l"
  "quit_flag (stop_loop l) = quit_flag l" "pendingFunctors (stop_loop l) = pendingFunctors l"
  "callingPendingFunctors (stop_loop l) = callingPendingFunctors l"
  "counter (stop_loop l) = counter l"
  by (simp_all add: set_quit_def start_loop_def stop_loop_def)

subsection \<open>The invariant\<close>

text \<open>
  Every task is in exactly one place, in order. Where the loop may go to sleep, a pending
  task or a quit has a wake-up on its way: the counter is not zero, or a thread is about to
  write it. The exception is a task queued by the loop's own thread before \<open>loop()\<close>.
\<close>

definition loop_inv :: "'f loopsys \<Rightarrow> bool" where
  "loop_inv s \<longleftrightarrow>
     executed s @ functors s @ pendingFunctors (lp s) = queued s \<and>
     executed s @ functors s = swapped s \<and>
     (pc s \<noteq> LRun \<longrightarrow> functors s = []) \<and>
     (callingPendingFunctors (lp s) \<longleftrightarrow> pc s = LSwap \<or> pc s = LRun) \<and>
     (pc s = LStart \<or> pc s = LCheck \<or> pc s = LPoll \<or> pc s = LRun \<longrightarrow>
        pendingFunctors (lp s) \<noteq> [] \<longrightarrow> 0 < counter (lp s) + waking s \<or> early s) \<and>
     (pc s = LPoll \<longrightarrow> quit_flag (lp s) \<longrightarrow> 0 < counter (lp s) + waking s)"

lemma loop_inv_init: "loop_init s \<Longrightarrow> loop_inv s"
  by (simp add: loop_init_def loop_inv_def EventLoop_def)

lemma loop_inv_step: "loop_step s t \<Longrightarrow> loop_inv s \<Longrightarrow> loop_inv t"
  unfolding loop_inv_def
  by (induction rule: loop_step.induct; elim conjE; intro conjI; simp add: quit_def)

interpretation lo: invariant_system loop_init loop_step loop_inv
  by unfold_locales (rule loop_inv_init, assumption, rule loop_inv_step)

lemmas loop_invD = lo.reach_inv [unfolded loop_inv_def]

lemmas loop_order = loop_invD [THEN conjunct1]
lemmas loop_round = loop_invD [THEN conjunct2, THEN conjunct1]
lemmas loop_batch = loop_invD [THEN conjunct2, THEN conjunct2, THEN conjunct1]

subsection \<open>Runs of the loop's thread\<close>

lemma step_then: "loop_step s t \<Longrightarrow> loop_step\<^sup>*\<^sup>* t u \<Longrightarrow> loop_step\<^sup>*\<^sup>* s u"
  by (rule converse_rtranclp_into_rtranclp)

lemma run_functors_list:
  "pc s = LRun \<Longrightarrow> functors s = fs \<Longrightarrow>
   loop_step\<^sup>*\<^sup>* s (s\<lparr>functors := [], executed := executed s @ fs\<rparr>)"
proof (induction fs arbitrary: s)
  case Nil
  then have "s\<lparr>functors := [], executed := executed s @ []\<rparr> = s" by (cases s) simp
  then show ?case by simp
next
  case (Cons f fs)
  define u where "u = s\<lparr>functors := fs, executed := executed s @ [f]\<rparr>"
  have "loop_step s u" unfolding u_def using Cons.prems by (rule l_exec)
  moreover have "loop_step\<^sup>*\<^sup>* u (u\<lparr>functors := [], executed := executed u @ fs\<rparr>)"
    by (rule Cons.IH) (use Cons.prems(1) in \<open>simp_all add: u_def\<close>)
  moreover have "u\<lparr>functors := [], executed := executed u @ fs\<rparr> =
      s\<lparr>functors := [], executed := executed s @ f # fs\<rparr>" by (simp add: u_def)
  ultimately show ?case by (metis step_then)
qed

lemma run_functors:
  "pc s = LRun \<Longrightarrow>
   loop_step\<^sup>*\<^sup>* s (s\<lparr>functors := [], executed := executed s @ functors s\<rparr>)"
  by (rule run_functors_list) simp_all

lemma run_pending:
  assumes "pc s = LHandle"
  shows "\<exists>t. loop_step\<^sup>*\<^sup>* s t \<and> pc t = LCheck \<and> pendingFunctors (lp t) = [] \<and>
    executed t = executed s @ pendingFunctors (lp s) \<and> quit_flag (lp t) = quit_flag (lp s)"
proof -
  define h where "h = (if wakeActive s then s\<lparr>lp := handleRead (lp s), wakeActive := False\<rparr> else s)"
  define c where "c = h\<lparr>lp := (lp h)\<lparr>callingPendingFunctors := True\<rparr>, pc := LSwap\<rparr>"
  define r where "r = c\<lparr>functors := pendingFunctors (lp c), lp := (lp c)\<lparr>pendingFunctors := []\<rparr>,
      pc := LRun, early := False, swapped := queued c\<rparr>"
  define e where "e = r\<lparr>functors := [], executed := executed r @ functors r\<rparr>"
  define t where "t = e\<lparr>lp := (lp e)\<lparr>callingPendingFunctors := False\<rparr>, pc := LCheck\<rparr>"
  have h: "loop_step\<^sup>*\<^sup>* s h"
    using assms l_handleRead [of s] by (auto simp: h_def)
  have "pc h = LHandle" "\<not> wakeActive h" using assms by (simp_all add: h_def)
  then have c: "loop_step h c" unfolding c_def by (rule l_functors)
  have r: "loop_step c r" unfolding r_def by (rule l_swap) (simp add: c_def)
  have e: "loop_step\<^sup>*\<^sup>* r e" unfolding e_def by (rule run_functors) (simp add: r_def)
  have t: "loop_step e t" unfolding t_def by (rule l_end) (simp_all add: e_def r_def)
  have "loop_step\<^sup>*\<^sup>* s t" using h c r e t by (meson rtranclp.simps rtranclp_trans)
  moreover have "executed t = executed s @ pendingFunctors (lp s)" "pendingFunctors (lp t) = []"
    "pc t = LCheck" "quit_flag (lp t) = quit_flag (lp s)"
    by (simp_all add: t_def e_def r_def c_def h_def)
  ultimately show ?thesis by blast
qed

text \<open>The loop's thread can always get from inside its loop to the test of \<open>quit_\<close>.\<close>

lemma run_to_check:
  assumes "pc s \<noteq> LStart" "pc s \<noteq> LDone"
  shows "\<exists>t. loop_step\<^sup>*\<^sup>* s t \<and> pc t = LCheck \<and> quit_flag (lp t) = quit_flag (lp s)"
proof (cases "pc s")
  case LPoll
  have "loop_step s (s\<lparr>pc := LHandle, wakeActive := False\<rparr>)" using LPoll by (intro l_poll) auto
  then show ?thesis
    using run_pending [of "s\<lparr>pc := LHandle, wakeActive := False\<rparr>"] step_then by fastforce
next
  case LHandle
  then show ?thesis using run_pending [of s] by blast
next
  case LSwap
  define r where "r = s\<lparr>functors := pendingFunctors (lp s), lp := (lp s)\<lparr>pendingFunctors := []\<rparr>,
      pc := LRun, early := False, swapped := queued s\<rparr>"
  define e where "e = r\<lparr>functors := [], executed := executed r @ functors r\<rparr>"
  define t where "t = e\<lparr>lp := (lp e)\<lparr>callingPendingFunctors := False\<rparr>, pc := LCheck\<rparr>"
  have "loop_step s r" unfolding r_def by (rule l_swap [OF LSwap])
  moreover have "loop_step\<^sup>*\<^sup>* r e" unfolding e_def by (rule run_functors) (simp add: r_def)
  moreover have "loop_step e t" unfolding t_def by (rule l_end) (simp_all add: e_def r_def)
  ultimately have "loop_step\<^sup>*\<^sup>* s t" by (meson rtranclp.simps rtranclp_trans)
  moreover have "pc t = LCheck \<and> quit_flag (lp t) = quit_flag (lp s)"
    by (simp add: t_def e_def r_def)
  ultimately show ?thesis by blast
next
  case LRun
  define e where "e = s\<lparr>functors := [], executed := executed s @ functors s\<rparr>"
  define t where "t = e\<lparr>lp := (lp e)\<lparr>callingPendingFunctors := False\<rparr>, pc := LCheck\<rparr>"
  have "loop_step\<^sup>*\<^sup>* s e" unfolding e_def by (rule run_functors [OF LRun])
  moreover have "loop_step e t" unfolding t_def using LRun by (intro l_end) (simp_all add: e_def)
  ultimately have "loop_step\<^sup>*\<^sup>* s t" by (meson rtranclp.simps)
  moreover have "pc t = LCheck \<and> quit_flag (lp t) = quit_flag (lp s)"
    by (simp add: t_def e_def)
  ultimately show ?thesis by blast
qed (use assms in auto)

text \<open>Once \<open>quit_\<close> is set inside the loop it stays set, and the loop does not poll again.\<close>

lemma quit_step:
  "loop_step s t \<Longrightarrow> quit_flag (lp s) \<and> pc s \<noteq> LStart \<and> pc s \<noteq> LPoll \<Longrightarrow>
   quit_flag (lp t) \<and> pc t \<noteq> LStart \<and> pc t \<noteq> LPoll"
  by (induction rule: loop_step.induct) (auto simp: quit_def)

lemma quit_run:
  "loop_step\<^sup>*\<^sup>* s t \<Longrightarrow> quit_flag (lp s) \<and> pc s \<noteq> LStart \<and> pc s \<noteq> LPoll \<Longrightarrow>
   quit_flag (lp t) \<and> pc t \<noteq> LStart \<and> pc t \<noteq> LPoll"
  by (induction rule: rtranclp_induct) (auto dest: quit_step)

text \<open>A step that does not call \<open>quit()\<close>.\<close>

definition no_quit_step :: "'f loopsys \<Rightarrow> 'f loopsys \<Rightarrow> bool" where
  "no_quit_step s t \<longleftrightarrow> loop_step s t \<and> (quit_flag (lp t) \<longrightarrow> quit_flag (lp s))"

lemma no_quit_stays:
  "no_quit_step s t \<Longrightarrow> \<not> quit_flag (lp s) \<and> pc s \<noteq> LDone \<Longrightarrow>
   \<not> quit_flag (lp t) \<and> pc t \<noteq> LDone"
  unfolding no_quit_step_def by (erule conjE, erule loop_step.cases) auto

lemma no_quit_run:
  "no_quit_step\<^sup>*\<^sup>* s t \<Longrightarrow> \<not> quit_flag (lp s) \<and> pc s \<noteq> LDone \<Longrightarrow>
   \<not> quit_flag (lp t) \<and> pc t \<noteq> LDone"
  by (induction rule: rtranclp_induct) (auto dest: no_quit_stays)

text \<open>No run from the state leaves the loop without a further \<open>quit()\<close>.\<close>

definition never_ends :: "'f loopsys \<Rightarrow> bool" where
  "never_ends s \<longleftrightarrow>
     (\<forall>t. no_quit_step\<^sup>*\<^sup>* s t \<longrightarrow> \<not> quit_flag (lp t) \<and> pc t \<noteq> LDone)"

subsection \<open>Properties\<close>

text \<open>
  C19 (no lost wake-up). In every reachable state in which the loop's thread is about to wait
  in \<open>poll\<close> or waiting there, a pending task or a request to quit implies that the eventfd
  counter is not zero, so that \<open>epoll_wait\<close> returns at once, or that some thread is between
  publishing it and its \<open>wakeup()\<close>. The only tasks without this guarantee are those the
  loop's own thread queued before it called \<open>loop()\<close>.
\<close>

theorem no_lost_wakeup:
  assumes "reach loop_init loop_step s" "pc s = LPoll"
  shows "(pendingFunctors (lp s) \<noteq> [] \<and> \<not> early s \<longrightarrow> 0 < counter (lp s) \<or> 0 < waking s) \<and>
    (quit_flag (lp s) \<longrightarrow> 0 < counter (lp s) \<or> 0 < waking s)"
  using loop_invD [OF assms(1)] assms(2) by auto

definition sleeping :: "nat loopsys" where
  "sleeping = \<lparr>lp = start_loop EventLoop, pc = LPoll, wakeActive = False, functors = [],
     waking = 0, early = False, queued = [], executed = [], swapped = []\<rparr>"

lemma sleeping_reach: "reach loop_init loop_step sleeping"
proof -
  define a :: "nat loopsys" where "a = \<lparr>lp = EventLoop, pc = LStart, wakeActive = False,
    functors = [], waking = 0, early = False, queued = [], executed = [], swapped = []\<rparr>"
  have "reach loop_init loop_step a" by (rule reach_init) (simp add: loop_init_def a_def)
  then have "reach loop_init loop_step (a\<lparr>lp := start_loop (lp a), pc := LCheck\<rparr>)"
    by (rule reach_step) (rule l_start, simp add: a_def)
  then have "reach loop_init loop_step (a\<lparr>lp := start_loop (lp a), pc := LPoll\<rparr>)"
    by (rule reach_step) (use l_check [of "a\<lparr>lp := start_loop (lp a), pc := LCheck\<rparr>"] in simp)
  then show ?thesis by (simp add: a_def sleeping_def)
qed

theorem no_lost_wakeup_witness:
  "\<exists>s. reach loop_init loop_step s \<and> pc s = LPoll \<and> pendingFunctors (lp s) = [7::nat] \<and>
    \<not> early s \<and> (0 < counter (lp s) \<or> 0 < waking s)"
proof -
  define u where "u = sleeping\<lparr>lp := push 7 (lp sleeping), queued := queued sleeping @ [7],
    waking := waking sleeping + 1\<rparr>"
  have r: "reach loop_init loop_step u"
    unfolding u_def by (rule reach_step [OF sleeping_reach]) (rule t_push)
  have u: "pc u = LPoll" "pendingFunctors (lp u) = [7]" "\<not> early u"
    by (simp_all add: u_def sleeping_def push_def start_loop_def EventLoop_def)
  have "0 < counter (lp u) \<or> 0 < waking u" using no_lost_wakeup [OF r u(1)] u by simp
  then show ?thesis using r u by (intro exI [of _ u]) simp
qed

text \<open>
  C20 (every task runs exactly once, in order). In every reachable state, the tasks executed,
  the rest of the batch being executed and the pending tasks are, in this order, exactly the
  tasks queued so far, by whichever thread; and whenever the loop is back at the test of
  \<open>quit_\<close>, everything queued before the swap of the last round has been executed.
\<close>

theorem tasks_exactly_once:
  assumes "reach loop_init loop_step s"
  shows "executed s @ functors s @ pendingFunctors (lp s) = queued s \<and>
    (pc s = LCheck \<or> pc s = LPoll \<or> pc s = LDone \<longrightarrow> executed s = swapped s)"
proof (intro conjI impI)
  assume "pc s = LCheck \<or> pc s = LPoll \<or> pc s = LDone"
  then have "pc s \<noteq> LRun" by auto
  then show "executed s = swapped s" using loop_round [OF assms] loop_batch [OF assms] by simp
qed (rule loop_order [OF assms])

theorem tasks_exactly_once_witness:
  "\<exists>s. reach loop_init loop_step s \<and> executed s = [7::nat] \<and> functors s = [] \<and>
    pendingFunctors (lp s) = [] \<and> queued s = [7]"
proof -
  define u where "u = sleeping\<lparr>lp := push 7 (lp sleeping), queued := queued sleeping @ [7],
    waking := waking sleeping + 1\<rparr>"
  define h where "h = u\<lparr>pc := LHandle, wakeActive := False\<rparr>"
  have "reach loop_init loop_step u"
    unfolding u_def by (rule reach_step [OF sleeping_reach]) (rule t_push)
  then have h: "reach loop_init loop_step h"
    unfolding h_def by (rule reach_step) (rule l_poll, simp_all add: u_def sleeping_def)
  obtain t where t: "loop_step\<^sup>*\<^sup>* h t" "pc t = LCheck" "pendingFunctors (lp t) = []"
    "executed t = executed h @ pendingFunctors (lp h)"
    using run_pending [of h] by (auto simp: h_def)
  have r: "reach loop_init loop_step t" by (rule reach_run [OF h t(1)])
  have ex: "executed t = [7]"
    using t(4) by (simp add: h_def u_def sleeping_def push_def start_loop_def EventLoop_def)
  have "functors t = []" using loop_batch [OF r] t(2) by simp
  then have "queued t = [7]"
    using tasks_exactly_once [OF r, THEN conjunct1] t(3) ex by simp
  then show ?thesis using r ex t(3) \<open>functors t = []\<close> by blast
qed

text \<open>
  An iteration runs the pending tasks. From every state in which the poll has returned,
  the loop's thread alone reaches the next test of \<open>quit_\<close> having executed exactly the tasks
  that were pending, in order, and leaving none.
\<close>

lemma iteration_runs_pending:
  assumes "pc s = LPoll"
  shows "\<exists>h t. loop_step s h \<and> loop_step\<^sup>*\<^sup>* h t \<and> pc t = LCheck \<and>
    executed t = executed s @ pendingFunctors (lp s) \<and> pendingFunctors (lp t) = []"
proof -
  define h where "h = s\<lparr>pc := LHandle, wakeActive := False\<rparr>"
  have "loop_step s h" unfolding h_def by (rule l_poll [OF assms]) simp
  then show ?thesis using run_pending [of h] by (auto simp: h_def)
qed

lemma iteration_runs_pending_witness:
  "\<exists>s h t. pc s = LPoll \<and> pendingFunctors (lp s) = [1, 2::nat] \<and> loop_step s h \<and>
    loop_step\<^sup>*\<^sup>* h t \<and> executed t = [1, 2]"
proof -
  define s where "s = sleeping\<lparr>lp := push 2 (push 1 (lp sleeping))\<rparr>"
  have s: "pc s = LPoll" "pendingFunctors (lp s) = [1, 2]" "executed s = []"
    by (simp_all add: s_def sleeping_def push_def start_loop_def EventLoop_def)
  obtain h t where "loop_step s h" "loop_step\<^sup>*\<^sup>* h t" "executed t = [1, 2]"
    using iteration_runs_pending [OF s(1)] s by auto
  then show ?thesis using s by blast
qed

text \<open>
  C32 (a quit inside the loop ends it). Once \<open>quit_\<close> is set while the loop's thread is inside
  \<open>loop()\<close> and not in \<open>poll\<close>, it stays set, the loop never waits in \<open>poll\<close> again, whatever
  the other threads do, and its thread can go on to leave the loop.
\<close>

theorem quit_ends_loop:
  assumes "quit_flag (lp s)" "pc s \<noteq> LStart" "pc s \<noteq> LPoll" "loop_step\<^sup>*\<^sup>* s t"
  shows "quit_flag (lp t) \<and> pc t \<noteq> LPoll \<and> (\<exists>u. loop_step\<^sup>*\<^sup>* t u \<and> pc u = LDone)"
proof -
  have t: "quit_flag (lp t)" "pc t \<noteq> LStart" "pc t \<noteq> LPoll"
    using quit_run [OF assms(4)] assms(1-3) by auto
  have "\<exists>u. loop_step\<^sup>*\<^sup>* t u \<and> pc u = LDone"
  proof (cases "pc t = LDone")
    case False
    then obtain c where c: "loop_step\<^sup>*\<^sup>* t c" "pc c = LCheck" "quit_flag (lp c)"
      using run_to_check [OF t(2)] t(1) by blast
    then have "loop_step c (c\<lparr>lp := stop_loop (lp c), pc := LDone\<rparr>)" by (intro l_stop) auto
    then have "loop_step\<^sup>*\<^sup>* t (c\<lparr>lp := stop_loop (lp c), pc := LDone\<rparr>)"
      using c(1) by (rule_tac rtranclp.rtrancl_into_rtrancl)
    then show ?thesis by fastforce
  qed blast
  then show ?thesis using t by blast
qed

theorem quit_ends_loop_witness:
  "\<exists>u. loop_step\<^sup>*\<^sup>* (sleeping\<lparr>lp := quit True (lp sleeping), pc := LHandle\<rparr>) u \<and> pc u = LDone"
  using quit_ends_loop [of "sleeping\<lparr>lp := quit True (lp sleeping), pc := LHandle\<rparr>"]
  by (auto simp: quit_def)

text \<open>
  A quit before \<open>loop()\<close> is lost. There is a reachable state in which another thread has
  completed \<open>quit()\<close>, before the loop's thread called \<open>loop()\<close>, from which no run without a
  further \<open>quit()\<close> leaves the loop: \<open>loop()\<close> clears \<open>quit_\<close>.
\<close>

lemma early_quit_is_lost:
  "\<exists>q s :: nat loopsys. reach loop_init loop_step q \<and> pc q = LStart \<and>
    quit_flag (lp q) \<and> waking q = 0 \<and> lp q = quit False EventLoop \<and>
    loop_step q s \<and> never_ends s"
proof -
  define a :: "nat loopsys" where "a = \<lparr>lp = EventLoop, pc = LStart, wakeActive = False,
    functors = [], waking = 0, early = False, queued = [], executed = [], swapped = []\<rparr>"
  define b where "b = a\<lparr>lp := set_quit (lp a), waking := waking a + 1\<rparr>"
  define q where "q = b\<lparr>lp := wakeup (lp b), waking := waking b - 1\<rparr>"
  define s where "s = q\<lparr>lp := start_loop (lp q), pc := LCheck\<rparr>"
  have "reach loop_init loop_step a" by (rule reach_init) (simp add: loop_init_def a_def)
  then have "reach loop_init loop_step b" unfolding b_def by (rule reach_step) (rule t_quit)
  then have q: "reach loop_init loop_step q"
    unfolding q_def by (rule reach_step) (rule t_wakeup, simp add: b_def a_def)
  have s: "loop_step q s" unfolding s_def by (rule l_start) (simp add: q_def b_def a_def)
  have "never_ends s"
    using no_quit_run [of s] by (auto simp: s_def never_ends_def)
  moreover have "pc q = LStart \<and> quit_flag (lp q) \<and> waking q = 0 \<and> lp q = quit False EventLoop"
    by (simp add: q_def b_def a_def quit_def)
  ultimately show ?thesis using q s by blast
qed

text \<open>
  A failed wake-up is not reported. The test \<open>n < sizeof(one)\<close> compares as unsigned
  integers, so that the result \<open>-1\<close> of a failed \<open>write\<close> or \<open>read\<close> on the eventfd passes for a
  complete transfer: neither \<open>wakeup()\<close> nor \<open>handleRead()\<close> ever logs an error for it.
\<close>

lemma wakeup_failure_silent:
  "loopErrors (wakeup (l\<lparr>counter := eventfd_max\<rparr>)) = loopErrors l \<and>
   loopErrors (handleRead (l\<lparr>counter := 0\<rparr>)) = loopErrors l \<and>
   counter (wakeup (l\<lparr>counter := eventfd_max\<rparr>)) = eventfd_max"
proof -
  have "\<not> size_t_of (-1) < 8" using size_t_of_neg [of "-1"] by simp
  then show ?thesis by (simp add: wakeup_def handleRead_def check_transfer_def)
qed

end
