(* ===== verification/LoopThreads.thy ===== *)
theory LoopThreads
  imports EventLoops Timestamps
begin

text \<open>
  \<open>CurrentThread\<close>, \<open>class Thread\<close>, \<open>class EventLoopThread\<close> and \<open>class EventLoopThreadPool\<close>
  (include/ and src/): the cached thread id, the naming and the flags of a thread, the
  hand-over of a loop from the thread that runs it to the thread that started it, its
  destruction, and the round robin over the loops of a pool.
\<close>

subsection \<open>\<open>CurrentThread\<close> and \<open>Thread\<close>\<close>

text \<open>\<open>t_cachedTid\<close> of the calling thread is passed in and out; \<open>gettid\<close> is the kernel's.\<close>

definition cacheTid :: "int \<Rightarrow> int \<Rightarrow> int" where
  "cacheTid gettid t_cachedTid = (if t_cachedTid = 0 then gettid else t_cachedTid)"

definition tid :: "int \<Rightarrow> int \<Rightarrow> int \<times> int" where
  "tid gettid t_cachedTid =
     (let t = (if t_cachedTid = 0 then cacheTid gettid t_cachedTid else t_cachedTid) in (t, t))"

record thread =
  thStarted :: bool
  thJoined :: bool
  thTid :: int
  thName :: string

definition setDefaultName :: "int \<Rightarrow> thread \<Rightarrow> thread" where
  "setDefaultName numCreated t =
     (if thName t = []
      then t\<lparr>thName := c_str (snprintf 32 (''Thread'' @ decimal numCreated) (replicate 32 NUL))\<rparr>
      else t)"

text \<open>The constructor gets and returns the static counter \<open>numCreated_\<close>.\<close>

definition Thread :: "string \<Rightarrow> int \<Rightarrow> thread \<times> int" where
  "Thread name numCreated =
     (setDefaultName (numCreated + 1)
        \<lparr>thStarted = False, thJoined = False, thTid = 0, thName = name\<rparr>, numCreated + 1)"

definition Thread_start :: "int \<Rightarrow> thread \<Rightarrow> thread" where
  "Thread_start child_tid t = t\<lparr>thStarted := True, thTid := child_tid\<rparr>"

text \<open>\<open>join\<close> of a thread that was not started, or a second one, does not return normally.\<close>

definition Thread_join :: "thread \<Rightarrow> thread option" where
  "Thread_join t = (if thStarted t \<and> \<not> thJoined t then Some (t\<lparr>thJoined := True\<rparr>) else None)"

definition Thread_detaches :: "thread \<Rightarrow> bool" where
  "Thread_detaches t \<longleftrightarrow> thStarted t \<and> \<not> thJoined t"

subsection \<open>\<open>EventLoopThread\<close>\<close>

text \<open>
  The child: not started, loop constructed and initialisation callback running, loop
  published in \<open>loop_\<close> and running \<open>loop()\<close>, ended with its stack, loop included, gone. The
  parent: before and in \<open>startLoop\<close>, holding the loop it returned, in the destructor between
  \<open>quit_=true\<close> and \<open>wakeup()\<close>, in \<open>join\<close>, done; \<open>PFault\<close> is the parent that has used the
  loop after it was destroyed, whose behaviour C++ does not define.
\<close>

datatype child_pc = CNone | CInit | CLoop | CEnd
datatype parent_pc = PIdle | PWait | PHas | PWake | PJoin | PGone | PFault

record 'f elthread =
  child :: child_pc
  parent :: parent_pc
  loopSys :: "'f loopsys"
  loopPtr :: bool
  exiting :: bool

definition new_loop :: "'f loopsys" where
  "new_loop = \<lparr>lp = EventLoop, pc = LStart, wakeActive = False, functors = [],
     waking = 0, early = False, queued = [], executed = [], swapped = []\<rparr>"

definition EventLoopThread :: "'f elthread \<Rightarrow> bool" where
  "EventLoopThread e \<longleftrightarrow> e = \<lparr>child = CNone, parent = PIdle, loopSys = new_loop,
     loopPtr = False, exiting = False\<rparr>"

text \<open>The destructor with a loop to end, up to the \<open>quit_=true\<close> in \<open>quit()\<close>.\<close>

definition destroying :: "'f elthread \<Rightarrow> 'f elthread" where
  "destroying e = e\<lparr>parent := PWake, exiting := True,
     loopSys := (loopSys e)\<lparr>lp := set_quit (lp (loopSys e))\<rparr>\<rparr>"

text \<open>
  The tasks the loop runs do not call \<open>quit()\<close> (\<open>no_quit_step\<close>), so that the destructor is
  the only one who does. \<open>wakeup()\<close> touches the loop through the pointer read before: it is
  \<open>p_wakeup\<close> while the loop lives and \<open>p_fault\<close> when the child has ended and the loop, a local
  variable of its thread function, is gone.
\<close>

inductive elt_step :: "'f elthread \<Rightarrow> 'f elthread \<Rightarrow> bool" where
  p_start: "parent e = PIdle \<Longrightarrow>
    elt_step e (e\<lparr>parent := PWait, child := CInit\<rparr>)"
| c_publish: "child e = CInit \<Longrightarrow>
    elt_step e (e\<lparr>child := CLoop, loopPtr := True\<rparr>)"
| p_return: "parent e = PWait \<Longrightarrow> loopPtr e \<Longrightarrow>
    elt_step e (e\<lparr>parent := PHas\<rparr>)"
| c_loop: "child e = CLoop \<Longrightarrow> no_quit_step (loopSys e) l \<Longrightarrow>
    elt_step e (e\<lparr>loopSys := l\<rparr>)"
| c_end: "child e = CLoop \<Longrightarrow> pc (loopSys e) = LDone \<Longrightarrow>
    elt_step e (e\<lparr>child := CEnd, loopPtr := False\<rparr>)"
| p_destroy: "parent e = PHas \<Longrightarrow> loopPtr e \<Longrightarrow>
    elt_step e (destroying e)"
| p_wakeup: "parent e = PWake \<Longrightarrow> child e \<noteq> CEnd \<Longrightarrow>
    elt_step e (e\<lparr>parent := PJoin,
      loopSys := (loopSys e)\<lparr>lp := wakeup (lp (loopSys e))\<rparr>\<rparr>)"
| p_fault: "parent e = PWake \<Longrightarrow> child e = CEnd \<Longrightarrow>
    elt_step e (e\<lparr>parent := PFault\<rparr>)"
| p_join: "parent e = PJoin \<Longrightarrow> child e = CEnd \<Longrightarrow>
    elt_step e (e\<lparr>parent := PGone\<rparr>)"

inductive_cases elt_stepE: "elt_step e f"

text \<open>While the parent has not begun the destructor the loop it holds is alive.\<close>

definition elt_inv :: "'f elthread \<Rightarrow> bool" where
  "elt_inv e \<longleftrightarrow>
     (parent e = PIdle \<or> parent e = PWait \<or> parent e = PHas \<longrightarrow>
        pc (loopSys e) \<noteq> LDone \<and> child e \<noteq> CEnd \<and>
        (pc (loopSys e) \<noteq> LStart \<longrightarrow> \<not> quit_flag (lp (loopSys e)))) \<and>
     (loopPtr e \<longleftrightarrow> child e = CLoop) \<and>
     (parent e = PIdle \<longleftrightarrow> child e = CNone) \<and>
     (parent e = PHas \<longrightarrow> loopPtr e)"

lemma no_quit_pc:
  assumes "no_quit_step s t" "pc s \<noteq> LDone" "pc s \<noteq> LStart \<longrightarrow> \<not> quit_flag (lp s)"
  shows "pc t \<noteq> LDone \<and> (pc t \<noteq> LStart \<longrightarrow> \<not> quit_flag (lp t))"
  using assms unfolding no_quit_step_def by (elim conjE, elim loop_step.cases) auto

lemma elt_inv_step: "elt_step e f \<Longrightarrow> elt_inv e \<Longrightarrow> elt_inv f"
  unfolding elt_inv_def
  by (erule elt_step.cases; elim conjE; intro conjI; auto simp: destroying_def dest: no_quit_pc)

interpretation et: invariant_system EventLoopThread elt_step elt_inv
  by unfold_locales
    (simp add: EventLoopThread_def elt_inv_def new_loop_def EventLoop_def, rule elt_inv_step)

lemma elt_then: "elt_step s t \<Longrightarrow> elt_step\<^sup>*\<^sup>* t u \<Longrightarrow> elt_step\<^sup>*\<^sup>* s u"
  by (rule converse_rtranclp_into_rtranclp)

text \<open>The loop of a thread in \<open>loop()\<close> runs on its own.\<close>

lemma elt_loop_run:
  "no_quit_step\<^sup>*\<^sup>* (loopSys e) l \<Longrightarrow> child e = CLoop \<Longrightarrow> elt_step\<^sup>*\<^sup>* e (e\<lparr>loopSys := l\<rparr>)"
proof (induction rule: rtranclp_induct)
  case base
  then show ?case by simp
next
  case (step y z)
  then have "elt_step (e\<lparr>loopSys := y\<rparr>) (e\<lparr>loopSys := y\<rparr>\<lparr>loopSys := z\<rparr>)"
    by (intro c_loop) auto
  then show ?case using step by (simp add: rtranclp.rtrancl_into_rtrancl)
qed

text \<open>Steps of a loop that is already to stop are not calls of \<open>quit()\<close>.\<close>

lemma quitting_run:
  assumes "loop_step\<^sup>*\<^sup>* s t" "quit_flag (lp s)" "pc s \<noteq> LStart"
  shows "no_quit_step\<^sup>*\<^sup>* s t \<and> quit_flag (lp t) \<and> pc t \<noteq> LStart"
  using assms
proof (induction rule: rtranclp_induct)
  case (step y z)
  then have "quit_flag (lp z) \<and> pc z \<noteq> LStart"
    by (auto elim!: loop_step.cases simp: quit_def)
  then show ?case using step
    by (auto simp: no_quit_step_def intro: rtranclp.rtrancl_into_rtrancl)
qed simp

lemma reach_then: "reach i st s \<Longrightarrow> st s t \<Longrightarrow> reach i st t"
  by (rule reach.reach_step)

text \<open>The parent holds a loop that has not started to loop.\<close>

definition handed_over :: "'f elthread" where
  "handed_over = \<lparr>child = CLoop, parent = PHas, loopSys = new_loop, loopPtr = True, exiting = False\<rparr>"

lemma handed_over_reach: "reach EventLoopThread elt_step handed_over"
proof -
  define a :: "'a elthread" where
    "a = \<lparr>child = CNone, parent = PIdle, loopSys = new_loop, loopPtr = False, exiting = False\<rparr>"
  have "reach EventLoopThread elt_step a" by (rule reach_init) (simp add: EventLoopThread_def a_def)
  moreover have "elt_step a (a\<lparr>parent := PWait, child := CInit\<rparr>)"
    by (rule p_start) (simp add: a_def)
  moreover have "elt_step (a\<lparr>parent := PWait, child := CInit\<rparr>)
      (a\<lparr>parent := PWait, child := CLoop, loopPtr := True\<rparr>)"
    using c_publish [of "a\<lparr>parent := PWait, child := CInit\<rparr>"] by simp
  moreover have "elt_step (a\<lparr>parent := PWait, child := CLoop, loopPtr := True\<rparr>) handed_over"
    using p_return [of "a\<lparr>parent := PWait, child := CLoop, loopPtr := True\<rparr>"]
    by (simp add: a_def handed_over_def)
  ultimately show ?thesis by (blast intro: reach_then)
qed

text \<open>Destruction of a looping thread: what holds from then on, and how it ends.\<close>

definition ending :: "'f elthread \<Rightarrow> bool" where
  "ending e \<longleftrightarrow> (parent e = PWake \<or> parent e = PJoin \<or> parent e = PGone \<or> parent e = PFault) \<and>
     (child e = CLoop \<or> child e = CEnd) \<and> quit_flag (lp (loopSys e)) \<and> pc (loopSys e) \<noteq> LStart"

lemma ending_step: "elt_step e f \<Longrightarrow> ending e \<Longrightarrow> ending f"
proof (induction rule: elt_step.induct)
  case (c_loop e l)
  then have "quit_flag (lp l) \<and> pc l \<noteq> LStart"
    using quitting_run [of "loopSys e" l] by (auto simp: ending_def no_quit_step_def)
  then show ?case using c_loop by (simp add: ending_def)
qed (auto simp: ending_def destroying_def)

lemma ending_run: "elt_step\<^sup>*\<^sup>* e f \<Longrightarrow> ending e \<Longrightarrow> ending f"
  by (induction rule: rtranclp_induct) (auto dest: ending_step)

lemma ending_child:
  assumes "ending e"
  shows "\<exists>f. elt_step\<^sup>*\<^sup>* e f \<and> child f = CEnd \<and> parent f = parent e"
proof (cases "child e = CEnd")
  case False
  then have cl: "child e = CLoop" and q: "quit_flag (lp (loopSys e))" "pc (loopSys e) \<noteq> LStart"
    using assms by (auto simp: ending_def)
  obtain l where l: "loop_step\<^sup>*\<^sup>* (loopSys e) l" "pc l = LDone"
  proof (cases "pc (loopSys e) = LDone")
    case False
    obtain c where c: "loop_step\<^sup>*\<^sup>* (loopSys e) c" "pc c = LCheck" "quit_flag (lp c)"
      using run_to_check [OF q(2) False] q(1) by blast
    have "loop_step c (c\<lparr>lp := stop_loop (lp c), pc := LDone\<rparr>)" by (rule l_stop [OF c(2,3)])
    then show ?thesis using that [of "c\<lparr>lp := stop_loop (lp c), pc := LDone\<rparr>"] c(1)
      by (simp add: rtranclp.rtrancl_into_rtrancl)
  qed blast
  have "elt_step\<^sup>*\<^sup>* e (e\<lparr>loopSys := l\<rparr>)"
    using quitting_run [OF l(1) q] cl by (intro elt_loop_run) auto
  moreover have "elt_step (e\<lparr>loopSys := l\<rparr>) (e\<lparr>loopSys := l\<rparr>\<lparr>child := CEnd, loopPtr := False\<rparr>)"
    using cl l(2) by (intro c_end) auto
  ultimately have "elt_step\<^sup>*\<^sup>* e (e\<lparr>loopSys := l, child := CEnd, loopPtr := False\<rparr>)"
    by (simp add: rtranclp.rtrancl_into_rtrancl)
  then show ?thesis by fastforce
qed blast

text \<open>The wake-up still to come, or already tried, finds no loop.\<close>

definition loop_lost :: "'f elthread \<Rightarrow> bool" where
  "loop_lost e \<longleftrightarrow> parent e = PFault \<or> parent e = PWake \<and> child e = CEnd"

lemma loop_lost_step: "elt_step e f \<Longrightarrow> loop_lost e \<Longrightarrow> loop_lost f"
  by (erule elt_stepE) (auto simp: loop_lost_def destroying_def)

lemma loop_lost_run: "elt_step\<^sup>*\<^sup>* e f \<Longrightarrow> loop_lost e \<Longrightarrow> loop_lost f"
  by (induction rule: rtranclp_induct) (auto dest: loop_lost_step)

lemma join_ends:
  assumes "ending e" "parent e = PJoin"
  shows "\<exists>g. elt_step\<^sup>*\<^sup>* e g \<and> parent g = PGone"
proof -
  obtain f where f: "elt_step\<^sup>*\<^sup>* e f" "child f = CEnd" "parent f = PJoin"
    using ending_child [OF assms(1)] assms(2) by auto
  have "elt_step f (f\<lparr>parent := PGone\<rparr>)" by (rule p_join [OF f(3,2)])
  with f(1) have "elt_step\<^sup>*\<^sup>* e (f\<lparr>parent := PGone\<rparr>)" by (rule rtranclp.rtrancl_into_rtrancl)
  then show ?thesis by fastforce
qed

lemma wake_ends:
  assumes "ending e" "parent e = PWake" "child e \<noteq> CEnd"
  shows "\<exists>g. elt_step\<^sup>*\<^sup>* e g \<and> parent g = PGone"
proof -
  define w where "w = e\<lparr>parent := PJoin, loopSys := (loopSys e)\<lparr>lp := wakeup (lp (loopSys e))\<rparr>\<rparr>"
  have s: "elt_step e w" unfolding w_def by (rule p_wakeup [OF assms(2,3)])
  have "ending w" by (rule ending_step [OF s assms(1)])
  then obtain g where "elt_step\<^sup>*\<^sup>* w g" "parent g = PGone"
    using join_ends [of w] by (auto simp: w_def)
  then show ?thesis using elt_then [OF s] by blast
qed

text \<open>Every run from the state stays in \<open>join\<close>.\<close>

definition joins_forever :: "'f elthread \<Rightarrow> bool" where
  "joins_forever e \<longleftrightarrow> (\<forall>f. elt_step\<^sup>*\<^sup>* e f \<longrightarrow> parent f = PJoin)"

subsection \<open>Properties of the hand-over\<close>

text \<open>
  \<open>startLoop\<close> returns a live loop. Whenever \<open>startLoop\<close> has returned and the destructor has
  not begun, the child thread is alive in \<open>loop()\<close>, \<open>loop_\<close> points to its loop, and that loop
  has not ended, nor, once it runs, been asked to.
\<close>

lemma startLoop_live:
  assumes "reach EventLoopThread elt_step e" "parent e = PHas"
  shows "child e = CLoop \<and> loopPtr e \<and> pc (loopSys e) \<noteq> LDone \<and>
    (pc (loopSys e) \<noteq> LStart \<longrightarrow> \<not> quit_flag (lp (loopSys e)))"
  using et.reach_inv [OF assms(1)] assms(2) by (auto simp: elt_inv_def)

lemma startLoop_live_witness:
  "\<exists>e :: nat elthread. reach EventLoopThread elt_step e \<and> parent e = PHas \<and> child e = CLoop"
proof -
  have p: "parent (handed_over :: nat elthread) = PHas" by (simp add: handed_over_def)
  show ?thesis using startLoop_live [OF handed_over_reach p] p handed_over_reach by blast
qed

text \<open>
  C33 (when destroying a looping thread ends). The destructor of an \<open>EventLoopThread\<close> runs
  while its loop is inside \<open>loop()\<close>. From a state that the two threads get to from there
  \<open>join\<close> can return exactly when the parent has not used, and is not about to use, the loop
  of a child that has already ended: once \<open>wakeup()\<close> was in time the child can always end and
  the destructor return, and until then it can as long as the child lives.
\<close>

theorem destroy_looping_joins:
  assumes "parent e = PHas" "child e = CLoop" "pc (loopSys e) \<noteq> LStart"
    and "elt_step\<^sup>*\<^sup>* (destroying e) f"
  shows "(\<exists>g. elt_step\<^sup>*\<^sup>* f g \<and> parent g = PGone) \<longleftrightarrow>
    \<not> (parent f = PFault \<or> parent f = PWake \<and> child f = CEnd)"
proof -
  have "ending (destroying e)" using assms(1-3) by (simp add: destroying_def ending_def)
  then have f: "ending f" by (rule ending_run [OF assms(4)])
  have "\<exists>g. elt_step\<^sup>*\<^sup>* f g \<and> parent g = PGone" if n: "\<not> loop_lost f"
  proof -
    consider "parent f = PWake" "child f \<noteq> CEnd" | "parent f = PJoin" | "parent f = PGone"
      using f n by (auto simp: ending_def loop_lost_def)
    then show ?thesis by cases (auto intro: wake_ends [OF f] join_ends [OF f])
  qed
  moreover have "parent g \<noteq> PGone" if "loop_lost f" "elt_step\<^sup>*\<^sup>* f g" for g
    using loop_lost_run [OF that(2,1)] by (auto simp: loop_lost_def)
  ultimately show ?thesis unfolding loop_lost_def by blast
qed

theorem destroy_looping_joins_witness:
  "\<exists>g. elt_step\<^sup>*\<^sup>* (destroying (handed_over\<lparr>loopSys := sleeping\<rparr>)) g \<and> parent g = PGone"
  using destroy_looping_joins [of "handed_over\<lparr>loopSys := sleeping\<rparr>"
      "destroying (handed_over\<lparr>loopSys := sleeping\<rparr>)"]
  by (simp add: handed_over_def sleeping_def destroying_def)

text \<open>
  C34 (destroying a thread just after \<open>startLoop\<close> can hang). \<open>startLoop\<close> returns when the child
  has published its loop, before it calls \<open>loop()\<close>. A destructor that runs then loses its
  \<open>quit()\<close>: there is a reachable state in \<open>join\<close> from which every run stays in \<open>join\<close>.
\<close>

theorem destroy_can_hang:
  "\<exists>e :: nat elthread. reach EventLoopThread elt_step e \<and> parent e = PJoin \<and>
     joins_forever e"
proof -
  define d where "d = destroying (handed_over :: nat elthread)"
  define w where "w = d\<lparr>parent := PJoin, loopSys := (loopSys d)\<lparr>lp := wakeup (lp (loopSys d))\<rparr>\<rparr>"
  define l where "l = (loopSys w)\<lparr>lp := start_loop (lp (loopSys w)), pc := LCheck\<rparr>"
  define e where "e = w\<lparr>loopSys := l\<rparr>"
  have d: "elt_step handed_over d"
    unfolding d_def by (rule p_destroy) (simp_all add: handed_over_def)
  have w: "elt_step d w" unfolding w_def
    by (rule p_wakeup) (simp_all add: d_def destroying_def handed_over_def)
  have "loop_step (loopSys w) l"
    unfolding l_def
    by (rule l_start) (simp add: w_def d_def destroying_def handed_over_def new_loop_def)
  then have "elt_step w e" unfolding e_def
    by (intro c_loop) (simp_all add: no_quit_step_def w_def d_def destroying_def handed_over_def l_def)
  then have e: "reach EventLoopThread elt_step e"
    using d w handed_over_reach by (blast intro: reach_then)
  define stuck where "stuck f \<longleftrightarrow> parent f = PJoin \<and> child f = CLoop \<and>
      \<not> quit_flag (lp (loopSys f)) \<and> pc (loopSys f) \<noteq> LDone" for f :: "nat elthread"
  have step: "stuck f \<Longrightarrow> elt_step f g \<Longrightarrow> stuck g" for f g
    by (erule elt_stepE) (auto simp: stuck_def dest: no_quit_stays)
  have st: "stuck e"
    by (simp add: stuck_def e_def l_def w_def d_def destroying_def handed_over_def)
  have "elt_step\<^sup>*\<^sup>* e f \<Longrightarrow> stuck f" for f
    by (induction rule: rtranclp_induct) (auto intro: st step)
  then have "joins_forever e" by (auto simp: stuck_def joins_forever_def)
  then show ?thesis using e st by (auto simp: stuck_def)
qed

text \<open>
  The destructor can touch a loop that is gone. Between setting \<open>quit_\<close> and calling
  \<open>wakeup()\<close> the child can leave its loop and end, and the loop, a local variable of its
  thread function, with it: \<open>wakeup()\<close> on the destroyed loop is a reachable step.
\<close>

lemma destroy_use_after_free:
  "\<exists>e :: nat elthread. reach EventLoopThread elt_step e \<and> parent e = PFault"
proof -
  define h where "h = (handed_over :: nat elthread)\<lparr>loopSys := new_loop\<lparr>lp := start_loop EventLoop,
    pc := LCheck\<rparr>\<rparr>"
  have "loop_step new_loop (new_loop\<lparr>lp := start_loop EventLoop, pc := LCheck\<rparr> :: nat loopsys)"
    using l_start [of "new_loop :: nat loopsys"] by (simp add: new_loop_def)
  then have "elt_step handed_over h" unfolding h_def
    by (intro c_loop) (simp_all add: handed_over_def no_quit_step_def)
  moreover have "elt_step h (destroying h)"
    by (rule p_destroy) (simp_all add: h_def handed_over_def)
  ultimately have d: "reach EventLoopThread elt_step (destroying h)"
    using handed_over_reach by (blast intro: reach_then)
  have "ending (destroying h)" by (simp add: ending_def destroying_def h_def handed_over_def)
  then obtain e where e: "elt_step\<^sup>*\<^sup>* (destroying h) e" "child e = CEnd" "parent e = PWake"
    using ending_child [of "destroying h"] by (auto simp: destroying_def)
  have "elt_step e (e\<lparr>parent := PFault\<rparr>)" by (rule p_fault [OF e(3,2)])
  moreover have "reach EventLoopThread elt_step e" by (rule reach_run [OF d e(1)])
  ultimately have "reach EventLoopThread elt_step (e\<lparr>parent := PFault\<rparr>)" by (blast intro: reach_then)
  then show ?thesis by fastforce
qed

subsection \<open>\<open>EventLoopThreadPool\<close>\<close>

record 'l elpool =
  baseLoop :: 'l
  poolName :: string
  poolStarted :: bool
  numThreads :: int
  nextIx :: nat
  loops :: "'l list"
  threadNames :: "string list"

text \<open>
  The constructor's initialiser is \<open>baseLoop_(baseLoop_)\<close>, the member itself: the parameter
  \<open>baseLoop\<close> is not used, and \<open>indeterminate\<close> is whatever the member holds.
\<close>

definition EventLoopThreadPool :: "'l \<Rightarrow> 'l \<Rightarrow> string \<Rightarrow> 'l elpool" where
  "EventLoopThreadPool indeterminate base name =
     \<lparr>baseLoop = indeterminate, poolName = name, poolStarted = False, numThreads = 0,
      nextIx = 0, loops = [], threadNames = []\<rparr>"

definition setThreadNum :: "int \<Rightarrow> 'l elpool \<Rightarrow> 'l elpool" where
  "setThreadNum n p = p\<lparr>numThreads := n\<rparr>"

text \<open>\<open>char buf[32 + name_.size()]\<close> with \<open>snprintf(buf, sizeof(buf), "%s%d", ...)\<close>.\<close>

definition thread_name :: "string \<Rightarrow> int \<Rightarrow> string" where
  "thread_name name i =
     (let n = 32 + length name
      in c_str (snprintf n (c_str name @ decimal i) (replicate n NUL)))"

text \<open>
  \<open>start\<close>: \<open>startLoop i\<close> is the loop the i-th thread returns; the second result lists the
  loops the initialisation callback is called with in the starting thread.
\<close>

fun start_threads :: "(int \<Rightarrow> 'l) \<Rightarrow> nat \<Rightarrow> int \<Rightarrow> 'l elpool \<Rightarrow> 'l elpool" where
  "start_threads startLoop 0 i p = p"
| "start_threads startLoop (Suc k) i p =
     start_threads startLoop k (i + 1)
       (p\<lparr>threadNames := threadNames p @ [thread_name (poolName p) i],
          loops := loops p @ [startLoop i]\<rparr>)"

definition pool_start :: "(int \<Rightarrow> 'l) \<Rightarrow> bool \<Rightarrow> 'l elpool \<Rightarrow> 'l elpool \<times> 'l list" where
  "pool_start startLoop cb p =
     (let p1 = start_threads startLoop (nat (numThreads p)) 0 (p\<lparr>poolStarted := True\<rparr>)
      in (p1, if numThreads p = 0 \<and> cb then [baseLoop p1] else []))"

definition getNextLoop :: "'l elpool \<Rightarrow> 'l \<times> 'l elpool" where
  "getNextLoop p =
     (if loops p = [] then (baseLoop p, p)
      else let n = nextIx p + 1
           in (loops p ! nextIx p, p\<lparr>nextIx := if length (loops p) \<le> n then 0 else n\<rparr>))"

definition getAllLoops :: "'l elpool \<Rightarrow> 'l list" where
  "getAllLoops p = (if loops p = [] then [baseLoop p] else loops p)"

fun take_loops :: "nat \<Rightarrow> 'l elpool \<Rightarrow> 'l list \<times> 'l elpool" where
  "take_loops 0 p = ([], p)"
| "take_loops (Suc k) p =
     (let (l, p1) = getNextLoop p; (ls, p2) = take_loops k p1 in (l # ls, p2))"

definition pool_ok :: "'l elpool \<Rightarrow> bool" where
  "pool_ok p \<longleftrightarrow> loops p = [] \<or> nextIx p < length (loops p)"

lemma start_threads_sel:
  "loops (start_threads f k i p) = loops p @ map (\<lambda>j. f (i + int j)) [0..<k] \<and>
   threadNames (start_threads f k i p) =
     threadNames p @ map (\<lambda>j. thread_name (poolName p) (i + int j)) [0..<k] \<and>
   baseLoop (start_threads f k i p) = baseLoop p \<and> nextIx (start_threads f k i p) = nextIx p \<and>
   poolStarted (start_threads f k i p) = poolStarted p"
proof (induction k arbitrary: i p)
  case (Suc k)
  then show ?case by (simp add: map_upt_Suc algebra_simps del: upt_Suc)
qed simp

lemma getNextLoop_index:
  assumes "loops p \<noteq> []" "pool_ok p"
  shows "getNextLoop p = (loops p ! nextIx p, p\<lparr>nextIx := (nextIx p + 1) mod length (loops p)\<rparr>)"
proof -
  have "nextIx p < length (loops p)" using assms by (simp add: pool_ok_def)
  then have "(nextIx p + 1) mod length (loops p) =
      (if length (loops p) \<le> nextIx p + 1 then 0 else nextIx p + 1)" by (auto simp: mod_if)
  then show ?thesis using assms(1) by (simp add: getNextLoop_def Let_def)
qed

lemma take_loops_index:
  assumes "loops p \<noteq> []" "pool_ok p"
  shows "take_loops k p =
    (map (\<lambda>j. loops p ! ((nextIx p + j) mod length (loops p))) [0..<k],
     p\<lparr>nextIx := (nextIx p + k) mod length (loops p)\<rparr>)"
  using assms
proof (induction k arbitrary: p)
  case 0
  then show ?case by (simp add: pool_ok_def)
next
  case (Suc k)
  define q where "q = p\<lparr>nextIx := (nextIx p + 1) mod length (loops p)\<rparr>"
  have q: "loops q \<noteq> []" "pool_ok q" "loops q = loops p" using Suc.prems by (auto simp: q_def pool_ok_def)
  have "nextIx p mod length (loops p) = nextIx p" using Suc.prems by (simp add: pool_ok_def)
  then show ?case
    using Suc.IH [OF q(1,2)] getNextLoop_index [OF Suc.prems, folded q_def]
    by (simp add: q_def mod_add_left_eq map_upt_Suc del: upt_Suc)
qed

lemma thread_name_full:
  assumes "NUL \<notin> set name" "\<bar>i\<bar> < 2 ^ 64"
  shows "thread_name name i = name @ decimal i"
proof -
  have "c_str name = name" using assms(1) by (auto simp: c_str_def takeWhile_eq_all_conv)
  moreover have "NUL \<notin> set (name @ decimal i)"
    using assms(1) NUL_notin_dec by (auto simp: decimal_def NUL_def)
  moreover have "length (name @ decimal i) \<le> 31 + length name"
    using length_decimal [OF assms(2)] by simp
  ultimately show ?thesis
    using c_str_snprintf [of "name @ decimal i" "31 + length name"]
    by (simp add: thread_name_def Let_def)
qed

lemma pool_started:
  assumes "0 < n"
  shows "let p = fst (pool_start f cb (setThreadNum n (EventLoopThreadPool junk base name)))
    in loops p = map (\<lambda>j. f (int j)) [0..<nat n] \<and> nextIx p = 0 \<and>
       threadNames p = map (\<lambda>j. thread_name name (int j)) [0..<nat n]"
  using assms start_threads_sel [of f "nat n" 0]
  by (simp add: pool_start_def setThreadNum_def EventLoopThreadPool_def Let_def)

subsection \<open>Properties of the pool\<close>

text \<open>
  Round robin. After a start with \<open>n > 0\<close> threads, the k-th loop handed out is the loop
  of thread \<open>k mod n\<close>, for every k, and the initialisation callback is not called in the
  starting thread; any \<open>n\<close> consecutive calls hand out each of the \<open>n\<close> loops, and leave the
  pool as it was.
\<close>

lemma pool_round_robin:
  assumes "0 < n" "p = fst (pool_start f cb (setThreadNum n (EventLoopThreadPool junk base name)))"
  shows "fst (take_loops k p) = map (\<lambda>j. f (int (j mod nat n))) [0..<k] \<and>
    getAllLoops p = map (\<lambda>j. f (int j)) [0..<nat n] \<and>
    fst (take_loops (nat n) (snd (take_loops k p))) = rotate k (getAllLoops p) \<and>
    snd (take_loops (nat n) p) = p"
proof -
  have p: "loops p = map (\<lambda>j. f (int j)) [0..<nat n]" "nextIx p = 0"
    using pool_started [OF assms(1), of f cb junk base name] by (simp_all add: assms(2) Let_def)
  have ne: "loops p \<noteq> []" and len: "length (loops p) = nat n" using assms(1) p(1) by auto
  have ok: "pool_ok p" using ne by (simp add: pool_ok_def p(2))
  define q where "q = p\<lparr>nextIx := k mod nat n\<rparr>"
  have q: "loops q = loops p" "nextIx q = k mod nat n" "pool_ok q"
    using assms(1) len by (simp_all add: q_def pool_ok_def)
  have "snd (take_loops k p) = q"
    using take_loops_index [OF ne ok] by (simp add: q_def len p(2))
  moreover have "fst (take_loops (nat n) q) = rotate k (loops p)"
  proof -
    have "loops q \<noteq> []" using q(1) ne by simp
    then have "fst (take_loops (nat n) q) =
        map (\<lambda>j. loops p ! ((k mod nat n + j) mod nat n)) [0..<nat n]"
      using take_loops_index [of q] q len by simp
    also have "\<dots> = rotate k (loops p)"
      by (rule nth_equalityI) (simp_all add: len nth_rotate mod_add_right_eq add.commute)
    finally show ?thesis .
  qed
  moreover have "snd (take_loops (nat n) p) = p"
    using take_loops_index [OF ne ok] len p(2) by simp
  moreover have "getAllLoops p = loops p" using ne by (simp add: getAllLoops_def)
  moreover have "fst (take_loops k p) = map (\<lambda>j. f (int (j mod nat n))) [0..<k]"
  proof -
    have "loops p ! (j mod nat n) = f (int (j mod nat n))" for j
    proof -
      have "j mod nat n < nat n" using assms(1) by simp
      then show ?thesis by (simp add: p(1))
    qed
    then show ?thesis using take_loops_index [OF ne ok] by (simp add: len p(2))
  qed
  ultimately show ?thesis using p(1) by simp
qed

lemma pool_round_robin_witness:
  "fst (take_loops 7 (fst (pool_start (\<lambda>i. i + 100) False (setThreadNum 3
     (EventLoopThreadPool (0::int) 0 ''EchoServer''))))) = [100, 101, 102, 100, 101, 102, 100]"
  using pool_round_robin [of 3 _ "\<lambda>i. i + 100" False "0::int" 0 "''EchoServer''" 7, OF _ refl]
  by (simp add: upt_rec)

text \<open>
  A pool without threads hands out an indeterminate pointer. With no threads set, every
  call of \<open>getNextLoop\<close>, every element of \<open>getAllLoops\<close> and the argument of the initialisation
  callback is the indeterminate value of \<open>baseLoop_\<close>, whatever loop the constructor was given.
\<close>

lemma pool_without_threads:
  "let r = pool_start f True (EventLoopThreadPool junk base name)
   in getNextLoop (fst r) = (junk, fst r) \<and> getAllLoops (fst r) = [junk] \<and> snd r = [junk]"
  by (simp add: pool_start_def EventLoopThreadPool_def getNextLoop_def getAllLoops_def Let_def)

end
