(* ===== verification/Sockets.thy ===== *)
theory Sockets
  imports Timestamps "HOL-Library.Word"
begin

unbundle bit_operations_syntax

text \<open>
  \<open>class InetAddress\<close> and \<open>class Socket\<close> (include/InetAddress.h, src/InetAddress.cc,
  include/Socket.h, src/Socket.cc), and the system calls on sockets.

  A \<open>sockaddr_in\<close> keeps the port as the 16-bit word in memory (network order read on a
  little-endian machine) and the address as its four bytes in memory order. The kernel is
  outside the program: \<open>calls\<close> is the trace of the calls made with what they returned, and
  the record \<open>os\<close> says what each call returns after a given trace. \<open>sock_write\<close> is \<open>write\<close> with
  the signal of its manual page: EPIPE comes with SIGPIPE, whose default action, which no code
  of the program changes, ends the process (\<open>None\<close>).
\<close>

subsection \<open>\<open>InetAddress\<close>\<close>

type_synonym ipv4 = "nat \<times> nat \<times> nat \<times> nat"

record sockaddr_in =
  sin_family :: nat
  sin_port :: "16 word"
  sin_addr :: ipv4

definition AF_INET :: nat where
  "AF_INET = 2"

definition zero_addr :: sockaddr_in where
  "zero_addr = \<lparr>sin_family = 0, sin_port = 0, sin_addr = (0, 0, 0, 0)\<rparr>"

definition htons :: "16 word \<Rightarrow> 16 word" where
  "htons p = push_bit 8 p OR drop_bit 8 p"

definition ntohs :: "16 word \<Rightarrow> 16 word" where
  "ntohs p = push_bit 8 p OR drop_bit 8 p"

text \<open>
  \<open>inet_ntop(AF_INET, ...)\<close> writes dotted decimal. \<open>pton\<close> is \<open>inet_pton\<close>, \<open>None\<close> for a text
  that is no address, in which case the four bytes stay as they are.
\<close>

definition inet_ntop :: "ipv4 \<Rightarrow> string" where
  "inet_ntop q = (case q of (a, b, c, d) \<Rightarrow> dec a @ ''.'' @ dec b @ ''.'' @ dec c @ ''.'' @ dec d)"

definition ipv4_ok :: "ipv4 \<Rightarrow> bool" where
  "ipv4_ok q \<longleftrightarrow> (case q of (a, b, c, d) \<Rightarrow> a < 256 \<and> b < 256 \<and> c < 256 \<and> d < 256)"

definition InetAddress :: "(string \<Rightarrow> ipv4 option) \<Rightarrow> 16 word \<Rightarrow> string \<Rightarrow> sockaddr_in" where
  "InetAddress pton port ip =
     (let a = zero_addr\<lparr>sin_family := AF_INET, sin_port := htons port\<rparr>
      in case pton (c_str ip) of None \<Rightarrow> a | Some q \<Rightarrow> a\<lparr>sin_addr := q\<rparr>)"

definition InetAddress_of :: "sockaddr_in \<Rightarrow> sockaddr_in" where
  [simp]: "InetAddress_of addr = addr"

definition setSockAddr :: "sockaddr_in \<Rightarrow> sockaddr_in \<Rightarrow> sockaddr_in" where
  [simp]: "setSockAddr addr a = addr"

text \<open>The texts are built in \<open>char buf[32]\<close> and \<open>char buf[64]\<close>.\<close>

definition toIp :: "sockaddr_in \<Rightarrow> string" where
  "toIp a = c_str (blit 0 (inet_ntop (sin_addr a) @ [NUL]) (replicate 32 NUL))"

definition toPort :: "sockaddr_in \<Rightarrow> 16 word" where
  "toPort a = ntohs (sin_port a)"

definition ipPort_buf :: "sockaddr_in \<Rightarrow> bytes" where
  "ipPort_buf a =
     (let buf = blit 0 (inet_ntop (sin_addr a) @ [NUL]) (replicate 64 NUL);
          port = ntohs (sin_port a);
          end = length (c_str buf)
      in blit end ('':'' @ dec (unat port) @ [NUL]) buf)"

definition toIpPort :: "sockaddr_in \<Rightarrow> string" where
  "toIpPort a = c_str (ipPort_buf a)"

lemma ntohs_htons: "ntohs (htons p) = p"
  by (rule bit_word_eqI) (auto simp: ntohs_def htons_def bit_simps)

lemma c_str_id: "NUL \<notin> set s \<Longrightarrow> c_str s = s"
  by (auto simp: c_str_def takeWhile_eq_all_conv)

lemma c_str_noNUL: "NUL \<notin> set s \<Longrightarrow> c_str (s @ NUL # r) = s"
  using c_str_id [of s] by (induction s) (auto simp: c_str_def)

lemma NUL_inet_ntop: "NUL \<notin> set (inet_ntop q)"
  using NUL_notin_dec by (auto simp: inet_ntop_def NUL_def split: prod.splits)

lemma length_inet_ntop: "ipv4_ok q \<Longrightarrow> length (inet_ntop q) \<le> 15"
proof -
  assume "ipv4_ok q"
  obtain a b c d where q: "q = (a, b, c, d)" by (cases q)
  have "n < 256 \<Longrightarrow> length (dec n) \<le> 3" for n using length_dec [of n 3] by simp
  then have "length (dec a) \<le> 3" "length (dec b) \<le> 3" "length (dec c) \<le> 3" "length (dec d) \<le> 3"
    using \<open>ipv4_ok q\<close> by (auto simp: ipv4_ok_def q)
  then show ?thesis by (simp add: inet_ntop_def q)
qed

lemma length_dec_port: "length (dec (unat (p :: 16 word))) \<le> 5"
proof -
  have "unat p < 2 ^ LENGTH(16)" by (rule unsigned_less)
  then show ?thesis using length_dec [of "unat p" 5] by simp
qed

lemma toIp_eq: "toIp a = inet_ntop (sin_addr a)"
  using NUL_inet_ntop by (simp add: toIp_def blit_def c_str_noNUL)

lemma ipPort_buf_eq:
  "ipPort_buf a = blit (length (inet_ntop (sin_addr a))) ('':'' @ dec (unat (ntohs (sin_port a))) @ [NUL])
     (blit 0 (inet_ntop (sin_addr a) @ [NUL]) (replicate 64 NUL))"
  using NUL_inet_ntop by (simp add: ipPort_buf_def Let_def blit_def c_str_noNUL)

lemma toIpPort_eq: "toIpPort a = inet_ntop (sin_addr a) @ '':'' @ dec (unat (toPort a))"
proof -
  have "NUL \<notin> set (inet_ntop (sin_addr a) @ '':'' @ dec (unat (toPort a)))"
    using NUL_inet_ntop NUL_notin_dec by (auto simp: NUL_def)
  then have "c_str ((inet_ntop (sin_addr a) @ '':'' @ dec (unat (toPort a))) @ NUL # r) =
      inet_ntop (sin_addr a) @ '':'' @ dec (unat (toPort a))" for r
    by (rule c_str_noNUL)
  then show ?thesis unfolding toIpPort_def ipPort_buf_eq
    by (simp add: blit_def toPort_def)
qed

subsection \<open>System calls\<close>

datatype sockopt = TCP_NODELAY | SO_REUSEADDR | SO_REUSEPORT | SO_KEEPALIVE

datatype sys_call =
    CSocket "errno + fd"
  | CBind fd sockaddr_in "errno option"
  | CListen fd nat "errno option"
  | CAccept fd "errno + fd \<times> sockaddr_in"
  | CSetopt fd sockopt bool
  | CGetsockname fd "errno + sockaddr_in"
  | CSoError fd "errno + errno"
  | CRead fd "errno + bytes"
  | CWrite fd bytes "errno + nat"
  | CShutdown fd "errno option"
  | CClose fd

record os =
  os_socket :: "sys_call list \<Rightarrow> errno + fd"
  os_bind :: "sys_call list \<Rightarrow> fd \<Rightarrow> sockaddr_in \<Rightarrow> errno option"
  os_listen :: "sys_call list \<Rightarrow> fd \<Rightarrow> nat \<Rightarrow> errno option"
  os_accept :: "sys_call list \<Rightarrow> fd \<Rightarrow> errno + fd \<times> sockaddr_in"
  os_getsockname :: "sys_call list \<Rightarrow> fd \<Rightarrow> errno + sockaddr_in"
  os_soerror :: "sys_call list \<Rightarrow> fd \<Rightarrow> errno + errno"
  os_read :: "sys_call list \<Rightarrow> fd \<Rightarrow> nat \<Rightarrow> errno + bytes"
  os_write :: "sys_call list \<Rightarrow> fd \<Rightarrow> bytes \<Rightarrow> errno + nat"
  os_shutdown :: "sys_call list \<Rightarrow> fd \<Rightarrow> errno option"

text \<open>The part of the state the system calls change.\<close>

record net =
  calls :: "sys_call list"

definition log_call :: "sys_call \<Rightarrow> 'a net_scheme \<Rightarrow> 'a net_scheme" where
  "log_call x w = w\<lparr>calls := calls w @ [x]\<rparr>"

lemma log_call_sel [simp]: "calls (log_call x w) = calls w @ [x]"
  by (simp add: log_call_def)

text \<open>
  What \<open>read(2)\<close>, \<open>readv\<close> and \<open>write(2)\<close> promise: no more bytes than asked for, and a
  failure has an \<open>errno\<close>. Linux transfers at most 0x7ffff000 = 2147479552 bytes in one call.
\<close>

definition max_transfer :: nat where
  "max_transfer = 2147479552"

definition os_ok :: "os \<Rightarrow> bool" where
  "os_ok o1 \<longleftrightarrow>
     (\<forall>tr fd n bs. os_read o1 tr fd n = Inr bs \<longrightarrow> length bs \<le> n) \<and>
     (\<forall>tr fd bs n. os_write o1 tr fd bs = Inr n \<longrightarrow> n \<le> length bs \<and> n \<le> max_transfer)"

text \<open>The errors the program tells apart.\<close>

definition EAGAIN :: errno where
  "EAGAIN = 11"

definition EWOULDBLOCK :: errno where
  "EWOULDBLOCK = 11"

definition EPIPE :: errno where
  "EPIPE = 32"

definition ECONNRESET :: errno where
  "ECONNRESET = 104"

lemmas errno_defs = EAGAIN_def EWOULDBLOCK_def EPIPE_def ECONNRESET_def

text \<open>
  \<open>write\<close> on a socket. A write to a connection that can no longer be written raises SIGPIPE
  before it returns EPIPE, and the default action of that signal ends the process. The program
  neither ignores nor handles the signal, and \<open>write\<close> has no \<open>MSG_NOSIGNAL\<close>: the outcome is
  \<open>None\<close>. A kernel with \<open>no_sigpipe\<close> is one in which that never happens.
\<close>

definition sock_write :: "os \<Rightarrow> fd \<Rightarrow> bytes \<Rightarrow> 'a net_scheme \<Rightarrow> ((errno + nat) \<times> 'a net_scheme) option" where
  "sock_write o1 sockfd bs w =
     (let r = os_write o1 (calls w) sockfd bs
      in if r = Inl EPIPE then None else Some (r, log_call (CWrite sockfd bs r) w))"

definition no_sigpipe :: "os \<Rightarrow> bool" where
  "no_sigpipe o1 \<longleftrightarrow> (\<forall>tr fd bs. os_write o1 tr fd bs \<noteq> Inl EPIPE)"

lemma sock_write_Some:
  "sock_write o1 sockfd bs w = Some (r, u) \<longleftrightarrow>
     r = os_write o1 (calls w) sockfd bs \<and> r \<noteq> Inl EPIPE \<and> u = log_call (CWrite sockfd bs r) w"
  by (auto simp: sock_write_def Let_def)

lemma sock_write_None: "sock_write o1 sockfd bs w = None \<longleftrightarrow> os_write o1 (calls w) sockfd bs = Inl EPIPE"
  by (simp add: sock_write_def Let_def)

lemma sock_write_total: "no_sigpipe o1 \<Longrightarrow> sock_write o1 sockfd bs w \<noteq> None"
  by (simp add: sock_write_None no_sigpipe_def)

text \<open>The conversion of an \<open>ssize_t\<close> to \<open>int\<close>.\<close>

definition int32 :: "int \<Rightarrow> int" where
  "int32 n = sint (word_of_int n :: 32 word)"

lemma int32_id: "- (2 ^ 31) \<le> n \<Longrightarrow> n < 2 ^ 31 \<Longrightarrow> int32 n = n"
  by (simp add: int32_def signed_of_int signed_take_bit_int_eq_self)

lemma int32_transfer: "n \<le> max_transfer \<Longrightarrow> int32 (int n) = int n"
  by (rule int32_id) (simp_all add: max_transfer_def)

text \<open>What was received from and sent to the peer of a descriptor.\<close>

fun received_on :: "fd \<Rightarrow> sys_call list \<Rightarrow> bytes" where
  "received_on d [] = []"
| "received_on d (CRead d' (Inr bs) # cs) = (if d' = d then bs @ received_on d cs else received_on d cs)"
| "received_on d (_ # cs) = received_on d cs"

fun sent_on :: "fd \<Rightarrow> sys_call list \<Rightarrow> bytes" where
  "sent_on d [] = []"
| "sent_on d (CWrite d' bs (Inr n) # cs) = (if d' = d then take n bs @ sent_on d cs else sent_on d cs)"
| "sent_on d (_ # cs) = sent_on d cs"

lemma received_on_append [simp]: "received_on d (xs @ ys) = received_on d xs @ received_on d ys"
  by (induction d xs rule: received_on.induct) auto

lemma sent_on_append [simp]: "sent_on d (xs @ ys) = sent_on d xs @ sent_on d ys"
  by (induction d xs rule: sent_on.induct) auto

subsection \<open>\<open>Socket\<close>\<close>

text \<open>
  A failing \<open>bind\<close> or \<open>listen\<close> is a FATAL log line, which ends the process (\<open>None\<close>).
\<close>

definition bindAddress :: "os \<Rightarrow> fd \<Rightarrow> sockaddr_in \<Rightarrow> 'a net_scheme \<Rightarrow> 'a net_scheme option" where
  "bindAddress o1 sockfd localAddr w =
     (let r = os_bind o1 (calls w) sockfd localAddr
      in if r = None then Some (log_call (CBind sockfd localAddr r) w) else None)"

definition Socket_listen :: "os \<Rightarrow> fd \<Rightarrow> 'a net_scheme \<Rightarrow> 'a net_scheme option" where
  "Socket_listen o1 sockfd w =
     (let r = os_listen o1 (calls w) sockfd 1024
      in if r = None then Some (log_call (CListen sockfd 1024 r) w) else None)"

text \<open>\<open>accept\<close> also returns the peer address it filled in, the argument when it fails.\<close>

definition Socket_accept ::
  "os \<Rightarrow> fd \<Rightarrow> sockaddr_in \<Rightarrow> 'a net_scheme \<Rightarrow> (errno + fd) \<times> sockaddr_in \<times> 'a net_scheme" where
  "Socket_accept o1 sockfd peerAddr w =
     (let r = os_accept o1 (calls w) sockfd; w1 = log_call (CAccept sockfd r) w
      in case r of Inl e \<Rightarrow> (Inl e, peerAddr, w1) | Inr (connfd, addr) \<Rightarrow> (Inr connfd, setSockAddr addr peerAddr, w1))"

definition shutdownWrite :: "os \<Rightarrow> fd \<Rightarrow> 'a net_scheme \<Rightarrow> 'a net_scheme" where
  "shutdownWrite o1 sockfd w = log_call (CShutdown sockfd (os_shutdown o1 (calls w) sockfd)) w"

definition setTcpNoDelay :: "fd \<Rightarrow> bool \<Rightarrow> 'a net_scheme \<Rightarrow> 'a net_scheme" where
  "setTcpNoDelay sockfd on = log_call (CSetopt sockfd TCP_NODELAY on)"

definition setReuseAddr :: "fd \<Rightarrow> bool \<Rightarrow> 'a net_scheme \<Rightarrow> 'a net_scheme" where
  "setReuseAddr sockfd on = log_call (CSetopt sockfd SO_REUSEADDR on)"

definition setReusePort :: "fd \<Rightarrow> bool \<Rightarrow> 'a net_scheme \<Rightarrow> 'a net_scheme" where
  "setReusePort sockfd on = log_call (CSetopt sockfd SO_REUSEPORT on)"

definition setKeepAlive :: "fd \<Rightarrow> bool \<Rightarrow> 'a net_scheme \<Rightarrow> 'a net_scheme" where
  "setKeepAlive sockfd on = log_call (CSetopt sockfd SO_KEEPALIVE on)"

definition Socket_dtor :: "fd \<Rightarrow> 'a net_scheme \<Rightarrow> 'a net_scheme" where
  "Socket_dtor sockfd = log_call (CClose sockfd)"

subsection \<open>Properties\<close>

text \<open>
  C39 (addresses). For every port and every IPv4 address written in dotted decimal, the
  constructor stores what the accessors give back: the port in host order, the address
  text, and the two joined by a colon; and building the joined text stays inside its 64
  bytes. A text that \<open>inet_pton\<close> rejects gives the address 0.0.0.0 without an error.
\<close>

theorem address_roundtrip:
  assumes "ipv4_ok q" "pton (inet_ntop q) = Some q" "pton (c_str bad) = None"
  shows "toPort (InetAddress pton port (inet_ntop q)) = port \<and>
    toIp (InetAddress pton port (inet_ntop q)) = inet_ntop q \<and>
    toIpPort (InetAddress pton port (inet_ntop q)) = inet_ntop q @ '':'' @ dec (unat port) \<and>
    length (ipPort_buf (InetAddress pton port (inet_ntop q))) = 64 \<and>
    toIp (InetAddress pton port bad) = ''0.0.0.0''"
proof -
  have c: "c_str (inet_ntop q) = inet_ntop q"
    by (rule c_str_id [OF NUL_inet_ntop])
  have l: "length (inet_ntop q) + (2 + length (dec (unat port))) \<le> 64"
    using length_inet_ntop [OF assms(1)] length_dec_port [of port] by linarith
  have z: "dec 0 = ''0''" by (simp add: dec.simps digit_def)
  show ?thesis
    using l assms by (simp add: InetAddress_def Let_def c toPort_def ntohs_htons toIp_eq toIpPort_eq
        ipPort_buf_eq mem_simps zero_addr_def) (simp add: inet_ntop_def z)
qed

definition loopback_pton :: "string \<Rightarrow> ipv4 option" where
  "loopback_pton s = (if s = ''127.0.0.1'' then Some (127, 0, 0, 1) else None)"

theorem address_roundtrip_witness:
  "toIpPort (InetAddress loopback_pton 8080 (inet_ntop (127, 0, 0, 1))) = ''127.0.0.1:8080''"
proof -
  have n: "inet_ntop (127, 0, 0, 1) = ''127.0.0.1''" and p: "dec 8080 = ''8080''"
    by (simp_all add: inet_ntop_def dec.simps digit_def)
  have q: "ipv4_ok (127, 0, 0, 1)" by (simp add: ipv4_ok_def)
  have a: "loopback_pton (inet_ntop (127, 0, 0, 1)) = Some (127, 0, 0, 1)"
    "loopback_pton (c_str ''x'') = None"
    unfolding n by (simp_all add: loopback_pton_def c_str_def NUL_def)
  have "toIpPort (InetAddress loopback_pton 8080 (inet_ntop (127, 0, 0, 1))) =
      inet_ntop (127, 0, 0, 1) @ '':'' @ dec (unat (8080 :: 16 word))"
    using address_roundtrip [OF q a(1,2), of 8080] by blast
  then show ?thesis unfolding n by (simp add: p)
qed

end
