(* ===== verification/TcpConnections.thy ===== *)
theory TcpConnections
  imports NetBuffer Pollers EventLoops Sockets
begin

text \<open>
  \<open>class TcpConnection\<close> (include/TcpConnection.h, src/TcpConnection.cc) on the loops, pollers
  and sockets of the other theories.

  Connections and loops are numbered. \<open>world\<close> extends the trace of system calls by the
  members of every loop, its poller (which holds the channels) and the connection objects.
  \<open>env\<close> is what a connection calls outside itself: the kernel, and the callbacks the owner
  has set, the same for every connection; calling an empty \<open>std::function\<close> throws, which
  ends the process (\<open>None\<close>), and so does a \<open>write\<close> that raises SIGPIPE. A handler runs in one thread; \<open>me\<close> is the loop of the calling
  thread. A task is a value of \<open>task\<close>, one constructor for every \<open>std::bind\<close> of the program
  that reaches a queue.
\<close>

datatype StateE = KConnecting | KConnected | KDisconnecting | KDisconnected

datatype chan_id = ChWakeup nat | ChAcceptor | ChConn nat

text \<open>
  \<open>FSendInLoop\<close> holds what \<open>send\<close> binds: the connection, the pointer \<open>buf.c_str()\<close> and the size.
  \<open>FWriteCompleteMember\<close> is \<open>std::bind(&TcpConnection::writeCompleteCallback_, conn)\<close>, the bound
  data member, whose call only reads it.
\<close>

datatype task =
    FConnectEstablished nat
  | FConnectDestroyed nat
  | FSendInLoop nat nat nat
  | FShutdownInLoop nat
  | FWriteComplete nat
  | FWriteCompleteMember nat
  | FHighWaterMark nat nat
  | FListen
  | FRemoveConnectionInLoop nat

record connection =
  loopIx :: nat
  connName :: string
  connState :: StateE
  reading :: bool
  sockFd :: fd
  localAddr :: sockaddr_in
  peerAddr :: sockaddr_in
  highWaterMark :: nat
  inputBuffer :: buffer
  outputBuffer :: buffer

record world = net +
  evl :: "nat \<Rightarrow> task evloop"
  pol :: "nat \<Rightarrow> chan_id poller"
  conns :: "nat \<Rightarrow> connection"

record 'w env =
  os1 :: os
  ker :: "nat \<Rightarrow> chan_id kernel_ctl"
  deref :: "sys_call list \<Rightarrow> nat \<Rightarrow> nat \<Rightarrow> bytes option"
  onConnection :: "(nat \<Rightarrow> 'w \<Rightarrow> 'w option) option"
  onMessage :: "(nat \<Rightarrow> int \<Rightarrow> 'w \<Rightarrow> 'w option) option"
  onClose :: "(nat \<Rightarrow> 'w \<Rightarrow> 'w option) option"
  onWriteComplete :: "(nat \<Rightarrow> 'w \<Rightarrow> 'w option) option"
  onHighWaterMark :: "(nat \<Rightarrow> nat \<Rightarrow> 'w \<Rightarrow> 'w option) option"

definition invoke :: "('a \<Rightarrow> 'w \<Rightarrow> 'w option) option \<Rightarrow> 'a \<Rightarrow> 'w \<Rightarrow> 'w option" where
  "invoke cb x w = (case cb of None \<Rightarrow> None | Some f \<Rightarrow> f x w)"

definition set_conn :: "nat \<Rightarrow> (connection \<Rightarrow> connection) \<Rightarrow> 'a world_scheme \<Rightarrow> 'a world_scheme" where
  "set_conn cid f w = w\<lparr>conns := (conns w)(cid := f (conns w cid))\<rparr>"

definition setState :: "nat \<Rightarrow> StateE \<Rightarrow> 'a world_scheme \<Rightarrow> 'a world_scheme" where
  "setState cid st = set_conn cid (\<lambda>c. c\<lparr>connState := st\<rparr>)"

text \<open>The channel of a connection, and its operations that go through the loop's poller.\<close>

definition chan_of :: "nat \<Rightarrow> 'a world_scheme \<Rightarrow> channel" where
  "chan_of cid w = chan (pol w (loopIx (conns w cid))) (ChConn cid)"

definition on_chan ::
  "'w env \<Rightarrow> nat \<Rightarrow> (chan_id kernel_ctl \<Rightarrow> chan_id \<Rightarrow> chan_id poller \<Rightarrow> chan_id poller option) \<Rightarrow>
   'a world_scheme \<Rightarrow> 'a world_scheme option" where
  "on_chan env cid f w =
     (let i = loopIx (conns w cid)
      in do { p \<leftarrow> f (ker env i) (ChConn cid) (pol w i); Some (w\<lparr>pol := (pol w)(i := p)\<rparr>) })"

definition queue_on :: "nat \<Rightarrow> nat \<Rightarrow> task \<Rightarrow> 'a world_scheme \<Rightarrow> 'a world_scheme" where
  "queue_on me i f w = w\<lparr>evl := (evl w)(i := queueInLoop (me = i) f (evl w i))\<rparr>"

subsection \<open>Construction and life cycle\<close>

definition TcpConnection ::
  "nat \<Rightarrow> nat \<Rightarrow> string \<Rightarrow> fd \<Rightarrow> sockaddr_in \<Rightarrow> sockaddr_in \<Rightarrow> 'a world_scheme \<Rightarrow> 'a world_scheme" where
  "TcpConnection cid i name sockfd la pa w =
     setKeepAlive sockfd True
       (w\<lparr>conns := (conns w)(cid := \<lparr>loopIx = i, connName = name, connState = KConnecting,
            reading = True, sockFd = sockfd, localAddr = la, peerAddr = pa,
            highWaterMark = 64 * 1024 * 1024, inputBuffer = new_Buffer InitialSize,
            outputBuffer = new_Buffer InitialSize\<rparr>),
          pol := (pol w)(i := set_chan (ChConn cid) (\<lambda>_. Channel sockfd) (pol w i))\<rparr>)"

definition connected :: "nat \<Rightarrow> 'a world_scheme \<Rightarrow> bool" where
  "connected cid w \<longleftrightarrow> connState (conns w cid) = KConnected"

definition tie_channel :: "nat \<Rightarrow> 'a world_scheme \<Rightarrow> 'a world_scheme" where
  "tie_channel cid w =
     (let i = loopIx (conns w cid)
      in w\<lparr>pol := (pol w)(i := set_chan (ChConn cid) tie (pol w i))\<rparr>)"

definition connectEstablished ::
  "('a world_scheme) env \<Rightarrow> nat \<Rightarrow> 'a world_scheme \<Rightarrow> 'a world_scheme option" where
  "connectEstablished env cid w = do {
     w1 \<leftarrow> on_chan env cid enableReading (tie_channel cid (setState cid KConnected w));
     invoke (onConnection env) cid w1
   }"

definition connectDestroyed ::
  "('a world_scheme) env \<Rightarrow> nat \<Rightarrow> 'a world_scheme \<Rightarrow> 'a world_scheme option" where
  "connectDestroyed env cid w = do {
     w1 \<leftarrow> (if connState (conns w cid) = KConnected
           then do { w0 \<leftarrow> on_chan env cid disableAll (setState cid KDisconnected w);
                     invoke (onConnection env) cid w0 }
           else Some w);
     on_chan env cid removeChannel w1
   }"

subsection \<open>Sending\<close>

text \<open>\<open>shutdownInLoop\<close>, \<open>shutdown\<close>.\<close>

definition shutdownInLoop :: "'w env \<Rightarrow> nat \<Rightarrow> 'a world_scheme \<Rightarrow> 'a world_scheme" where
  "shutdownInLoop env cid w =
     (if \<not> isWriting (chan_of cid w) then shutdownWrite (os1 env) (sockFd (conns w cid)) w else w)"

definition shutdown :: "nat \<Rightarrow> nat \<Rightarrow> 'a world_scheme \<Rightarrow> 'a world_scheme" where
  "shutdown me cid w =
     (if connState (conns w cid) = KConnected
      then queue_on me (loopIx (conns w cid)) (FShutdownInLoop cid) (setState cid KDisconnecting w)
      else w)"

text \<open>
  The first half of \<open>sendInLoop\<close>, the direct \<open>write\<close>: \<open>nwrote\<close>, \<open>remaining\<close>, \<open>faultError\<close> and
  the state, \<open>None\<close> when SIGPIPE ends the process; then its second half, which stores the rest.
\<close>

definition send_direct ::
  "'w env \<Rightarrow> nat \<Rightarrow> nat \<Rightarrow> bytes \<Rightarrow> 'a world_scheme \<Rightarrow> (nat \<times> nat \<times> bool \<times> 'a world_scheme) option" where
  "send_direct env me cid data w =
     (let c = conns w cid; len = length data
      in if \<not> isWriting (chan_of cid w) \<and> readableBytes (outputBuffer c) = 0
         then do {
           (r, w1) \<leftarrow> sock_write (os1 env) (sockFd c) data w;
           Some (case r of
                   Inr nwrote \<Rightarrow>
                     let remaining = usub len nwrote
                     in (nwrote, remaining, False,
                         if remaining = 0 \<and> onWriteComplete env \<noteq> None
                         then queue_on me (loopIx c) (FWriteCompleteMember cid) w1 else w1)
                 | Inl e \<Rightarrow>
                     (0, len, e \<noteq> EWOULDBLOCK \<and> (e = EPIPE \<or> e = ECONNRESET), w1))
         }
         else Some (0, len, False, w))"

definition send_rest ::
  "'w env \<Rightarrow> nat \<Rightarrow> nat \<Rightarrow> bytes \<Rightarrow> nat \<Rightarrow> nat \<Rightarrow> 'a world_scheme \<Rightarrow> 'a world_scheme option" where
  "send_rest env me cid data nwrote remaining w =
     (let c = conns w cid; oldLen = readableBytes (outputBuffer c);
          w1 = (if highWaterMark c \<le> oldLen + remaining \<and> oldLen < highWaterMark c \<and>
                   onHighWaterMark env \<noteq> None
                then queue_on me (loopIx c) (FHighWaterMark cid (oldLen + remaining)) w else w);
          w2 = set_conn cid (\<lambda>c. c\<lparr>outputBuffer :=
                 append (take remaining (drop nwrote data)) (outputBuffer c)\<rparr>) w1
      in if \<not> isWriting (chan_of cid w2) then on_chan env cid enableWriting w2 else Some w2)"

definition sendInLoop ::
  "'w env \<Rightarrow> nat \<Rightarrow> nat \<Rightarrow> bytes \<Rightarrow> 'a world_scheme \<Rightarrow> 'a world_scheme option" where
  "sendInLoop env me cid data w = do {
     (nwrote, remaining, faultError, w1) \<leftarrow> send_direct env me cid data w;
     if \<not> faultError \<and> 0 < remaining
     then send_rest env me cid data nwrote remaining w1
     else Some w1
   }"

text \<open>\<open>send(buf)\<close>: \<open>ptr\<close> is \<open>buf.c_str()\<close>, \<open>data\<close> the bytes there.\<close>

definition send ::
  "'w env \<Rightarrow> nat \<Rightarrow> nat \<Rightarrow> nat \<Rightarrow> bytes \<Rightarrow> 'a world_scheme \<Rightarrow> 'a world_scheme option" where
  "send env me cid ptr data w =
     (if connState (conns w cid) = KConnected
      then if me = loopIx (conns w cid) then sendInLoop env me cid data w
           else Some (queue_on me (loopIx (conns w cid)) (FSendInLoop cid ptr (length data)) w)
      else Some w)"

text \<open>\<open>sendFile\<close> and \<open>sendFileInLoop\<close> have empty bodies.\<close>

definition sendFileInLoop :: "nat \<Rightarrow> int \<Rightarrow> int \<Rightarrow> nat \<Rightarrow> 'a world_scheme \<Rightarrow> 'a world_scheme" where
  "sendFileInLoop cid fileDescripto offset count w = w"

definition sendFile :: "nat \<Rightarrow> int \<Rightarrow> int \<Rightarrow> nat \<Rightarrow> 'a world_scheme \<Rightarrow> 'a world_scheme" where
  "sendFile cid fileDescripto offset count w = w"

subsection \<open>Handlers of the channel\<close>

definition handleClose ::
  "('a world_scheme) env \<Rightarrow> nat \<Rightarrow> 'a world_scheme \<Rightarrow> 'a world_scheme option" where
  "handleClose env cid w = do {
     w1 \<leftarrow> on_chan env cid disableAll (setState cid KDisconnected w);
     w2 \<leftarrow> invoke (onConnection env) cid w1;
     invoke (onClose env) cid w2
   }"

definition handleError ::
  "('a world_scheme) env \<Rightarrow> nat \<Rightarrow> 'a world_scheme \<Rightarrow> 'a world_scheme option" where
  "handleError env cid w =
     (let fd = sockFd (conns w cid); r = os_soerror (os1 env) (calls w) fd
      in handleClose env cid (log_call (CSoError fd r) w))"

definition conn_handleRead ::
  "('a world_scheme) env \<Rightarrow> nat \<Rightarrow> int \<Rightarrow> 'a world_scheme \<Rightarrow> 'a world_scheme option" where
  "conn_handleRead env cid receiveTime w =
     (let c = conns w cid;
          r = os_read (os1 env) (calls w) (sockFd c) (readFd_capacity (inputBuffer c))
      in case readFd r (inputBuffer c) of (n, saveErrno, b) \<Rightarrow>
           let w1 = set_conn cid (\<lambda>c. c\<lparr>inputBuffer := b\<rparr>) (log_call (CRead (sockFd c) r) w)
           in if 0 < n then invoke (map_option (\<lambda>f c. f c receiveTime) (onMessage env)) cid w1
              else if n = 0 then handleClose env cid w1
              else handleError env cid w1)"

text \<open>\<open>write_drained\<close> is the branch of \<open>handleWrite\<close> for an output buffer that is now empty.\<close>

definition write_drained ::
  "'w env \<Rightarrow> nat \<Rightarrow> nat \<Rightarrow> 'a world_scheme \<Rightarrow> 'a world_scheme option" where
  "write_drained env me cid w = do {
     w3 \<leftarrow> on_chan env cid disableWriting w;
     let w4 = (if onWriteComplete env \<noteq> None
               then queue_on me (loopIx (conns w cid)) (FWriteComplete cid) w3 else w3);
     Some (if connState (conns w4 cid) = KDisconnecting
           then shutdownInLoop env cid w4 else w4)
   }"

text \<open>The result of \<open>writeFd\<close> goes into an \<open>int\<close>.\<close>

definition handleWrite ::
  "'w env \<Rightarrow> nat \<Rightarrow> nat \<Rightarrow> 'a world_scheme \<Rightarrow> 'a world_scheme option" where
  "handleWrite env me cid w =
     (if isWriting (chan_of cid w)
      then let c = conns w cid; bs = writeFd_bytes (outputBuffer c)
           in do {
             (r, w1) \<leftarrow> sock_write (os1 env) (sockFd c) bs w;
             let n = int32 (fst (writeFd r (outputBuffer c)));
             if 0 < n
             then let w2 = set_conn cid (\<lambda>c. c\<lparr>outputBuffer := retrieve (nat n) (outputBuffer c)\<rparr>) w1
                  in if readableBytes (outputBuffer (conns w2 cid)) = 0
                     then write_drained env me cid w2
                     else Some w2
             else Some w1
           }
      else Some w)"

definition conn_callbacks ::
  "('a world_scheme) env \<Rightarrow> nat \<Rightarrow> nat \<Rightarrow> ('a world_scheme) callbacks" where
  "conn_callbacks env me cid =
     \<lparr>readCallback = Some (conn_handleRead env cid), writeCallback = Some (handleWrite env me cid),
      closeCallback = Some (handleClose env cid), errorCallback = Some (handleError env cid)\<rparr>"

definition conn_event ::
  "('a world_scheme) env \<Rightarrow> nat \<Rightarrow> nat \<Rightarrow> bool \<Rightarrow> int \<Rightarrow> 'a world_scheme \<Rightarrow> 'a world_scheme option" where
  "conn_event env me cid alive receiveTime w =
     handleEvent (conn_callbacks env me cid) (chan_of cid w) alive receiveTime w"

subsection \<open>A connection in its loop\<close>

text \<open>
  What every operation of a connection needs and keeps: the kernel of its loop behaves, the
  poller of its loop agrees with it, its descriptor is its own, its buffers are well formed.
\<close>

definition conn_ok :: "'w env \<Rightarrow> nat \<Rightarrow> 'a world_scheme \<Rightarrow> bool" where
  "conn_ok env cid w \<longleftrightarrow>
     (let c = conns w cid; i = loopIx c
      in epoll_ok (ker env i) \<and> poller_ok (pol w i) \<and> owns_fd (ChConn cid) (pol w i) \<and>
         chFd (chan_of cid w) = sockFd c \<and> buf_ok (inputBuffer c) \<and> buf_ok (outputBuffer c))"

text \<open>What the kernel watches for the connection.\<close>

definition watched :: "nat \<Rightarrow> 'a world_scheme \<Rightarrow> (evmask \<times> chan_id) option" where
  "watched cid w = interest (ctlTrace (pol w (loopIx (conns w cid)))) (sockFd (conns w cid))"

text \<open>Two states that differ at most in the channel of \<open>cid\<close> and its registration.\<close>

definition same_but_chan :: "nat \<Rightarrow> 'a world_scheme \<Rightarrow> 'a world_scheme \<Rightarrow> bool" where
  "same_but_chan cid w w' \<longleftrightarrow>
     conns w' = conns w \<and> calls w' = calls w \<and> evl w' = evl w \<and> world.more w' = world.more w \<and>
     (\<forall>j. j \<noteq> loopIx (conns w cid) \<longrightarrow> pol w' j = pol w j)"

lemma set_conn_sel [simp]:
  "conns (set_conn cid f w) = (conns w)(cid := f (conns w cid))"
  "calls (set_conn cid f w) = calls w" "evl (set_conn cid f w) = evl w"
  "pol (set_conn cid f w) = pol w" "world.more (set_conn cid f w) = world.more w"
  by (simp_all add: set_conn_def)

lemma queue_on_sel [simp]:
  "conns (queue_on me i f w) = conns w" "calls (queue_on me i f w) = calls w"
  "pol (queue_on me i f w) = pol w" "world.more (queue_on me i f w) = world.more w"
  "evl (queue_on me i f w) = (evl w)(i := queueInLoop (me = i) f (evl w i))"
  by (simp_all add: queue_on_def)

lemma log_call_world [simp]:
  "conns (log_call x w) = conns w" "evl (log_call x w) = evl w" "pol (log_call x w) = pol w"
  "world.more (log_call x w) = world.more w"
  by (simp_all add: log_call_def)

lemma chan_of_sel [simp]:
  "chan_of cid (queue_on me i f w) = chan_of cid w" "chan_of cid (log_call x w) = chan_of cid w"
  "loopIx (g (conns w cid)) = loopIx (conns w cid) \<Longrightarrow>
   chan_of cid (set_conn cid g w) = chan_of cid w"
  by (simp_all add: chan_of_def)

lemma conn_ok_sel [simp]:
  "conn_ok env cid (queue_on me i f w) = conn_ok env cid w"
  "conn_ok env cid (log_call x w) = conn_ok env cid w"
  by (simp_all add: conn_ok_def Let_def)

lemma conn_ok_set_conn:
  assumes "conn_ok env cid w" "loopIx (g (conns w cid)) = loopIx (conns w cid)"
    "sockFd (g (conns w cid)) = sockFd (conns w cid)"
    "buf_ok (inputBuffer (g (conns w cid)))" "buf_ok (outputBuffer (g (conns w cid)))"
  shows "conn_ok env cid (set_conn cid g w)"
  using assms by (simp add: conn_ok_def Let_def)

lemma watched_sel [simp]:
  "watched cid (queue_on me i f w) = watched cid w" "watched cid (log_call x w) = watched cid w"
  by (simp_all add: watched_def)

lemma conn_okD:
  assumes "conn_ok env cid w"
  shows "buf_ok (inputBuffer (conns w cid))" "buf_ok (outputBuffer (conns w cid))"
  using assms by (auto simp: conn_ok_def Let_def)

text \<open>Every change of the interest goes through \<open>set_events\<close>.\<close>

definition on_events :: "'w env \<Rightarrow> nat \<Rightarrow> evmask \<Rightarrow> 'a world_scheme \<Rightarrow> 'a world_scheme option" where
  "on_events env cid ev w = on_chan env cid (\<lambda>K c. set_events K c ev) w"

lemma on_chan_events:
  "on_chan env cid enableReading w = on_events env cid (events (chan_of cid w) OR ReadEvent) w"
  "on_chan env cid enableWriting w = on_events env cid (events (chan_of cid w) OR WriteEvent) w"
  "on_chan env cid disableWriting w = on_events env cid (events (chan_of cid w) AND NOT WriteEvent) w"
  "on_chan env cid disableAll w = on_events env cid 0 w"
  by (simp_all add: on_events_def on_chan_def Let_def enableReading_def enableWriting_def
      disableWriting_def disableAll_def chan_of_def NoneEvent_def)

lemma on_events_ok:
  assumes "conn_ok env cid w"
  shows "\<exists>w'. on_events env cid ev w = Some w' \<and> conn_ok env cid w' \<and> same_but_chan cid w w' \<and>
    events (chan_of cid w') = ev \<and> tied (chan_of cid w') = tied (chan_of cid w) \<and>
    revents (chan_of cid w') = revents (chan_of cid w) \<and>
    chIndex (chan_of cid w') =
      (if chIndex (chan_of cid w) = Added \<and> ev = 0 then Deleted else Added) \<and>
    watched cid w' = (if chIndex (chan_of cid w) = Added \<and> ev = 0 then None else Some (ev, ChConn cid))"
proof -
  define i where "i = loopIx (conns w cid)"
  have a: "epoll_ok (ker env i)" "poller_ok (pol w i)" "owns_fd (ChConn cid) (pol w i)"
    and fd: "chFd (chan (pol w i) (ChConn cid)) = sockFd (conns w cid)"
    using assms by (auto simp: conn_ok_def i_def Let_def chan_of_def)
  obtain q where q: "set_events (ker env i) (ChConn cid) ev (pol w i) = Some q" "poller_ok q"
    "owns_fd (ChConn cid) q" "\<forall>d. chFd (chan q d) = chFd (chan (pol w i) d)"
    "chan q = (chan (pol w i))(ChConn cid := (chan (pol w i) (ChConn cid))\<lparr>events := ev,
       chIndex := new_index (ChConn cid) ev (pol w i)\<rparr>)"
    "interest (ctlTrace q) = (interest (ctlTrace (pol w i)))(chFd (chan (pol w i) (ChConn cid)) :=
       new_interest (ChConn cid) ev (pol w i))"
    using set_events_ok [OF a, of ev] by blast
  define w' where "w' = w\<lparr>pol := (pol w)(i := q)\<rparr>"
  have w': "on_events env cid ev w = Some w'"
    using q(1) by (simp add: on_events_def on_chan_def i_def [symmetric] w'_def)
  have ch: "chan_of cid w' = (chan_of cid w)\<lparr>events := ev,
      chIndex := new_index (ChConn cid) ev (pol w i)\<rparr>"
    using q(5) by (simp add: chan_of_def w'_def i_def)
  have "conn_ok env cid w'"
    using assms q(2,3,4) fd by (simp add: conn_ok_def Let_def w'_def i_def chan_of_def)
  moreover have "same_but_chan cid w w'"
    by (simp add: same_but_chan_def w'_def i_def [symmetric])
  moreover have "watched cid w' = new_interest (ChConn cid) ev (pol w i)"
    using q(6) fd by (simp add: watched_def w'_def i_def)
  ultimately show ?thesis
    using w' ch by (simp add: new_interest_def new_index_def chan_of_def i_def NoneEvent_def)
qed

lemma on_remove_ok:
  assumes "conn_ok env cid w"
  shows "\<exists>w'. on_chan env cid removeChannel w = Some w' \<and> conn_ok env cid w' \<and>
    same_but_chan cid w w' \<and> chIndex (chan_of cid w') = New \<and> watched cid w' = None"
proof -
  define i where "i = loopIx (conns w cid)"
  have a: "epoll_ok (ker env i)" "poller_ok (pol w i)" "owns_fd (ChConn cid) (pol w i)"
    and fd: "chFd (chan (pol w i) (ChConn cid)) = sockFd (conns w cid)"
    using assms by (auto simp: conn_ok_def i_def Let_def chan_of_def)
  obtain q where q: "removeChannel (ker env i) (ChConn cid) (pol w i) = Some q" "poller_ok q"
    "owns_fd (ChConn cid) q" "\<forall>d. chFd (chan q d) = chFd (chan (pol w i) d)"
    "chan q = (chan (pol w i))(ChConn cid := (chan (pol w i) (ChConn cid))\<lparr>chIndex := New\<rparr>)"
    "interest (ctlTrace q) = (interest (ctlTrace (pol w i)))(chFd (chan (pol w i) (ChConn cid)) := None)"
    using removeChannel_ok [OF a] by blast
  define w' where "w' = w\<lparr>pol := (pol w)(i := q)\<rparr>"
  have w': "on_chan env cid removeChannel w = Some w'"
    using q(1) by (simp add: on_chan_def i_def [symmetric] w'_def)
  have "conn_ok env cid w'"
    using assms q(2,3,4) fd by (simp add: conn_ok_def Let_def w'_def i_def chan_of_def)
  moreover have "same_but_chan cid w w'"
    by (simp add: same_but_chan_def w'_def i_def [symmetric])
  moreover have "watched cid w' = None" "chIndex (chan_of cid w') = New"
    using q(5,6) fd by (simp_all add: watched_def w'_def i_def chan_of_def)
  ultimately show ?thesis using w' by blast
qed

lemma same_but_chanD:
  assumes "same_but_chan cid w w'"
  shows "conns w' = conns w" "calls w' = calls w" "evl w' = evl w" "world.more w' = world.more w"
  using assms by (simp_all add: same_but_chan_def)

subsection \<open>Sending: what is kept and what is promised\<close>

lemma or_write_nonzero [simp]: "e OR WriteEvent \<noteq> 0"
proof
  assume "e OR WriteEvent = 0"
  then have "(e OR WriteEvent) AND WriteEvent = 0" by simp
  then show False by (simp add: bit.conj_disj_distrib2 channel_masks)
qed

lemma isWriting_events: "isWriting c \<longleftrightarrow> events c AND WriteEvent \<noteq> 0"
  by (simp add: isWriting_def)

lemma or_write_writing [simp]: "(e OR WriteEvent) AND WriteEvent \<noteq> 0"
  by (simp add: bit.conj_disj_distrib2 channel_masks)

definition high_water :: "'w env \<Rightarrow> connection \<Rightarrow> nat \<Rightarrow> bool" where
  "high_water env c remaining \<longleftrightarrow>
     highWaterMark c \<le> readableBytes (outputBuffer c) + remaining \<and>
     readableBytes (outputBuffer c) < highWaterMark c \<and> onHighWaterMark env \<noteq> None"

lemma send_rest_ok:
  assumes "conn_ok env cid w" "nwrote + remaining = length data"
  shows "\<exists>w'. send_rest env me cid data nwrote remaining w = Some w' \<and> conn_ok env cid w' \<and>
    calls w' = calls w \<and> isWriting (chan_of cid w') \<and> world.more w' = world.more w \<and>
    conns w' = (conns w)(cid := (conns w cid)\<lparr>outputBuffer :=
      append (drop nwrote data) (outputBuffer (conns w cid))\<rparr>) \<and>
    evl w' = (if high_water env (conns w cid) remaining
      then evl (queue_on me (loopIx (conns w cid))
        (FHighWaterMark cid (readableBytes (outputBuffer (conns w cid)) + remaining)) w)
      else evl w)"
proof -
  define c where "c = conns w cid"
  define u where "u = (if high_water env c remaining
    then queue_on me (loopIx c) (FHighWaterMark cid (readableBytes (outputBuffer c) + remaining)) w
    else w)"
  define v where "v = set_conn cid (\<lambda>c. c\<lparr>outputBuffer := append (drop nwrote data) (outputBuffer c)\<rparr>) u"
  have u: "conns u = conns w" "calls u = calls w" "world.more u = world.more w"
    "chan_of cid u = chan_of cid w" "conn_ok env cid u = conn_ok env cid w"
    by (simp_all add: u_def)
  have ok: "conn_ok env cid v" unfolding v_def
    by (rule conn_ok_set_conn) (use assms(1) u conn_okD [OF assms(1)] in simp_all)
  have v: "chan_of cid v = chan_of cid w" "calls v = calls w" "evl v = evl u"
    "world.more v = world.more w"
    "conns v = (conns w)(cid := c\<lparr>outputBuffer := append (drop nwrote data) (outputBuffer c)\<rparr>)"
    by (simp_all add: v_def u c_def)
  have eq: "send_rest env me cid data nwrote remaining w =
      (if \<not> isWriting (chan_of cid v) then on_chan env cid enableWriting v else Some v)"
    using assms(2)
    by (auto simp: send_rest_def Let_def high_water_def v_def u_def c_def)
  show ?thesis
  proof (cases "isWriting (chan_of cid w)")
    case True
    then show ?thesis using eq v ok by (simp add: u_def c_def)
  next
    case False
    obtain w' where w': "on_events env cid (events (chan_of cid v) OR WriteEvent) v = Some w'"
      "conn_ok env cid w'" "same_but_chan cid v w'"
      "events (chan_of cid w') = events (chan_of cid v) OR WriteEvent"
      using on_events_ok [OF ok] by blast
    have "isWriting (chan_of cid w')"
      using w'(4) by (simp add: isWriting_events WriteEvent_def EPOLLOUT_def)
    then show ?thesis
      using False eq v w'(1,2) same_but_chanD [OF w'(3)] by (simp add: on_chan_events u_def c_def)
  qed
qed

text \<open>The outcomes of the direct write.\<close>

definition direct :: "nat \<Rightarrow> 'a world_scheme \<Rightarrow> bool" where
  "direct cid w \<longleftrightarrow> \<not> isWriting (chan_of cid w) \<and> readable (outputBuffer (conns w cid)) = []"

definition write_result :: "'w env \<Rightarrow> nat \<Rightarrow> bytes \<Rightarrow> 'a world_scheme \<Rightarrow> errno + nat" where
  "write_result env cid data w = os_write (os1 env) (calls w) (sockFd (conns w cid)) data"

definition write_fault :: "'w env \<Rightarrow> nat \<Rightarrow> bytes \<Rightarrow> 'a world_scheme \<Rightarrow> bool" where
  "write_fault env cid data w \<longleftrightarrow> direct cid w \<and> write_result env cid data w = Inl ECONNRESET"

definition write_kills :: "'w env \<Rightarrow> nat \<Rightarrow> bytes \<Rightarrow> 'a world_scheme \<Rightarrow> bool" where
  "write_kills env cid data w \<longleftrightarrow> direct cid w \<and> write_result env cid data w = Inl EPIPE"

lemma no_sigpipe_kills: "no_sigpipe (os1 env) \<Longrightarrow> \<not> write_kills env cid data w"
  by (simp add: no_sigpipe_def write_kills_def write_result_def)

lemma direct_iff:
  "conn_ok env cid w \<Longrightarrow> direct cid w \<longleftrightarrow>
     \<not> isWriting (chan_of cid w) \<and> readableBytes (outputBuffer (conns w cid)) = 0"
  using length_readable [OF conn_okD(2)] by (force simp: direct_def)

lemma send_direct_None:
  assumes "conn_ok env cid w"
  shows "send_direct env me cid data w = None \<longleftrightarrow> write_kills env cid data w"
  using direct_iff [OF assms]
  by (auto simp: send_direct_def Let_def sock_write_None write_kills_def write_result_def opt_simps
      split: prod.splits)

lemma send_direct_ok:
  assumes ok: "conn_ok env cid w" and os: "os_ok (os1 env)"
    and res: "send_direct env me cid data w = Some (nwrote, remaining, fault, u)"
  shows "conn_ok env cid u \<and> conns u = conns w \<and> chan_of cid u = chan_of cid w \<and>
    world.more u = world.more w \<and> nwrote + remaining = length data \<and>
    sent_on (sockFd (conns w cid)) (calls u) =
      sent_on (sockFd (conns w cid)) (calls w) @ take nwrote data \<and>
    fault = write_fault env cid data w \<and> (\<not> direct cid w \<longrightarrow> nwrote = 0 \<and> u = w) \<and>
    (fault \<longrightarrow> nwrote = 0 \<and> calls u = calls w @
       [CWrite (sockFd (conns w cid)) data (write_result env cid data w)])"
proof (cases "direct cid w")
  case True
  then have d: "\<not> isWriting (chan_of cid w)" "readableBytes (outputBuffer (conns w cid)) = 0"
    using direct_iff [OF ok] by auto
  show ?thesis
  proof (cases "write_result env cid data w")
    case (Inl e)
    then show ?thesis using res d True ok
      by (auto simp: send_direct_def Let_def write_result_def write_fault_def errno_defs opt_simps
          sock_write_Some)
  next
    case (Inr n)
    then have n: "n \<le> length data" using os by (auto simp: os_ok_def write_result_def)
    show ?thesis using res d True ok Inr n
      by (auto simp: send_direct_def Let_def write_result_def write_fault_def opt_simps sock_write_Some)
  qed
next
  case False
  then have "\<not> (\<not> isWriting (chan_of cid w) \<and> readableBytes (outputBuffer (conns w cid)) = 0)"
    using direct_iff [OF ok] by simp
  then have "send_direct env me cid data w = Some (0, length data, False, w)"
    by (auto simp: send_direct_def Let_def)
  then show ?thesis using False ok res by (auto simp: write_fault_def)
qed

text \<open>When the direct write leaves nothing to be buffered.\<close>

lemma send_direct_done:
  assumes ok: "conn_ok env cid w" and os: "os_ok (os1 env)"
    and res: "send_direct env me cid data w = Some (nwrote, remaining, fault, u)" and "fault \<or> remaining = 0"
  defines "sent \<equiv> sent_on (sockFd (conns w cid))" and "out \<equiv> readable (outputBuffer (conns w cid))"
  shows "if write_fault env cid data w then sent (calls u) = sent (calls w)
    else sent (calls u) @ out = sent (calls w) @ out @ data"
proof -
  have U: "sent (calls u) = sent (calls w) @ take nwrote data" "fault = write_fault env cid data w"
    "fault \<Longrightarrow> nwrote = 0" "nwrote + remaining = length data" "\<not> direct cid w \<longrightarrow> nwrote = 0"
    using send_direct_ok [OF ok os res] by (simp_all add: sent_def)
  show ?thesis
  proof (cases fault)
    case True
    then show ?thesis using U(1-3) by simp
  next
    case False
    then have "take nwrote data = data" using assms(4) U(4) by simp
    moreover from this have "data = [] \<or> out = []" using U(5) by (auto simp: direct_def out_def)
    ultimately show ?thesis using False U(1,2) by auto
  qed
qed

lemma sendInLoop_kills:
  "conn_ok env cid w \<Longrightarrow> write_kills env cid data w \<Longrightarrow> sendInLoop env me cid data w = None"
  by (simp add: sendInLoop_def send_direct_None [THEN iffD2])

lemma sendInLoop_ok:
  assumes ok: "conn_ok env cid w" and os: "os_ok (os1 env)" and nk: "\<not> write_kills env cid data w"
  shows "\<exists>w'. sendInLoop env me cid data w = Some w' \<and> conn_ok env cid w' \<and>
    world.more w' = world.more w \<and>
    (\<forall>d. d \<noteq> cid \<longrightarrow> conns w' d = conns w d) \<and>
    (\<exists>b. conns w' cid = (conns w cid)\<lparr>outputBuffer := b\<rparr>) \<and>
    (if write_fault env cid data w
     then sent_on (sockFd (conns w cid)) (calls w') = sent_on (sockFd (conns w cid)) (calls w) \<and>
       readable (outputBuffer (conns w' cid)) = readable (outputBuffer (conns w cid))
     else sent_on (sockFd (conns w cid)) (calls w') @ readable (outputBuffer (conns w' cid)) =
         sent_on (sockFd (conns w cid)) (calls w) @ readable (outputBuffer (conns w cid)) @ data) \<and>
    (isWriting (chan_of cid w') \<longleftrightarrow> isWriting (chan_of cid w) \<or>
       readable (outputBuffer (conns w' cid)) \<noteq> readable (outputBuffer (conns w cid)))"
proof -
  obtain nwrote remaining fault u where
    res: "send_direct env me cid data w = Some (nwrote, remaining, fault, u)"
    using send_direct_None [OF ok, of me data] nk by (cases "send_direct env me cid data w") auto
  define sent where "sent = sent_on (sockFd (conns w cid))"
  define out where "out = readable (outputBuffer (conns w cid))"
  have U: "conn_ok env cid u" "conns u = conns w" "chan_of cid u = chan_of cid w"
    "world.more u = world.more w" "nwrote + remaining = length data"
    "sent (calls u) = sent (calls w) @ take nwrote data" "fault = write_fault env cid data w"
    "fault \<Longrightarrow> nwrote = 0" and nd: "\<not> direct cid w \<longrightarrow> nwrote = 0 \<and> u = w"
    using send_direct_ok [OF ok os res] by (simp_all add: sent_def)
  have dir: "nwrote = 0 \<or> out = []" using nd by (auto simp: direct_def out_def)
  have bok: "buf_ok (outputBuffer (conns w cid))" by (rule conn_okD(2) [OF ok])
  show ?thesis
  proof (cases "\<not> fault \<and> 0 < remaining")
    case True
    have ne: "drop nwrote data \<noteq> []" using U(5) True by auto
    obtain w' where w': "send_rest env me cid data nwrote remaining u = Some w'" "conn_ok env cid w'"
      "calls w' = calls u" "isWriting (chan_of cid w')" "world.more w' = world.more u"
      "conns w' = (conns u)(cid := (conns u cid)\<lparr>outputBuffer :=
         append (drop nwrote data) (outputBuffer (conns u cid))\<rparr>)"
      using send_rest_ok [OF U(1,5), of me] by blast
    have r: "sendInLoop env me cid data w = Some w'"
      using True w'(1) by (simp add: sendInLoop_def res)
    have o: "readable (outputBuffer (conns w' cid)) = out @ drop nwrote data"
      using w'(6) bok by (simp add: U(2) out_def)
    have "sent (calls w') @ readable (outputBuffer (conns w' cid)) = sent (calls w) @ out @ data"
      using dir by (auto simp: o w'(3) U(6))
    moreover have "\<not> write_fault env cid data w" using True U(7) by simp
    moreover have "\<exists>b. conns w' cid = (conns w cid)\<lparr>outputBuffer := b\<rparr>"
      using w'(6) by (auto simp: U(2))
    moreover have "\<forall>d. d \<noteq> cid \<longrightarrow> conns w' d = conns w d" using w'(6) by (simp add: U(2))
    moreover have "readable (outputBuffer (conns w' cid)) \<noteq> out" using o ne by simp
    moreover have "world.more w' = world.more w" using w'(5) U(4) by simp
    ultimately show ?thesis using r w'(2,4)
      by (intro exI [of _ w']) (simp add: sent_def out_def)
  next
    case False
    have r: "sendInLoop env me cid data w = Some u" using False by (auto simp: sendInLoop_def res)
    have "\<exists>b. conns u cid = (conns w cid)\<lparr>outputBuffer := b\<rparr>"
      by (rule exI [of _ "outputBuffer (conns w cid)"]) (simp add: U(2))
    then show ?thesis using r U(1-4) send_direct_done [OF ok os res] False
      by (intro exI [of _ u]) (simp add: sent_def out_def split: if_splits)
  qed
qed

subsection \<open>Closing and reading\<close>

text \<open>The state in which \<open>handleClose\<close> calls the callbacks.\<close>

definition closed_for :: "'w env \<Rightarrow> nat \<Rightarrow> 'a world_scheme \<Rightarrow> 'a world_scheme \<Rightarrow> bool" where
  "closed_for env cid w w1 \<longleftrightarrow> conn_ok env cid w1 \<and> calls w1 = calls w \<and> evl w1 = evl w \<and>
     world.more w1 = world.more w \<and>
     conns w1 = (conns w)(cid := (conns w cid)\<lparr>connState := KDisconnected\<rparr>) \<and>
     events (chan_of cid w1) = 0 \<and>
     watched cid w1 = (if chIndex (chan_of cid w) = Added then None else Some (0, ChConn cid)) \<and>
     chIndex (chan_of cid w1) = (if chIndex (chan_of cid w) = Added then Deleted else Added)"

lemma conn_ok_setState [simp]: "conn_ok env cid w \<Longrightarrow> conn_ok env cid (setState cid st w)"
  unfolding setState_def by (rule conn_ok_set_conn) (simp_all add: conn_okD)

lemma setState_sel [simp]:
  "calls (setState cid st w) = calls w" "evl (setState cid st w) = evl w"
  "pol (setState cid st w) = pol w" "world.more (setState cid st w) = world.more w"
  "conns (setState cid st w) = (conns w)(cid := (conns w cid)\<lparr>connState := st\<rparr>)"
  "chan_of cid (setState cid st w) = chan_of cid w"
  by (simp_all add: setState_def)

lemma handleClose_ok:
  assumes "conn_ok env cid w"
  shows "\<exists>w1. closed_for env cid w w1 \<and>
    handleClose env cid w = invoke (onConnection env) cid w1 \<bind> invoke (onClose env) cid"
proof -
  have ok: "conn_ok env cid (setState cid KDisconnected w)" using assms by simp
  obtain w1 where w1: "on_events env cid 0 (setState cid KDisconnected w) = Some w1"
    "conn_ok env cid w1" "same_but_chan cid (setState cid KDisconnected w) w1"
    "events (chan_of cid w1) = 0"
    "chIndex (chan_of cid w1) = (if chIndex (chan_of cid w) = Added then Deleted else Added)"
    "watched cid w1 = (if chIndex (chan_of cid w) = Added then None else Some (0, ChConn cid))"
    using on_events_ok [OF ok, of 0] by auto
  have "closed_for env cid w w1"
    using w1(2,4,5,6) same_but_chanD [OF w1(3)] by (simp add: closed_for_def)
  moreover have "handleClose env cid w = invoke (onConnection env) cid w1 \<bind> invoke (onClose env) cid"
    using w1(1) by (simp add: handleClose_def on_chan_events)
  ultimately show ?thesis by blast
qed

text \<open>What a connection's \<open>readv\<close> returned.\<close>

definition read_result :: "'w env \<Rightarrow> nat \<Rightarrow> 'a world_scheme \<Rightarrow> errno + bytes" where
  "read_result env cid w =
     os_read (os1 env) (calls w) (sockFd (conns w cid))
       (readFd_capacity (inputBuffer (conns w cid)))"

text \<open>The state after the bytes are in the input buffer.\<close>

definition after_read :: "'w env \<Rightarrow> nat \<Rightarrow> 'a world_scheme \<Rightarrow> 'a world_scheme" where
  "after_read env cid w =
     set_conn cid (\<lambda>c. c\<lparr>inputBuffer :=
         snd (snd (readFd (read_result env cid w) (inputBuffer (conns w cid))))\<rparr>)
       (log_call (CRead (sockFd (conns w cid)) (read_result env cid w)) w)"

lemma conn_handleRead_eq:
  assumes "conn_ok env cid w" "os_ok (os1 env)"
  shows "conn_handleRead env cid t w = (case read_result env cid w of
      Inl e \<Rightarrow> handleError env cid (after_read env cid w)
    | Inr bs \<Rightarrow> if bs = [] then handleClose env cid (after_read env cid w)
        else invoke (map_option (\<lambda>f c. f c t) (onMessage env)) cid (after_read env cid w))"
proof (cases "read_result env cid w")
  case (Inl e)
  then show ?thesis
    by (simp add: conn_handleRead_def Let_def after_read_def read_result_def)
next
  case (Inr bs)
  then have cap: "length bs \<le> readFd_capacity (inputBuffer (conns w cid))"
    using assms(2) by (auto simp: os_ok_def read_result_def)
  obtain n e b where r: "readFd (Inr bs) (inputBuffer (conns w cid)) = (n, e, b)"
    by (cases "readFd (Inr bs) (inputBuffer (conns w cid))") auto
  have "n = int (length bs)" using readFd_readable [OF conn_okD(1) [OF assms(1)] cap r] by simp
  then show ?thesis using Inr r
    by (cases "bs = []") (auto simp: conn_handleRead_def Let_def after_read_def read_result_def)
qed

lemma after_read_ok:
  assumes "conn_ok env cid w" "os_ok (os1 env)"
  shows "conn_ok env cid (after_read env cid w) \<and>
    chan_of cid (after_read env cid w) = chan_of cid w \<and>
    world.more (after_read env cid w) = world.more w \<and> evl (after_read env cid w) = evl w \<and>
    (\<forall>bs. read_result env cid w = Inr bs \<longrightarrow>
       readable (inputBuffer (conns (after_read env cid w) cid)) =
         readable (inputBuffer (conns w cid)) @
         (if length bs < writableBytes (inputBuffer (conns w cid)) then bs
          else drop (writableBytes (inputBuffer (conns w cid))) bs))"
proof -
  define b where "b = inputBuffer (conns w cid)"
  have b: "buf_ok b" using conn_okD(1) [OF assms(1)] by (simp add: b_def)
  define q where "q = snd (snd (readFd (read_result env cid w) b))"
  have q: "buf_ok q \<and> (\<forall>bs. read_result env cid w = Inr bs \<longrightarrow> readable q = readable b @
      (if length bs < writableBytes b then bs else drop (writableBytes b) bs))"
  proof (cases "read_result env cid w")
    case (Inl e)
    then show ?thesis using b by (simp add: q_def)
  next
    case (Inr bs)
    then have cap: "length bs \<le> readFd_capacity b"
      using assms(2) by (auto simp: os_ok_def read_result_def b_def)
    obtain n e b' where r: "readFd (Inr bs) b = (n, e, b')" by (cases "readFd (Inr bs) b") auto
    show ?thesis using readFd_readable [OF b cap r] Inr r by (simp add: q_def)
  qed
  have "conn_ok env cid (after_read env cid w)" unfolding after_read_def
    by (rule conn_ok_set_conn)
      (use assms(1) q conn_okD [OF assms(1)] in \<open>simp_all add: q_def b_def\<close>)
  then show ?thesis using q by (simp add: after_read_def b_def q_def)
qed

lemma handleError_ok:
  assumes "conn_ok env cid w"
  shows "\<exists>w1 r. closed_for env cid (log_call (CSoError (sockFd (conns w cid)) r) w) w1 \<and>
    handleError env cid w = invoke (onConnection env) cid w1 \<bind> invoke (onClose env) cid"
  using handleClose_ok [of env cid "log_call (CSoError (sockFd (conns w cid))
      (os_soerror (os1 env) (calls w) (sockFd (conns w cid)))) w"] assms
  by (auto simp: handleError_def Let_def)

subsection \<open>Writing what is pending\<close>

lemma and_not_write [simp]: "\<not> isWriting c \<longleftrightarrow> events c AND WriteEvent = 0"
  by (simp add: isWriting_def)

lemma and_not_writing [simp]: "(e AND NOT WriteEvent) AND WriteEvent = 0"
  by (simp add: and.assoc)

lemma write_drained_ok:
  assumes ok: "conn_ok env cid v"
  defines "fd \<equiv> sockFd (conns v cid)"
  shows "\<exists>w'. write_drained env me cid v = Some w' \<and> conn_ok env cid w' \<and> conns w' = conns v \<and>
    events (chan_of cid w') = events (chan_of cid v) AND NOT WriteEvent \<and>
    evl w' = (if onWriteComplete env \<noteq> None
      then evl (queue_on me (loopIx (conns v cid)) (FWriteComplete cid) v) else evl v) \<and>
    calls w' = calls v @ (if connState (conns v cid) = KDisconnecting
      then [CShutdown fd (os_shutdown (os1 env) (calls v) fd)] else [])"
proof -
  obtain w3 where w3: "on_events env cid (events (chan_of cid v) AND NOT WriteEvent) v = Some w3"
    "conn_ok env cid w3" "same_but_chan cid v w3"
    "events (chan_of cid w3) = events (chan_of cid v) AND NOT WriteEvent"
    using on_events_ok [OF ok] by blast
  note S = same_but_chanD [OF w3(3)]
  define w4 where "w4 = (if onWriteComplete env \<noteq> None
      then queue_on me (loopIx (conns v cid)) (FWriteComplete cid) w3 else w3)"
  define w5 where "w5 = (if connState (conns w4 cid) = KDisconnecting then shutdownInLoop env cid w4 else w4)"
  have w4: "conns w4 = conns v" "calls w4 = calls v" "chan_of cid w4 = chan_of cid w3" "conn_ok env cid w4"
    "evl w4 = (if onWriteComplete env \<noteq> None
      then evl (queue_on me (loopIx (conns v cid)) (FWriteComplete cid) v) else evl v)"
    using w3(2) by (simp_all add: w4_def S)
  have "write_drained env me cid v = Some w5"
    using w3(1) by (simp add: write_drained_def on_chan_events w5_def w4_def)
  then show ?thesis
    using w3(4) w4 by (intro exI [of _ w5]) (simp add: w5_def shutdownInLoop_def shutdownWrite_def fd_def)
qed

lemma handleWrite_ok:
  assumes ok: "conn_ok env cid w" and wr: "isWriting (chan_of cid w)" and os: "os_ok (os1 env)"
  defines "slack \<equiv> writeFd_bytes (outputBuffer (conns w cid))"
    and "fd \<equiv> sockFd (conns w cid)" and "out \<equiv> readable (outputBuffer (conns w cid))"
  defines "r \<equiv> os_write (os1 env) (calls w) fd slack"
  assumes np: "r \<noteq> Inl EPIPE"
  shows "\<exists>w'. handleWrite env me cid w = Some w' \<and> conn_ok env cid w' \<and>
    (case r of
       Inl e \<Rightarrow> w' = log_call (CWrite fd slack r) w
     | Inr n \<Rightarrow>
         if n = 0 then w' = log_call (CWrite fd slack r) w
         else readable (outputBuffer (conns w' cid)) = drop n out \<and>
           conns w' = (conns w)(cid :=
             (conns w cid)\<lparr>outputBuffer := retrieve n (outputBuffer (conns w cid))\<rparr>) \<and>
           (if drop n out \<noteq> []
            then events (chan_of cid w') = events (chan_of cid w) \<and> evl w' = evl w \<and>
              calls w' = calls w @ [CWrite fd slack r]
            else events (chan_of cid w') = events (chan_of cid w) AND NOT WriteEvent \<and>
              evl w' = (if onWriteComplete env \<noteq> None
                then evl (queue_on me (loopIx (conns w cid)) (FWriteComplete cid) w) else evl w) \<and>
              calls w' = calls w @ CWrite fd slack r #
                (if connState (conns w cid) = KDisconnecting
                 then [CShutdown fd (os_shutdown (os1 env) (calls w @ [CWrite fd slack r]) fd)]
                 else [])))"
proof -
  define c where "c = conns w cid"
  define u where "u = log_call (CWrite fd slack r) w"
  have oku: "conn_ok env cid u" using ok by (simp add: u_def)
  have sw: "sock_write (os1 env) fd slack w = Some (r, u)"
    using np by (simp add: sock_write_Some r_def u_def)
  show ?thesis
  proof (cases "\<exists>n. r = Inr n \<and> 0 < n")
    case False
    have "int32 (- 1) = - 1" "int32 0 = 0" by (simp_all add: int32_id)
    then have "handleWrite env me cid w = Some u"
      using wr sw False by (cases r) (auto simp: handleWrite_def Let_def writeFd_def slack_def fd_def)
    then show ?thesis using False oku by (cases r) (auto simp: u_def)
  next
    case True
    then obtain n where n: "r = Inr n" "0 < n" by blast
    then have i: "int32 (int n) = int n" using os int32_transfer by (auto simp: os_ok_def r_def)
    define v where "v = set_conn cid (\<lambda>c. c\<lparr>outputBuffer := retrieve n (outputBuffer c)\<rparr>) u"
    have bok: "buf_ok (outputBuffer c)" using conn_okD(2) [OF ok] by (simp add: c_def)
    have okv: "conn_ok env cid v" unfolding v_def
      by (rule conn_ok_set_conn) (use oku conn_okD [OF oku] in simp_all)
    have v: "chan_of cid v = chan_of cid w" "calls v = calls w @ [CWrite fd slack r]" "evl v = evl w"
      "conns v = (conns w)(cid := c\<lparr>outputBuffer := retrieve n (outputBuffer c)\<rparr>)"
      by (simp_all add: v_def u_def c_def)
    have out: "readable (outputBuffer (conns v cid)) = drop n out"
      using bok by (simp add: v out_def c_def)
    have empty: "readableBytes (outputBuffer (conns v cid)) = 0 \<longleftrightarrow> drop n out = []"
      using length_readable [OF conn_okD(2) [OF okv]] out by force
    have eq: "handleWrite env me cid w = (if readableBytes (outputBuffer (conns v cid)) = 0
        then write_drained env me cid v else Some v)"
      using wr n sw i unfolding handleWrite_def Let_def v_def
      by (simp add: writeFd_def slack_def fd_def)
    show ?thesis
    proof (cases "drop n out = []")
      case False
      then show ?thesis using eq empty okv out v wr n by (simp add: c_def)
    next
      case True
      obtain w' where "write_drained env me cid v = Some w'" "conn_ok env cid w'" "conns w' = conns v"
        "events (chan_of cid w') = events (chan_of cid v) AND NOT WriteEvent"
        "evl w' = (if onWriteComplete env \<noteq> None
          then evl (queue_on me (loopIx (conns v cid)) (FWriteComplete cid) v) else evl v)"
        "calls w' = calls v @ (if connState (conns v cid) = KDisconnecting
          then [CShutdown (sockFd (conns v cid)) (os_shutdown (os1 env) (calls v) (sockFd (conns v cid)))] else [])"
        using write_drained_ok [OF okv, of me] by blast
      then show ?thesis
        using eq empty True out n by (intro exI [of _ w']) (simp add: v c_def fd_def)
    qed
  qed
qed

subsection \<open>A fresh connection\<close>

lemma poller_ok_new_channel:
  assumes "poller_ok p" "chIndex (chan p c) = New"
  shows "poller_ok (set_chan c (\<lambda>_. Channel fd) p)"
proof -
  have k: "keys_ok p" and w: "interest (ctlTrace p) = wanted p"
    using assms(1) by (auto simp: poller_ok_def)
  have nc: "channels p fd' \<noteq> Some c" for fd'
    using keys_okD(1) [OF k, of fd' c] keys_okD(3) [OF k, of c] assms(2) by auto
  have "keys_ok (set_chan c (\<lambda>_. Channel fd) p)"
    using k nc by (auto simp: keys_ok_def hasChannel_def Channel_def index_defs)
  moreover have "wanted (set_chan c (\<lambda>_. Channel fd) p) fd' = wanted p fd'" for fd'
    using nc [of fd'] by (auto simp: wanted_def split: option.splits)
  ultimately show ?thesis using w by (auto simp: poller_ok_def)
qed

lemma TcpConnection_sel [simp]:
  "conns (TcpConnection cid i name sockfd la pa w) cid = \<lparr>loopIx = i, connName = name,
     connState = KConnecting, reading = True, sockFd = sockfd, localAddr = la, peerAddr = pa,
     highWaterMark = 64 * 1024 * 1024, inputBuffer = new_Buffer InitialSize,
     outputBuffer = new_Buffer InitialSize\<rparr>"
  "d \<noteq> cid \<Longrightarrow> conns (TcpConnection cid i name sockfd la pa w) d = conns w d"
  "pol (TcpConnection cid i name sockfd la pa w) =
     (pol w)(i := set_chan (ChConn cid) (\<lambda>_. Channel sockfd) (pol w i))"
  "world.more (TcpConnection cid i name sockfd la pa w) = world.more w"
  "calls (TcpConnection cid i name sockfd la pa w) = calls w @ [CSetopt sockfd SO_KEEPALIVE True]"
  "evl (TcpConnection cid i name sockfd la pa w) = evl w"
  "chan_of cid (TcpConnection cid i name sockfd la pa w) = Channel sockfd"
  by (simp_all add: TcpConnection_def setKeepAlive_def log_call_def chan_of_def)

lemma TcpConnection_ok:
  assumes "epoll_ok (ker env i)" "poller_ok (pol w i)" "chIndex (chan (pol w i) (ChConn cid)) = New"
    and "channels (pol w i) sockfd = None"
  shows "conn_ok env cid (TcpConnection cid i name sockfd la pa w)"
  using assms poller_ok_new_channel [OF assms(2,3), of sockfd]
  by (simp add: conn_ok_def Let_def owns_fd_def Channel_def)

lemma conn_ok_tie [simp]: "conn_ok env cid w \<Longrightarrow> conn_ok env cid (tie_channel cid w)"
proof -
  assume ok: "conn_ok env cid w"
  define i where "i = loopIx (conns w cid)"
  have "poller_ok (pol w i)" using ok by (simp add: conn_ok_def Let_def i_def)
  then have "poller_ok (set_chan (ChConn cid) tie (pol w i))"
    by (simp add: poller_ok_def keys_ok_def hasChannel_def wanted_def tie_def fun_eq_iff
        split: option.splits)
  then show ?thesis using ok
    by (simp add: conn_ok_def Let_def tie_channel_def i_def [symmetric] owns_fd_def chan_of_def tie_def)
qed

lemma tie_channel_sel [simp]:
  "conns (tie_channel cid w) = conns w" "calls (tie_channel cid w) = calls w"
  "evl (tie_channel cid w) = evl w" "world.more (tie_channel cid w) = world.more w"
  "chan_of cid (tie_channel cid w) = tie (chan_of cid w)"
  by (simp_all add: tie_channel_def Let_def chan_of_def)

lemma or_read_nonzero [simp]: "e OR ReadEvent \<noteq> 0"
proof
  assume "e OR ReadEvent = 0"
  then have "(e OR ReadEvent) AND ReadEvent = 0" by simp
  then show False by (simp add: bit.conj_disj_distrib2 channel_masks)
qed

lemma connectEstablished_ok:
  assumes "conn_ok env cid w"
  shows "\<exists>w1. connectEstablished env cid w = invoke (onConnection env) cid w1 \<and>
    conn_ok env cid w1 \<and> connected cid w1 \<and> tied (chan_of cid w1) \<and>
    calls w1 = calls w \<and> evl w1 = evl w \<and> world.more w1 = world.more w \<and>
    conns w1 = (conns w)(cid := (conns w cid)\<lparr>connState := KConnected\<rparr>) \<and>
    events (chan_of cid w1) = events (chan_of cid w) OR ReadEvent \<and>
    chIndex (chan_of cid w1) = Added \<and>
    watched cid w1 = Some (events (chan_of cid w) OR ReadEvent, ChConn cid)"
proof -
  define u where "u = tie_channel cid (setState cid KConnected w)"
  have ok: "conn_ok env cid u" using assms by (simp add: u_def)
  have ch: "chan_of cid u = tie (chan_of cid w)" by (simp add: u_def)
  obtain w1 where w1: "on_events env cid (events (chan_of cid u) OR ReadEvent) u = Some w1"
    "conn_ok env cid w1" "same_but_chan cid u w1"
    "events (chan_of cid w1) = events (chan_of cid u) OR ReadEvent"
    "tied (chan_of cid w1) = tied (chan_of cid u)" "chIndex (chan_of cid w1) = Added"
    "watched cid w1 = Some (events (chan_of cid u) OR ReadEvent, ChConn cid)"
    using on_events_ok [OF ok, of "events (chan_of cid u) OR ReadEvent"] by auto
  have "connectEstablished env cid w = invoke (onConnection env) cid w1"
    using w1(1) by (simp add: connectEstablished_def u_def [symmetric] on_chan_events)
  then show ?thesis
    using w1(2,4-7) same_but_chanD [OF w1(3)]
    by (intro exI [of _ w1]) (simp add: connected_def ch u_def tie_def)
qed

text \<open>
  An environment and an established connection for the witnesses: every read delivers
  \<open>inp\<close>, every write takes at most \<open>k\<close> bytes or fails, the callbacks do nothing.
\<close>

definition demo_os :: "errno + bytes \<Rightarrow> errno + nat \<Rightarrow> os" where
  "demo_os inp k =
     \<lparr>os_socket = \<lambda>_. Inr 3, os_bind = \<lambda>_ _ _. None, os_listen = \<lambda>_ _ _. None,
      os_accept = \<lambda>_ _. Inl EAGAIN, os_getsockname = \<lambda>_ _. Inr zero_addr,
      os_soerror = \<lambda>_ _. Inr 0, os_read = \<lambda>_ _ n. map_sum id (take n) inp,
      os_write = \<lambda>_ _ bs. map_sum id (\<lambda>k. min (length bs) (min k max_transfer)) k,
      os_shutdown = \<lambda>_ _. None\<rparr>"

lemma demo_os_ok [simp]: "os_ok (demo_os inp k)"
  by (cases inp; cases k) (auto simp: demo_os_def os_ok_def)

lemma demo_write [simp]:
  "os_write (demo_os inp (Inr k)) tr d bs = Inr (min (length bs) (min k max_transfer))"
  "os_write (demo_os inp (Inl e)) tr d bs = Inl e"
  by (simp_all add: demo_os_def)

lemma demo_read [simp]: "os_read (demo_os inp k) tr d n = map_sum id (take n) inp"
  by (simp add: demo_os_def)

lemma min_transfer [simp]:
  "min (numeral k) max_transfer = min (numeral k) 2147479552" "min (Suc 0) max_transfer = Suc 0"
  by (simp_all add: max_transfer_def)

definition quiet_env :: "errno + bytes \<Rightarrow> errno + nat \<Rightarrow> 'w env" where
  "quiet_env inp k =
     \<lparr>os1 = demo_os inp k, ker = \<lambda>_. epoll_ref, deref = \<lambda>_ _ _. None,
      onConnection = Some (\<lambda>_ w. Some w), onMessage = Some (\<lambda>_ _ w. Some w),
      onClose = Some (\<lambda>_ w. Some w), onWriteComplete = None, onHighWaterMark = None\<rparr>"

lemma quiet_env_sel [simp]:
  "epoll_ok (ker (quiet_env inp k) i)"
  "os1 (quiet_env inp k) = demo_os inp k"
  "onConnection (quiet_env inp k) = Some (\<lambda>_ w. Some w)" "onClose (quiet_env inp k) = Some (\<lambda>_ w. Some w)"
  "onMessage (quiet_env inp k) = Some (\<lambda>_ _ w. Some w)"
  "onWriteComplete (quiet_env inp k) = None" "onHighWaterMark (quiet_env inp k) = None"
  by (simp_all add: quiet_env_def)

definition demo_env :: "errno + bytes \<Rightarrow> errno + nat \<Rightarrow> world env" where
  "demo_env inp k = quiet_env inp k"

lemma demo_env_sel [simp]:
  "os_ok (os1 (demo_env inp k))" "epoll_ok (ker (demo_env inp k) i)"
  "os1 (demo_env inp k) = demo_os inp k"
  "onConnection (demo_env inp k) = Some (\<lambda>_ w. Some w)" "onClose (demo_env inp k) = Some (\<lambda>_ w. Some w)"
  "onMessage (demo_env inp k) = Some (\<lambda>_ _ w. Some w)"
  "onWriteComplete (demo_env inp k) = None" "onHighWaterMark (demo_env inp k) = None"
  by (simp_all add: demo_env_def)

definition blank_conn :: connection where
  "blank_conn = \<lparr>loopIx = 0, connName = [], connState = KDisconnected, reading = False,
     sockFd = -1, localAddr = zero_addr, peerAddr = zero_addr, highWaterMark = 0,
     inputBuffer = new_Buffer 0, outputBuffer = new_Buffer 0\<rparr>"

definition base_world :: world where
  "base_world = \<lparr>calls = [], evl = \<lambda>_. EventLoop, pol = \<lambda>_. EPollPoller (\<lambda>_. Channel (-1)),
     conns = \<lambda>_. blank_conn\<rparr>"

definition demo_conn :: "'a world_scheme \<Rightarrow> 'a world_scheme" where
  "demo_conn w = TcpConnection 0 1 ''c'' 7 zero_addr zero_addr w"

lemma poller_ok_EPollPoller [simp]:
  "(\<And>c. chIndex (mem c) = New) \<Longrightarrow> poller_ok (EPollPoller mem)"
  by (auto simp: poller_ok_def keys_ok_def EPollPoller_def hasChannel_def wanted_def)

lemma demo_conn_ok:
  assumes "pol w 1 = EPollPoller (\<lambda>_. Channel (-1))"
  shows "conn_ok (quiet_env inp k) 0 (demo_conn w)"
  unfolding demo_conn_def
proof (rule TcpConnection_ok)
  show "poller_ok (pol w 1)" unfolding assms
    by (rule poller_ok_EPollPoller) (simp add: Channel_def New_def)
  show "chIndex (chan (pol w 1) (ChConn 0)) = New" "channels (pol w 1) 7 = None"
    unfolding assms by (simp_all add: EPollPoller_def Channel_def New_def)
qed simp

text \<open>The established connection.\<close>

lemma quiet_established:
  fixes w0 :: "'a world_scheme" and env :: "('a world_scheme) env"
  assumes "pol w0 1 = EPollPoller (\<lambda>_. Channel (-1))" "calls w0 = []" "env = quiet_env inp k"
  shows "\<exists>w. connectEstablished env 0 (demo_conn w0) = Some w \<and>
    conn_ok env 0 w \<and> connected 0 w \<and> tied (chan_of 0 w) \<and>
    chIndex (chan_of 0 w) = Added \<and> events (chan_of 0 w) = 3 \<and> watched 0 w = Some (3, ChConn 0) \<and>
    calls w = [CSetopt 7 SO_KEEPALIVE True] \<and> sockFd (conns w 0) = 7 \<and> loopIx (conns w 0) = 1 \<and>
    inputBuffer (conns w 0) = new_Buffer 1024 \<and> outputBuffer (conns w 0) = new_Buffer 1024 \<and>
    connName (conns w 0) = ''c'' \<and> evl w = evl w0 \<and> world.more w = world.more w0"
proof -
  have ok: "conn_ok env 0 (demo_conn w0)" unfolding assms(3) by (rule demo_conn_ok [OF assms(1)])
  obtain w where w: "connectEstablished env 0 (demo_conn w0) = invoke (onConnection env) 0 w"
    "conn_ok env 0 w" "connected 0 w"
    "tied (chan_of 0 w)" "calls w = calls (demo_conn w0)" "evl w = evl (demo_conn w0)"
    "world.more w = world.more (demo_conn w0)"
    "conns w = (conns (demo_conn w0))(0 := (conns (demo_conn w0) 0)\<lparr>connState := KConnected\<rparr>)"
    "events (chan_of 0 w) = events (chan_of 0 (demo_conn w0)) OR ReadEvent"
    "chIndex (chan_of 0 w) = Added"
    "watched 0 w = Some (events (chan_of 0 (demo_conn w0)) OR ReadEvent, ChConn 0)"
    using connectEstablished_ok [OF ok] by blast
  have "connectEstablished env 0 (demo_conn w0) = Some w"
    using w(1) by (simp add: invoke_def assms(3))
  moreover have "events (chan_of 0 (demo_conn w0)) OR ReadEvent = 3"
    by (simp add: demo_conn_def Channel_def channel_masks)
  ultimately show ?thesis using w(2-) assms(2)
    by (intro exI [of _ w]) (simp add: demo_conn_def InitialSize_def)
qed

lemma demo_established:
  "\<exists>w. connectEstablished (demo_env inp k) 0 (demo_conn base_world) = Some w \<and>
    conn_ok (demo_env inp k) 0 w \<and>
    connected 0 w \<and> tied (chan_of 0 w) \<and> chIndex (chan_of 0 w) = Added \<and>
    events (chan_of 0 w) = 3 \<and> watched 0 w = Some (3, ChConn 0) \<and>
    calls w = [CSetopt 7 SO_KEEPALIVE True] \<and> sockFd (conns w 0) = 7 \<and> loopIx (conns w 0) = 1 \<and>
    inputBuffer (conns w 0) = new_Buffer 1024 \<and> outputBuffer (conns w 0) = new_Buffer 1024"
proof -
  have "pol base_world 1 = EPollPoller (\<lambda>_. Channel (-1))" "calls base_world = []"
    by (simp_all add: base_world_def)
  then show ?thesis using quiet_established [of base_world, OF _ _ refl] unfolding demo_env_def by blast
qed

subsection \<open>Properties\<close>

text \<open>
  Establishment. For a new connection on any descriptor that its loop's poller does not
  know, the construction and \<open>connectEstablished\<close> never fail before the connection callback,
  which sees a connected connection with empty buffers, whose channel is tied and which
  the kernel watches for exactly the read events.
\<close>

lemma connection_established:
  assumes "epoll_ok (ker env i)" "poller_ok (pol w i)" "chIndex (chan (pol w i) (ChConn cid)) = New"
    and "channels (pol w i) sockfd = None"
  shows "\<exists>w1. connectEstablished env cid (TcpConnection cid i name sockfd la pa w) =
      invoke (onConnection env) cid w1 \<and> conn_ok env cid w1 \<and> connected cid w1 \<and>
    tied (chan_of cid w1) \<and> watched cid w1 = Some (ReadEvent, ChConn cid) \<and>
    readable (inputBuffer (conns w1 cid)) = [] \<and> readable (outputBuffer (conns w1 cid)) = [] \<and>
    calls w1 = calls w @ [CSetopt sockfd SO_KEEPALIVE True] \<and> evl w1 = evl w"
  using connectEstablished_ok [OF TcpConnection_ok [OF assms, of name la pa]]
  by (auto simp: Channel_def)

lemma connection_established_witness:
  "\<exists>w1. connectEstablished (demo_env (Inr []) (Inr 0)) 0
      (TcpConnection 0 1 ''c'' 7 zero_addr zero_addr base_world) = Some w1 \<and>
    watched 0 w1 = Some (3, ChConn 0)"
proof -
  have a: "poller_ok (pol base_world 1)" "chIndex (chan (pol base_world 1) (ChConn 0)) = New"
    "channels (pol base_world 1) 7 = None"
    by (simp_all add: base_world_def Channel_def New_def)
      (simp_all add: EPollPoller_def Channel_def)
  show ?thesis
    using connection_established [of "demo_env (Inr []) (Inr 0)" 1 base_world 0 7 "''c''"
        zero_addr zero_addr] a
    by (auto simp: invoke_def channel_masks)
qed

text \<open>
  C18 (a send keeps the byte stream). What has been sent on the descriptor followed by what is
  pending in the output buffer is, after \<open>sendInLoop\<close>, what it was before followed by the
  data, in order and complete, whatever part the direct \<open>write\<close> took; when the direct write
  fails with ECONNRESET all of the data is dropped. The write event is enabled whenever
  something was added to the output buffer. \<open>sendInLoop\<close> fails exactly when the direct write
  meets a closed connection: SIGPIPE then ends the process.
\<close>

theorem send_conserves:
  assumes "conn_ok env cid w" "os_ok (os1 env)"
  shows "if write_kills env cid data w then sendInLoop env me cid data w = None
    else \<exists>w'. sendInLoop env me cid data w = Some w' \<and> conn_ok env cid w' \<and>
    (if write_fault env cid data w
     then sent_on (sockFd (conns w cid)) (calls w') = sent_on (sockFd (conns w cid)) (calls w) \<and>
       readable (outputBuffer (conns w' cid)) = readable (outputBuffer (conns w cid))
     else sent_on (sockFd (conns w cid)) (calls w') @ readable (outputBuffer (conns w' cid)) =
         sent_on (sockFd (conns w cid)) (calls w) @ readable (outputBuffer (conns w cid)) @ data) \<and>
    (readable (outputBuffer (conns w' cid)) \<noteq> readable (outputBuffer (conns w cid)) \<longrightarrow>
       isWriting (chan_of cid w')) \<and>
    connState (conns w' cid) = connState (conns w cid)"
proof (cases "write_kills env cid data w")
  case True
  then show ?thesis using sendInLoop_kills [OF assms(1)] by simp
next
  case nk: False
  obtain w' where w': "sendInLoop env me cid data w = Some w'" "conn_ok env cid w'"
    "\<exists>b. conns w' cid = (conns w cid)\<lparr>outputBuffer := b\<rparr>"
    and f: "if write_fault env cid data w
     then sent_on (sockFd (conns w cid)) (calls w') = sent_on (sockFd (conns w cid)) (calls w) \<and>
       readable (outputBuffer (conns w' cid)) = readable (outputBuffer (conns w cid))
     else sent_on (sockFd (conns w cid)) (calls w') @ readable (outputBuffer (conns w' cid)) =
         sent_on (sockFd (conns w cid)) (calls w) @ readable (outputBuffer (conns w cid)) @ data"
    and wr: "isWriting (chan_of cid w') \<longleftrightarrow> isWriting (chan_of cid w) \<or>
       readable (outputBuffer (conns w' cid)) \<noteq> readable (outputBuffer (conns w cid))"
    using sendInLoop_ok [OF assms nk, of me] by blast
  have "connState (conns w' cid) = connState (conns w cid)" using w'(3) by auto
  then show ?thesis using nk w'(1,2) f wr by auto
qed

theorem send_conserves_witness:
  "\<exists>w w' :: world. sendInLoop (demo_env (Inr []) (Inr 3)) 1 0 ''hello'' w = Some w' \<and>
    sent_on 7 (calls w) = [] \<and> connected 0 w \<and>
    sent_on 7 (calls w') @ readable (outputBuffer (conns w' 0)) = ''hello''"
proof -
  define e where "e = demo_env (Inr []) (Inr 3)"
  obtain w :: world where w: "conn_ok e 0 w" "connected 0 w" "calls w = [CSetopt 7 SO_KEEPALIVE True]"
    "sockFd (conns w 0) = 7" "outputBuffer (conns w 0) = new_Buffer 1024"
    using demo_established [of "Inr []" "Inr 3"] unfolding e_def by blast
  have os: "os_ok (os1 e)" "\<not> write_fault e 0 ''hello'' w" "\<not> write_kills e 0 ''hello'' w"
    by (simp_all add: e_def write_fault_def write_kills_def write_result_def)
  obtain w' where "sendInLoop e 1 0 ''hello'' w = Some w'"
    "sent_on 7 (calls w') @ readable (outputBuffer (conns w' 0)) = ''hello''"
    using send_conserves [OF w(1) os(1), of "''hello''" 1] w os(2,3) by auto
  then show ?thesis using w by (intro exI [of _ w] exI [of _ w']) (simp add: e_def)
qed

text \<open>
  C22 (a partial write corrupts the stream). When the direct \<open>write\<close> of a connection with a
  fresh output buffer takes a proper prefix of the data, the rest is stored and the write
  event enabled. But the next \<open>handleWrite\<close> hands the free space behind the stored bytes to
  \<open>write\<close>, and drops as many stored bytes as the kernel accepts: the peer gets zero bytes in
  the place of the rest of the data, which is lost.
\<close>

theorem partial_write_corrupts:
  assumes "conn_ok env cid w" "os_ok (os1 env)" "\<not> isWriting (chan_of cid w)"
    and "outputBuffer (conns w cid) = new_Buffer InitialSize"
    and "os_write (os1 env) (calls w) (sockFd (conns w cid)) data = Inr n" "n < length data"
    and "\<And>bs. os_write (os1 env) (calls w @ [CWrite (sockFd (conns w cid)) data (Inr n)])
        (sockFd (conns w cid)) bs = Inr (min (length bs) k)"
    and "length data - n < InitialSize" "0 < k" "m = min (InitialSize - (length data - n)) k"
  shows "\<exists>w1 w2. sendInLoop env me cid data w = Some w1 \<and> handleWrite env me cid w1 = Some w2 \<and>
    sent_on (sockFd (conns w cid)) (calls w2) =
      sent_on (sockFd (conns w cid)) (calls w) @ take n data @ replicate m NUL \<and>
    readable (outputBuffer (conns w2 cid)) = drop (n + m) data"
proof -
  define fd where "fd = sockFd (conns w cid)"
  have dir: "direct cid w" using assms(3,4) by (simp add: direct_def)
  have "sock_write (os1 env) fd data w = Some (Inr n, log_call (CWrite fd data (Inr n)) w)"
    using assms(5) by (simp add: sock_write_def Let_def fd_def)
  then have sd: "send_direct env me cid data w =
      Some (n, length data - n, False, log_call (CWrite fd data (Inr n)) w)"
    using assms(3,4,6) by (simp add: send_direct_def Let_def fd_def)
  define u where "u = log_call (CWrite fd data (Inr n)) w"
  have oku: "conn_ok env cid u" using assms(1) by (simp add: u_def)
  obtain w1 where w1: "send_rest env me cid data n (length data - n) u = Some w1" "conn_ok env cid w1"
    "calls w1 = calls u" "isWriting (chan_of cid w1)"
    "conns w1 = (conns u)(cid := (conns u cid)\<lparr>outputBuffer :=
       append (drop n data) (outputBuffer (conns u cid))\<rparr>)"
    using send_rest_ok [OF oku, of n "length data - n" data me] assms(6) by auto
  have s1: "sendInLoop env me cid data w = Some w1"
    using w1(1) assms(6) by (simp add: sendInLoop_def sd u_def [symmetric])
  have fd1: "sockFd (conns w1 cid) = fd" using w1(5) by (simp add: u_def fd_def)
  have out1: "outputBuffer (conns w1 cid) = append (drop n data) (new_Buffer InitialSize)"
    using w1(5) assms(4) by (simp add: u_def)
  define slack where "slack = writeFd_bytes (outputBuffer (conns w1 cid))"
  have sl: "slack = replicate (InitialSize - (length data - n)) NUL"
    unfolding slack_def out1 by (simp add: writeFd_bytes_fresh)
  have wr: "os_write (os1 env) (calls w1) fd slack = Inr m"
    using assms(7,10) w1(3) by (simp add: fd_def u_def sl)
  have m: "m \<le> length slack" "0 < m" using assms(8-10) by (simp_all add: sl)
  obtain w2 where w2: "handleWrite env me cid w1 = Some w2"
    "readable (outputBuffer (conns w2 cid)) = drop m (readable (outputBuffer (conns w1 cid)))"
    "\<exists>r. calls w2 = calls w1 @ CWrite fd slack (Inr m) # r \<and> sent_on fd r = []"
    using handleWrite_ok [OF w1(2,4) assms(2), of me] wr m(2)
    by (auto simp: fd1 slack_def [symmetric] split: if_splits)
  have "sent_on fd (calls w2) = sent_on fd (calls w) @ take n data @ replicate m NUL"
    using w2(3) w1(3) m(1) by (auto simp: u_def sl)
  then show ?thesis using s1 w2(1,2) out1 by (auto simp: fd_def drop_drop add.commute)
qed

theorem partial_write_corrupts_witness:
  "\<exists>w w1 w2 :: world. connected 0 w \<and> sendInLoop (demo_env (Inr []) (Inr 3)) 1 0 ''hello'' w = Some w1 \<and>
    handleWrite (demo_env (Inr []) (Inr 3)) 1 0 w1 = Some w2 \<and>
    sent_on 7 (calls w2) = ''hel'' @ [NUL, NUL, NUL] \<and> readable (outputBuffer (conns w2 0)) = []"
proof -
  define e where "e = demo_env (Inr []) (Inr 3)"
  obtain w :: world where w: "conn_ok e 0 w" "connected 0 w" "calls w = [CSetopt 7 SO_KEEPALIVE True]"
    "sockFd (conns w 0) = 7" "outputBuffer (conns w 0) = new_Buffer 1024" "events (chan_of 0 w) = 3"
    using demo_established [of "Inr []" "Inr 3"] unfolding e_def by blast
  have os: "os_ok (os1 e)" "\<And>tr f bs. os_write (os1 e) tr f bs = Inr (min (length bs) 3)"
    "os_write (os1 e) (calls w) (sockFd (conns w 0)) ''hello'' = Inr 3"
    by (simp_all add: e_def)
  have nw: "\<not> isWriting (chan_of 0 w)" "outputBuffer (conns w 0) = new_Buffer InitialSize"
    using w(5,6) by (simp_all add: channel_masks InitialSize_def)
  have d: "direct 0 w" using nw by (simp add: direct_def)
  have "\<exists>w1 w2. sendInLoop e 1 0 ''hello'' w = Some w1 \<and> handleWrite e 1 0 w1 = Some w2 \<and>
      sent_on (sockFd (conns w 0)) (calls w2) =
        sent_on (sockFd (conns w 0)) (calls w) @ take 3 ''hello'' @ replicate 3 NUL \<and>
      readable (outputBuffer (conns w2 0)) = drop (3 + 3) ''hello''"
    by (rule partial_write_corrupts [OF w(1) os(1) nw os(3) _ os(2)])
      (simp_all add: InitialSize_def)
  then obtain w1 w2 where "sendInLoop e 1 0 ''hello'' w = Some w1" "handleWrite e 1 0 w1 = Some w2"
    "sent_on 7 (calls w2) = ''hel'' @ replicate 3 NUL" "readable (outputBuffer (conns w2 0)) = []"
    using w(3,4) by auto
  moreover have "replicate 3 NUL = [NUL, NUL, NUL]" by (simp add: numeral_3_eq_3)
  ultimately show ?thesis using w(2) unfolding e_def by (metis (no_types))
qed

text \<open>
  C24 (what \<open>handleWrite\<close> does). On a connection that does not wait for the write event it
  changes nothing. Otherwise it makes one \<open>write\<close>. EPIPE comes with SIGPIPE and ends the
  process; another failure, or a write that accepts nothing, changes nothing else. When
  \<open>n > 0\<close> bytes are accepted, \<open>n\<close> bytes leave the output buffer and nothing else of any
  connection changes; while something is left the interest stays as it is, and when nothing is
  left the write event is disabled, the write-complete callback is queued if there is one, and
  the socket is shut down if the connection is disconnecting. No other task is queued and no
  other call is made.
\<close>

theorem handleWrite_effect:
  assumes "conn_ok env cid w" "os_ok (os1 env)"
  defines "fd \<equiv> sockFd (conns w cid)" and "out \<equiv> readable (outputBuffer (conns w cid))"
    and "x \<equiv> writeFd_bytes (outputBuffer (conns w cid))"
  defines "r \<equiv> os_write (os1 env) (calls w) fd x"
  shows "if \<not> isWriting (chan_of cid w) then handleWrite env me cid w = Some w
    else if r = Inl EPIPE then handleWrite env me cid w = None
    else \<exists>w'. handleWrite env me cid w = Some w' \<and> conn_ok env cid w' \<and>
     (case r of
        Inl e \<Rightarrow> w' = log_call (CWrite fd x r) w
      | Inr n \<Rightarrow>
          if n = 0 then w' = log_call (CWrite fd x r) w
          else readable (outputBuffer (conns w' cid)) = drop n out \<and>
            conns w' = (conns w)(cid :=
              (conns w cid)\<lparr>outputBuffer := outputBuffer (conns w' cid)\<rparr>) \<and>
            (isWriting (chan_of cid w') \<longleftrightarrow> drop n out \<noteq> []) \<and>
            events (chan_of cid w') = (if drop n out \<noteq> [] then events (chan_of cid w)
              else events (chan_of cid w) AND NOT WriteEvent) \<and>
            evl w' = (if drop n out = [] \<and> onWriteComplete env \<noteq> None
              then evl (queue_on me (loopIx (conns w cid)) (FWriteComplete cid) w) else evl w) \<and>
            calls w' = calls w @ CWrite fd x r #
              (if drop n out = [] \<and> connState (conns w cid) = KDisconnecting
               then [CShutdown fd (os_shutdown (os1 env) (calls w @ [CWrite fd x r]) fd)] else []))"
proof -
  note H = handleWrite_ok [OF assms(1) _ assms(2), of me, folded fd_def out_def x_def,
      folded r_def]
  consider (idle) "\<not> isWriting (chan_of cid w)" | (kill) "isWriting (chan_of cid w)" "r = Inl EPIPE"
    | (tried) "isWriting (chan_of cid w)" "r \<noteq> Inl EPIPE" by blast
  then show ?thesis
  proof cases
    case idle
    then show ?thesis by (simp add: handleWrite_def isWriting_def)
  next
    case kill
    then have "sock_write (os1 env) fd x w = None" by (simp add: sock_write_None r_def)
    then show ?thesis using kill by (simp add: handleWrite_def Let_def fd_def x_def)
  next
    case tried
    obtain w' where w': "handleWrite env me cid w = Some w'" "conn_ok env cid w'"
      and c: "case r of
       Inl e \<Rightarrow> w' = log_call (CWrite fd x r) w
     | Inr n \<Rightarrow>
         if n = 0 then w' = log_call (CWrite fd x r) w
         else readable (outputBuffer (conns w' cid)) = drop n out \<and>
           conns w' = (conns w)(cid :=
             (conns w cid)\<lparr>outputBuffer := retrieve n (outputBuffer (conns w cid))\<rparr>) \<and>
           (if drop n out \<noteq> []
            then events (chan_of cid w') = events (chan_of cid w) \<and> evl w' = evl w \<and>
              calls w' = calls w @ [CWrite fd x r]
            else events (chan_of cid w') = events (chan_of cid w) AND NOT WriteEvent \<and>
              evl w' = (if onWriteComplete env \<noteq> None
                then evl (queue_on me (loopIx (conns w cid)) (FWriteComplete cid) w) else evl w) \<and>
              calls w' = calls w @ CWrite fd x r #
                (if connState (conns w cid) = KDisconnecting
                 then [CShutdown fd (os_shutdown (os1 env) (calls w @ [CWrite fd x r]) fd)]
                 else []))"
      using H [OF tried] by blast
    show ?thesis
    proof (cases r)
      case (Inl e)
      then show ?thesis using tried w' c by simp
    next
      case (Inr n)
      show ?thesis
        by (rule if_not_P [THEN iffD2], use tried in simp, rule if_not_P [THEN iffD2], use tried in simp)
          (use tried w' c Inr in \<open>intro exI [of _ w'], cases "n = 0"; cases "drop n out = []";
            simp add: isWriting_def and.assoc\<close>)
    qed
  qed
qed

theorem handleWrite_effect_witness:
  "\<exists>w w' :: world. isWriting (chan_of 0 w) \<and>
    handleWrite (demo_env (Inr []) (Inr 3)) 1 0 w = Some w' \<and> \<not> isWriting (chan_of 0 w') \<and>
    evl w' = evl w \<and> calls w' = calls w @ [CWrite 7 (replicate 1024 NUL) (Inr 3)]"
proof -
  define e where "e = demo_env (Inr []) (Inr 3)"
  obtain w :: world where w: "conn_ok e 0 w" "outputBuffer (conns w 0) = new_Buffer 1024"
    "sockFd (conns w 0) = 7" "connected 0 w"
    using demo_established [of "Inr []" "Inr 3"] unfolding e_def by blast
  obtain u where u: "conn_ok e 0 u" "same_but_chan 0 w u" "events (chan_of 0 u) = 7"
    using on_events_ok [OF w(1), of 7] by blast
  have wr: "isWriting (chan_of 0 u)" using u(3) by (simp add: isWriting_def channel_masks)
  have o: "outputBuffer (conns u 0) = new_Buffer 1024" "sockFd (conns u 0) = 7"
    "connState (conns u 0) = KConnected"
    using w(2,3,4) same_but_chanD(1) [OF u(2)] by (simp_all add: connected_def)
  have sl: "writeFd_bytes (new_Buffer 1024) = replicate 1024 NUL"
    by (auto simp: writeFd_bytes_eq) (simp add: new_Buffer_def CheapPrepend_def)
  have os: "os_ok (os1 e)" by (simp add: e_def)
  have r: "os_write (os1 e) tr d (replicate 1024 NUL) = Inr 3" for tr d
    by (simp add: e_def)
  obtain w' where "handleWrite e 1 0 u = Some w'" "\<not> isWriting (chan_of 0 w')" "evl w' = evl u"
    "calls w' = calls u @ [CWrite 7 (replicate 1024 NUL) (Inr 3)]"
    using handleWrite_effect [OF u(1) os, of 1] wr unfolding o sl r by (auto simp: e_def)
  then show ?thesis using wr unfolding e_def by blast
qed

text \<open>
  C29 (what a read event does). \<open>handleRead\<close> makes one \<open>readv\<close>. Bytes go into the input
  buffer and the message callback gets the connection in that state. The end of the stream,
  and any failing read, EAGAIN included, closes the connection: the callbacks run, the
  connection's first and the owner's after it, on a disconnected connection whose registered
  descriptor the kernel no longer watches.
\<close>

theorem read_event:
  assumes "conn_ok env cid w" "os_ok (os1 env)"
  shows "case read_result env cid w of
      Inr (b # bs) \<Rightarrow> \<exists>w1. conn_handleRead env cid t w =
          invoke (map_option (\<lambda>f c. f c t) (onMessage env)) cid w1 \<and> conn_ok env cid w1 \<and>
        connState (conns w1 cid) = connState (conns w cid) \<and>
        (length (b # bs) < writableBytes (inputBuffer (conns w cid)) \<longrightarrow>
           readable (inputBuffer (conns w1 cid)) = readable (inputBuffer (conns w cid)) @ b # bs)
    | _ \<Rightarrow> \<exists>w1. conn_handleRead env cid t w =
          invoke (onConnection env) cid w1 \<bind> invoke (onClose env) cid \<and> conn_ok env cid w1 \<and>
        connState (conns w1 cid) = KDisconnected \<and>
        (chIndex (chan_of cid w) = Added \<longrightarrow> watched cid w1 = None)"
proof -
  note A = after_read_ok [OF assms] and E = conn_handleRead_eq [OF assms, of t]
  define u where "u = after_read env cid w"
  have u: "conn_ok env cid u" "chan_of cid u = chan_of cid w" using A by (auto simp: u_def)
  show ?thesis
  proof (cases "read_result env cid w")
    case (Inl e)
    obtain w1 r where w1: "closed_for env cid (log_call (CSoError (sockFd (conns u cid)) r) u) w1"
      "handleError env cid u = invoke (onConnection env) cid w1 \<bind> invoke (onClose env) cid"
      using handleError_ok [OF u(1)] by blast
    then show ?thesis using E Inl u by (auto simp: closed_for_def u_def [symmetric])
  next
    case (Inr data)
    show ?thesis
    proof (cases data)
      case Nil
      obtain w1 where "closed_for env cid u w1"
        "handleClose env cid u = invoke (onConnection env) cid w1 \<bind> invoke (onClose env) cid"
        using handleClose_ok [OF u(1)] by blast
      then show ?thesis using E Inr Nil u by (auto simp: closed_for_def u_def [symmetric])
    next
      case (Cons b bs)
      have "connState (conns u cid) = connState (conns w cid)" by (simp add: u_def after_read_def)
      then show ?thesis using E Inr Cons u A by (auto simp: u_def [symmetric])
    qed
  qed
qed

theorem read_event_witness:
  "\<exists>w w' :: world. connected 0 w \<and> watched 0 w = Some (3, ChConn 0) \<and>
    conn_handleRead (demo_env (Inl EAGAIN) (Inr 0)) 0 5 w = Some w' \<and>
    connState (conns w' 0) = KDisconnected \<and> watched 0 w' = None"
proof -
  define e where "e = demo_env (Inl EAGAIN) (Inr 0)"
  obtain w :: world where w: "conn_ok e 0 w" "connected 0 w" "chIndex (chan_of 0 w) = Added"
    "watched 0 w = Some (3, ChConn 0)"
    using demo_established [of "Inl EAGAIN" "Inr 0"] unfolding e_def by blast
  have os: "os_ok (os1 e)" and r: "read_result e 0 w = Inl EAGAIN"
    by (simp_all add: e_def read_result_def demo_os_def) (simp add: os_ok_def)
  obtain w' where "conn_handleRead e 0 5 w = Some w'" "connState (conns w' 0) = KDisconnected"
    "watched 0 w' = None"
    using read_event [OF w(1) os, of 5] w(3) by (auto simp: r) (auto simp: e_def invoke_def)
  then show ?thesis using w unfolding e_def by blast
qed

text \<open>
  Callbacks that leave the registration of the connection alone, as the server's do in a
  loop that is not its own.
\<close>

definition keeps_channel ::
  "('a world_scheme) env \<Rightarrow> (nat \<Rightarrow> 'a world_scheme \<Rightarrow> 'a world_scheme option) option \<Rightarrow> nat \<Rightarrow> bool" where
  "keeps_channel env cb cid \<longleftrightarrow> (\<forall>w. conn_ok env cid w \<longrightarrow>
     (\<exists>w'. invoke cb cid w = Some w' \<and> conn_ok env cid w' \<and> chan_of cid w' = chan_of cid w \<and>
        watched cid w' = watched cid w))"

lemma close_then:
  assumes "conn_ok env cid w" "keeps_channel env (onConnection env) cid"
    "keeps_channel env (onClose env) cid"
  shows "\<exists>w1 w'. closed_for env cid w w1 \<and> handleClose env cid w = Some w' \<and> conn_ok env cid w' \<and>
    chan_of cid w' = chan_of cid w1 \<and> watched cid w' = watched cid w1"
proof -
  obtain w1 where w1: "closed_for env cid w w1"
    "handleClose env cid w = invoke (onConnection env) cid w1 \<bind> invoke (onClose env) cid"
    using handleClose_ok [OF assms(1)] by blast
  have ok1: "conn_ok env cid w1" using w1(1) by (simp add: closed_for_def)
  obtain w2 where w2: "invoke (onConnection env) cid w1 = Some w2" "conn_ok env cid w2"
    "chan_of cid w2 = chan_of cid w1" "watched cid w2 = watched cid w1"
    using assms(2) ok1 unfolding keeps_channel_def by blast
  obtain w3 where w3: "invoke (onClose env) cid w2 = Some w3" "conn_ok env cid w3"
    "chan_of cid w3 = chan_of cid w2" "watched cid w3 = watched cid w2"
    using assms(3) w2(2) unfolding keeps_channel_def by blast
  show ?thesis using w1 w2 w3 by auto
qed

text \<open>
  C31 (a reset closes twice). A hang-up with an error, as a reset peer gives, runs
  \<open>handleClose\<close> as the close callback and again from \<open>handleError\<close>: the connection callback
  and the owner's close callback are called twice, and the second \<open>disableAll\<close> puts the
  descriptor the first one removed back into the kernel's list, with an empty mask.
\<close>

theorem reset_closes_twice:
  assumes "conn_ok env cid w" "tied (chan_of cid w)" "chIndex (chan_of cid w) = Added"
    and "revents (chan_of cid w) = EPOLLHUP OR EPOLLERR"
    and "keeps_channel env (onConnection env) cid" "keeps_channel env (onClose env) cid"
  shows "conn_event env me cid True t w = handleClose env cid w \<bind> handleError env cid \<and>
    (\<exists>w1 w'. handleClose env cid w = Some w1 \<and> watched cid w1 = None \<and>
       conn_event env me cid True t w = Some w' \<and> watched cid w' = Some (0, ChConn cid))"
proof -
  have eq: "conn_event env me cid True t w = handleClose env cid w \<bind> handleError env cid"
    using assms(2,4)
    by (simp add: conn_event_def handleEvent_def handleEventWithGuard_def conn_callbacks_def
        call_def channel_masks)
  obtain v w1 where v: "closed_for env cid w v" "handleClose env cid w = Some w1" "conn_ok env cid w1"
    "chan_of cid w1 = chan_of cid v" "watched cid w1 = watched cid v"
    using close_then [OF assms(1,5,6)] by blast
  define x where "x = log_call (CSoError (sockFd (conns w1 cid))
      (os_soerror (os1 env) (calls w1) (sockFd (conns w1 cid)))) w1"
  have okx: "conn_ok env cid x" using v(3) by (simp add: x_def)
  obtain y w' where y: "closed_for env cid x y" "handleClose env cid x = Some w'"
    "watched cid w' = watched cid y"
    using close_then [OF okx assms(5,6)] by blast
  have d: "chIndex (chan_of cid w1) = Deleted" "watched cid w1 = None"
    using v assms(3) by (simp_all add: closed_for_def)
  have "handleError env cid w1 = Some w'" using y(2) by (simp add: handleError_def Let_def x_def)
  moreover have "watched cid w' = Some (0, ChConn cid)"
    using y(1,3) d(1) by (simp add: closed_for_def x_def index_defs)
  ultimately show ?thesis using eq v(2) d(2) by simp
qed

theorem reset_closes_twice_witness:
  "\<exists>w w' :: world. watched 0 w = Some (3, ChConn 0) \<and>
    conn_event (demo_env (Inr []) (Inr 0)) 1 0 True 5 w = Some w' \<and>
    watched 0 w' = Some (0, ChConn 0)"
proof -
  define e where "e = demo_env (Inr []) (Inr 0)"
  obtain w0 :: world where w0: "conn_ok e 0 w0" "tied (chan_of 0 w0)" "chIndex (chan_of 0 w0) = Added"
    "watched 0 w0 = Some (3, ChConn 0)"
    using demo_established [of "Inr []" "Inr 0"] unfolding e_def by blast
  define i where "i = loopIx (conns w0 0)"
  define w where "w = w0\<lparr>pol := (pol w0)(i :=
      set_chan (ChConn 0) (save_revents (EPOLLHUP OR EPOLLERR)) (pol w0 i))\<rparr>"
  have ch: "chan_of 0 w = save_revents (EPOLLHUP OR EPOLLERR) (chan_of 0 w0)"
    by (simp add: w_def chan_of_def i_def)
  have "poller_ok (set_chan (ChConn 0) (save_revents (EPOLLHUP OR EPOLLERR)) (pol w0 i))"
    using w0(1) by (simp add: conn_ok_def Let_def i_def poller_ok_def keys_ok_def hasChannel_def
        wanted_def save_revents_def fun_eq_iff split: option.splits)
  then have ok: "conn_ok e 0 w"
    using w0(1) by (simp add: conn_ok_def Let_def w_def i_def owns_fd_def chan_of_def save_revents_def)
  have wt: "watched 0 w = Some (3, ChConn 0)"
    using w0(4) by (simp add: watched_def w_def i_def)
  have k: "keeps_channel e (onConnection e) 0" "keeps_channel e (onClose e) 0"
    by (simp_all add: keeps_channel_def e_def invoke_def)
  have p: "tied (chan_of 0 w)" "chIndex (chan_of 0 w) = Added"
    "revents (chan_of 0 w) = EPOLLHUP OR EPOLLERR"
    using w0(2,3) by (simp_all add: ch save_revents_def)
  have "\<exists>w'. conn_event e 1 0 True 5 w = Some w' \<and> watched 0 w' = Some (0, ChConn 0)"
    using reset_closes_twice [OF ok p k, of 1 5] by blast
  then show ?thesis using wt unfolding e_def by blast
qed

text \<open>
  The high-water mark. A non-empty send to a connection that is already waiting for the
  write event makes no system call and stores all of the data; the high-water-mark task is
  queued exactly when there is a callback and the stored amount goes from below the mark to
  the mark or above, and it carries the new amount.
\<close>

lemma high_water_crossing:
  assumes "conn_ok env cid w" "isWriting (chan_of cid w)" "data \<noteq> []"
  shows "\<exists>w'. sendInLoop env me cid data w = Some w' \<and> calls w' = calls w \<and>
    readable (outputBuffer (conns w' cid)) = readable (outputBuffer (conns w cid)) @ data \<and>
    evl w' (loopIx (conns w cid)) =
      (if onHighWaterMark env \<noteq> None \<and>
          length (readable (outputBuffer (conns w cid))) < highWaterMark (conns w cid) \<and>
          highWaterMark (conns w cid) \<le> length (readable (outputBuffer (conns w' cid)))
       then queueInLoop (me = loopIx (conns w cid))
         (FHighWaterMark cid (length (readable (outputBuffer (conns w' cid)))))
         (evl w (loopIx (conns w cid)))
       else evl w (loopIx (conns w cid)))"
proof -
  define c where "c = conns w cid"
  have b: "buf_ok (outputBuffer c)" using conn_okD(2) [OF assms(1)] by (simp add: c_def)
  have sd: "send_direct env me cid data w = Some (0, length data, False, w)"
    using assms(2) by (simp add: send_direct_def Let_def isWriting_def)
  obtain w' where w': "send_rest env me cid data 0 (length data) w = Some w'" "calls w' = calls w"
    "conns w' = (conns w)(cid := c\<lparr>outputBuffer := append data (outputBuffer c)\<rparr>)"
    "evl w' = (if high_water env c (length data)
      then evl (queue_on me (loopIx c) (FHighWaterMark cid (readableBytes (outputBuffer c) + length data)) w)
      else evl w)"
    using send_rest_ok [OF assms(1), of 0 "length data" data me] by (auto simp: c_def)
  have "sendInLoop env me cid data w = Some w'"
    using assms(3) w'(1) by (simp add: sendInLoop_def sd)
  moreover have "readable (outputBuffer (conns w' cid)) = readable (outputBuffer c) @ data"
    using w'(3) b by simp
  moreover have "length (readable (outputBuffer c)) = readableBytes (outputBuffer c)"
    by (rule length_readable [OF b])
  ultimately show ?thesis using w'(2,4)
    by (intro exI [of _ w']) (auto simp: high_water_def c_def)
qed

lemma high_water_crossing_witness:
  "\<exists>w w' :: world. sendInLoop (demo_env (Inr []) (Inr 3)) 1 0 ''ab'' w = Some w' \<and>
    isWriting (chan_of 0 w) \<and> calls w' = calls w \<and> readable (outputBuffer (conns w' 0)) = ''ab''"
proof -
  define e where "e = demo_env (Inr []) (Inr 3)"
  obtain w :: world where w: "conn_ok e 0 w" "outputBuffer (conns w 0) = new_Buffer 1024"
    using demo_established [of "Inr []" "Inr 3"] unfolding e_def by blast
  obtain u where u: "conn_ok e 0 u" "same_but_chan 0 w u" "events (chan_of 0 u) = 7"
    using on_events_ok [OF w(1), of 7] by blast
  have wr: "isWriting (chan_of 0 u)" using u(3) by (simp add: isWriting_def channel_masks)
  have "readable (outputBuffer (conns u 0)) = []"
    using w(2) same_but_chanD(1) [OF u(2)] by simp
  then show ?thesis
    using high_water_crossing [OF u(1) wr, of "''ab''" 1] wr unfolding e_def by force
qed

end
