(* ===== verification/Servers.thy ===== *)
theory Servers
  imports TcpConnections LoopThreads
begin

text \<open>
  \<open>class Acceptor\<close>, \<open>class TcpServer\<close> and the echo server (include/Acceptor.h,
  src/Acceptor.cc, include/TcpServer.h, src/TcpServer.cc, src/main.cc), the execution of the
  queued tasks and one round of a loop.

  \<open>server\<close> extends the world of the connections by the members of the server and of its
  acceptor; \<open>nextObj\<close> numbers the connection objects, and \<open>alive\<close> says which of them the
  shared pointers still keep. An event for the channel of a destroyed connection, or a task bound
  to one, uses freed memory: \<open>None\<close>.
\<close>

record server = world +
  baseIx :: nat
  serverName :: string
  ipPort :: string
  threadPool :: "nat elpool"
  srvStarted :: int
  hasThreadInit :: bool
  nextConnId :: int
  connections :: "string \<rightharpoonup> nat"
  acceptFd :: fd
  listening :: bool
  nextObj :: nat
  alive :: "nat \<Rightarrow> bool"

type_synonym senv = "server env"

subsection \<open>Construction and destruction of a loop\<close>

text \<open>
  \<open>evfd\<close> is what \<open>eventfd\<close> returned, \<open>other\<close> whether the thread has a loop already; \<open>mem\<close> is the
  memory of the channels that will be used with the loop.
\<close>

definition EventLoop_ctor ::
  "senv \<Rightarrow> nat \<Rightarrow> errno + fd \<Rightarrow> bool \<Rightarrow> (chan_id \<Rightarrow> channel) \<Rightarrow> server \<Rightarrow> server option" where
  "EventLoop_ctor env i evfd other mem w =
     (case evfd of
        Inl e \<Rightarrow> None
      | Inr wakeupFd \<Rightarrow>
          if other then None
          else do {
            p \<leftarrow> enableReading (ker env i) (ChWakeup i)
                  (set_chan (ChWakeup i) (\<lambda>_. Channel wakeupFd) (newDefaultPoller mem));
            Some (w\<lparr>evl := (evl w)(i := EventLoop), pol := (pol w)(i := p)\<rparr>)
          })"

definition EventLoop_dtor :: "senv \<Rightarrow> nat \<Rightarrow> server \<Rightarrow> server option" where
  "EventLoop_dtor env i w = do {
     p \<leftarrow> disableAll (ker env i) (ChWakeup i) (pol w i);
     q \<leftarrow> removeChannel (ker env i) (ChWakeup i) p;
     Some (Socket_dtor (chFd (chan q (ChWakeup i))) (w\<lparr>pol := (pol w)(i := q)\<rparr>))
   }"

subsection \<open>\<open>Acceptor\<close>\<close>

definition on_acceptor ::
  "senv \<Rightarrow> (chan_id kernel_ctl \<Rightarrow> chan_id \<Rightarrow> chan_id poller \<Rightarrow> chan_id poller option) \<Rightarrow>
   server \<Rightarrow> server option" where
  "on_acceptor env f w =
     (let i = baseIx w
      in do { p \<leftarrow> f (ker env i) ChAcceptor (pol w i); Some (w\<lparr>pol := (pol w)(i := p)\<rparr>) })"

text \<open>The third argument, \<open>reusePort\<close>, is not used.\<close>

definition Acceptor :: "senv \<Rightarrow> sockaddr_in \<Rightarrow> bool \<Rightarrow> server \<Rightarrow> server option" where
  "Acceptor env listenAddr reusePort w =
     (let r = os_socket (os1 env) (calls w); w1 = log_call (CSocket r) w
      in case r of
           Inl e \<Rightarrow> None
         | Inr sockfd \<Rightarrow> do {
             w2 \<leftarrow> bindAddress (os1 env) sockfd listenAddr
                    (setReusePort sockfd True (setReuseAddr sockfd True w1));
             Some (w2\<lparr>acceptFd := sockfd, listening := False,
               pol := (pol w2)(baseIx w2 := set_chan ChAcceptor (\<lambda>_. Channel sockfd) (pol w2 (baseIx w2)))\<rparr>)
           })"

definition Acceptor_listen :: "senv \<Rightarrow> server \<Rightarrow> server option" where
  "Acceptor_listen env w = do {
     w1 \<leftarrow> Socket_listen (os1 env) (acceptFd w) (w\<lparr>listening := True\<rparr>);
     on_acceptor env enableReading w1
   }"

text \<open>\<open>newConn\<close> is the \<open>NewConnectionCallback_\<close>.\<close>

definition Acceptor_handleRead ::
  "senv \<Rightarrow> (fd \<Rightarrow> sockaddr_in \<Rightarrow> server \<Rightarrow> server option) option \<Rightarrow> sockaddr_in \<Rightarrow>
   server \<Rightarrow> server option" where
  "Acceptor_handleRead env newConn peer0 w =
     (case Socket_accept (os1 env) (acceptFd w) peer0 w of
        (r, peer, w1) \<Rightarrow>
          (case r of
             Inl e \<Rightarrow> Some w1
           | Inr connfd \<Rightarrow>
               (case newConn of
                  Some cb \<Rightarrow> cb connfd peer w1
                | None \<Rightarrow> Some (Socket_dtor connfd w1))))"

definition Acceptor_dtor :: "senv \<Rightarrow> server \<Rightarrow> server option" where
  "Acceptor_dtor env w = do {
     w1 \<leftarrow> on_acceptor env disableAll w;
     w2 \<leftarrow> on_acceptor env removeChannel w1;
     Some (Socket_dtor (acceptFd w2) w2)
   }"

subsection \<open>\<open>TcpServer\<close>\<close>

definition removeConnectionInLoop :: "nat \<Rightarrow> nat \<Rightarrow> server \<Rightarrow> server" where
  "removeConnectionInLoop me cid w =
     queue_on me (loopIx (conns w cid)) (FConnectDestroyed cid)
       (w\<lparr>connections := (connections w)(connName (conns w cid) := None)\<rparr>)"

definition removeConnection :: "nat \<Rightarrow> nat \<Rightarrow> server \<Rightarrow> server option" where
  "removeConnection me cid w =
     (if me = baseIx w then Some (removeConnectionInLoop me cid w)
      else Some (queue_on me (baseIx w) (FRemoveConnectionInLoop cid) w))"

text \<open>
  The callbacks. A server starts with none of them; the setters store what they are given,
  and \<open>newConnection\<close> hands the members on to every connection, with the server's own
  \<open>removeConnection\<close> as the close callback.
\<close>

definition no_callbacks ::
  "os \<Rightarrow> (nat \<Rightarrow> chan_id kernel_ctl) \<Rightarrow> (sys_call list \<Rightarrow> nat \<Rightarrow> nat \<Rightarrow> bytes option) \<Rightarrow> 'w env" where
  "no_callbacks o1 k d = \<lparr>os1 = o1, ker = k, deref = d, onConnection = None, onMessage = None,
     onClose = None, onWriteComplete = None, onHighWaterMark = None\<rparr>"

definition setConnectionCallback :: "(nat \<Rightarrow> 'w \<Rightarrow> 'w option) \<Rightarrow> 'w env \<Rightarrow> 'w env" where
  "setConnectionCallback cb env = env\<lparr>onConnection := Some cb\<rparr>"

definition setMessageCallback :: "(nat \<Rightarrow> int \<Rightarrow> 'w \<Rightarrow> 'w option) \<Rightarrow> 'w env \<Rightarrow> 'w env" where
  "setMessageCallback cb env = env\<lparr>onMessage := Some cb\<rparr>"

definition setWriteCompleteCallback :: "(nat \<Rightarrow> 'w \<Rightarrow> 'w option) \<Rightarrow> 'w env \<Rightarrow> 'w env" where
  "setWriteCompleteCallback cb env = env\<lparr>onWriteComplete := Some cb\<rparr>"

definition setCloseCallback :: "(nat \<Rightarrow> 'w \<Rightarrow> 'w option) \<Rightarrow> 'w env \<Rightarrow> 'w env" where
  "setCloseCallback cb env = env\<lparr>onClose := Some cb\<rparr>"

lemmas setter_defs = setConnectionCallback_def setMessageCallback_def setWriteCompleteCallback_def
  setCloseCallback_def

definition server_env :: "senv \<Rightarrow> senv" where
  "server_env env = setCloseCallback (\<lambda>cid w. removeConnection (loopIx (conns w cid)) cid w) env"

definition conn_name :: "string \<Rightarrow> string \<Rightarrow> int \<Rightarrow> string" where
  "conn_name name addr n =
     name @ c_str (snprintf 64 (''-'' @ c_str addr @ ''#'' @ decimal n) (replicate 64 NUL))"

definition newConnection :: "senv \<Rightarrow> nat \<Rightarrow> fd \<Rightarrow> sockaddr_in \<Rightarrow> server \<Rightarrow> server option" where
  "newConnection env me sockfd peer w =
     (case getNextLoop (threadPool w) of (ioLoop, pool) \<Rightarrow>
        let name = conn_name (serverName w) (ipPort w) (nextConnId w);
            r = os_getsockname (os1 env) (calls w) sockfd;
            local = InetAddress_of (case r of Inl e \<Rightarrow> zero_addr | Inr a \<Rightarrow> a);
            cid = nextObj w;
            w1 = log_call (CGetsockname sockfd r)
              (w\<lparr>threadPool := pool, nextConnId := nextConnId w + 1, nextObj := cid + 1\<rparr>);
            w2 = TcpConnection cid ioLoop name sockfd local peer w1;
            w3 = w2\<lparr>connections := (connections w2)(name \<mapsto> cid), alive := (alive w2)(cid := True)\<rparr>
        in if me = ioLoop then connectEstablished (server_env env) cid w3
           else Some (queue_on me ioLoop (FConnectEstablished cid) w3))"

datatype tcp_option = KNoReusePort | KReusePort

text \<open>A pointer is \<open>None\<close> when it is null, which is fatal.\<close>

definition CheckLoopNotNull :: "nat option \<Rightarrow> nat option" where
  [simp]: "CheckLoopNotNull loop = (case loop of None \<Rightarrow> None | Some l \<Rightarrow> Some l)"

text \<open>\<open>junk\<close> is the pool's indeterminate member.\<close>

definition TcpServer ::
  "senv \<Rightarrow> nat option \<Rightarrow> nat \<Rightarrow> sockaddr_in \<Rightarrow> string \<Rightarrow> tcp_option \<Rightarrow> server \<Rightarrow> server option" where
  "TcpServer env loop junk listenAddr nameArg option w = do {
     l \<leftarrow> CheckLoopNotNull loop;
     w1 \<leftarrow> Acceptor env listenAddr (option = KReusePort) (w\<lparr>baseIx := l\<rparr>);
     Some (w1\<lparr>serverName := nameArg, ipPort := toIpPort listenAddr,
       threadPool := EventLoopThreadPool junk l nameArg, srvStarted := 0, hasThreadInit := False,
       nextConnId := 1, connections := Map.empty\<rparr>)
   }"

text \<open>The option has no effect.\<close>

lemma reusePort_ignored:
  "TcpServer env loop junk la name KNoReusePort w = TcpServer env loop junk la name KReusePort w"
  by (simp add: TcpServer_def Acceptor_def)

definition TcpServer_setThreadNum :: "int \<Rightarrow> server \<Rightarrow> server" where
  "TcpServer_setThreadNum n w = w\<lparr>threadPool := setThreadNum n (threadPool w)\<rparr>"

text \<open>A thread initialisation callback changes nothing here but that there is one.\<close>

definition setThreadInitCallback :: "server \<Rightarrow> server" where
  "setThreadInitCallback w = w\<lparr>hasThreadInit := True\<rparr>"

text \<open>\<open>startLoop i\<close> is the loop of the i-th thread the pool starts.\<close>

definition TcpServer_start :: "senv \<Rightarrow> nat \<Rightarrow> (int \<Rightarrow> nat) \<Rightarrow> server \<Rightarrow> server option" where
  "TcpServer_start env me startLoop w =
     (let w1 = w\<lparr>srvStarted := srvStarted w + 1\<rparr>
      in if srvStarted w = 0
         then let w2 = w1\<lparr>threadPool := fst (pool_start startLoop (hasThreadInit w1) (threadPool w1))\<rparr>
              in if me = baseIx w2 then Acceptor_listen env w2
                 else Some (queue_on me (baseIx w2) FListen w2)
         else Some w1)"

subsection \<open>Running tasks and one round of a loop\<close>

text \<open>
  The connection a task runs on. A task on a connection that has been destroyed is a call
  through a dangling pointer (\<open>None\<close>).
\<close>

fun task_conn :: "task \<Rightarrow> nat option" where
  "task_conn FListen = None"
| "task_conn (FConnectEstablished cid) = Some cid"
| "task_conn (FConnectDestroyed cid) = Some cid"
| "task_conn (FSendInLoop cid ptr len) = Some cid"
| "task_conn (FShutdownInLoop cid) = Some cid"
| "task_conn (FWriteComplete cid) = Some cid"
| "task_conn (FWriteCompleteMember cid) = Some cid"
| "task_conn (FHighWaterMark cid n) = Some cid"
| "task_conn (FRemoveConnectionInLoop cid) = Some cid"

definition task_live :: "task \<Rightarrow> server \<Rightarrow> bool" where
  "task_live f w \<longleftrightarrow> (case task_conn f of None \<Rightarrow> True | Some cid \<Rightarrow> alive w cid)"

definition run_task :: "senv \<Rightarrow> nat \<Rightarrow> task \<Rightarrow> server \<Rightarrow> server option" where
  "run_task env me f w =
     (if \<not> task_live f w then None else case f of
        FConnectEstablished cid \<Rightarrow> connectEstablished (server_env env) cid w
      | FConnectDestroyed cid \<Rightarrow> connectDestroyed (server_env env) cid w
      | FSendInLoop cid ptr len \<Rightarrow>
          (case deref env (calls w) ptr len of
             None \<Rightarrow> None
           | Some data \<Rightarrow> sendInLoop env me cid data w)
      | FShutdownInLoop cid \<Rightarrow> Some (shutdownInLoop env cid w)
      | FWriteComplete cid \<Rightarrow> invoke (onWriteComplete env) cid w
      | FWriteCompleteMember cid \<Rightarrow> Some w
      | FHighWaterMark cid n \<Rightarrow> invoke (map_option (\<lambda>f c. f c n) (onHighWaterMark env)) cid w
      | FListen \<Rightarrow> Acceptor_listen env w
      | FRemoveConnectionInLoop cid \<Rightarrow> Some (removeConnectionInLoop me cid w))"

text \<open>
  The connection a task keeps alive: the tasks bind a \<open>shared_ptr\<close>, except \<open>FSendInLoop\<close> and
  \<open>FShutdownInLoop\<close>, which bind \<open>this\<close>.
\<close>

fun keeps :: "task \<Rightarrow> nat option" where
  "keeps (FConnectEstablished cid) = Some cid"
| "keeps (FConnectDestroyed cid) = Some cid"
| "keeps (FWriteComplete cid) = Some cid"
| "keeps (FWriteCompleteMember cid) = Some cid"
| "keeps (FHighWaterMark cid n) = Some cid"
| "keeps (FRemoveConnectionInLoop cid) = Some cid"
| "keeps f = None"

definition referenced :: "nat \<Rightarrow> server \<Rightarrow> bool" where
  "referenced cid w \<longleftrightarrow> connections w (connName (conns w cid)) = Some cid \<or>
     (\<exists>i \<in> set (baseIx w # loops (threadPool w)).
        Some cid \<in> keeps ` set (pendingFunctors (evl w i)))"

definition TcpConnection_dtor :: "nat \<Rightarrow> server \<Rightarrow> server" where
  "TcpConnection_dtor cid w =
     Socket_dtor (sockFd (conns w cid)) (w\<lparr>alive := (alive w)(cid := False)\<rparr>)"

definition release :: "nat \<Rightarrow> server \<Rightarrow> server" where
  "release cid w = (if alive w cid \<and> \<not> referenced cid w then TcpConnection_dtor cid w else w)"

definition release_task :: "task \<Rightarrow> server \<Rightarrow> server" where
  "release_task f w = (case keeps f of None \<Rightarrow> w | Some cid \<Rightarrow> release cid w)"

definition doPendingFunctors :: "senv \<Rightarrow> nat \<Rightarrow> server \<Rightarrow> server option" where
  "doPendingFunctors env i w =
     (let fs = pendingFunctors (evl w i);
          w1 = w\<lparr>evl := (evl w)(i := (evl w i)\<lparr>callingPendingFunctors := True, pendingFunctors := []\<rparr>)\<rparr>
      in do {
        w2 \<leftarrow> fold_opt (run_task env i) fs w1;
        Some (fold release_task fs
          (w2\<lparr>evl := (evl w2)(i := (evl w2 i)\<lparr>callingPendingFunctors := False\<rparr>)\<rparr>))
      })"

definition acceptor_callbacks :: "senv \<Rightarrow> sockaddr_in \<Rightarrow> server callbacks" where
  "acceptor_callbacks env peer0 =
     \<lparr>readCallback = Some (\<lambda>t w. Acceptor_handleRead env (Some (newConnection env (baseIx w))) peer0 w),
      writeCallback = None, closeCallback = None, errorCallback = None\<rparr>"

definition wakeup_callbacks :: "nat \<Rightarrow> server callbacks" where
  "wakeup_callbacks i =
     \<lparr>readCallback = Some (\<lambda>t w. Some (w\<lparr>evl := (evl w)(i := handleRead (evl w i))\<rparr>)),
      writeCallback = None, closeCallback = None, errorCallback = None\<rparr>"

text \<open>
  The channel of a connection is a member of it: an event for a connection that has been
  destroyed reads freed memory (\<open>None\<close>).
\<close>

fun handle_active :: "senv \<Rightarrow> nat \<Rightarrow> sockaddr_in \<Rightarrow> int \<Rightarrow> chan_id \<Rightarrow> server \<Rightarrow> server option" where
  "handle_active env i peer0 t (ChWakeup j) w =
     handleEvent (wakeup_callbacks j) (chan (pol w i) (ChWakeup j)) True t w"
| "handle_active env i peer0 t ChAcceptor w =
     handleEvent (acceptor_callbacks env peer0) (chan (pol w i) ChAcceptor) True t w"
| "handle_active env i peer0 t (ChConn cid) w =
     (if alive w cid then conn_event (server_env env) i cid True t w else None)"

text \<open>One turn of \<open>while(!quit_)\<close>: \<open>r\<close> is what \<open>epoll_wait\<close> returned, \<open>t\<close> the time.\<close>

definition loop_once ::
  "senv \<Rightarrow> nat \<Rightarrow> sockaddr_in \<Rightarrow> errno + (evmask \<times> chan_id) list \<Rightarrow> int \<Rightarrow> server \<Rightarrow> server option" where
  "loop_once env i peer0 r t w =
     (case poll r [] (pol w i) of (activeChannels, p) \<Rightarrow> do {
        w1 \<leftarrow> fold_opt (handle_active env i peer0 t) activeChannels (w\<lparr>pol := (pol w)(i := p)\<rparr>);
        doPendingFunctors env i w1
      })"

definition TcpServer_dtor :: "senv \<Rightarrow> nat \<Rightarrow> nat list \<Rightarrow> server \<Rightarrow> server option" where
  "TcpServer_dtor env me cids w =
     fold_opt (\<lambda>cid w.
       let w1 = w\<lparr>connections := (connections w)(connName (conns w cid) := None)\<rparr>
       in if me = loopIx (conns w cid)
          then connectDestroyed (server_env env) cid w1
          else Some (queue_on me (loopIx (conns w cid)) (FConnectDestroyed cid) w1)) cids w"

subsection \<open>\<open>EchoServer\<close>\<close>

text \<open>
  \<open>onConnection\<close> only logs: its line is \<open>connection_line\<close>. \<open>onMessage\<close> takes everything out of the buffer and sends it; the
  message is a local string at \<open>ptr\<close>. The handler runs in the connection's loop.
\<close>

definition echo_onMessage :: "'w env \<Rightarrow> nat \<Rightarrow> nat \<Rightarrow> int \<Rightarrow> 'a world_scheme \<Rightarrow> 'a world_scheme option" where
  "echo_onMessage env ptr cid receiveTime w = do {
     (msg, b) \<leftarrow> retrieveAllAsString (inputBuffer (conns w cid));
     send env (loopIx (conns w cid)) cid ptr msg (set_conn cid (\<lambda>c. c\<lparr>inputBuffer := b\<rparr>) w)
   }"

text \<open>The constructor: the server with the default \<open>KReusePort\<close> and three threads.\<close>

definition EchoServer ::
  "senv \<Rightarrow> nat option \<Rightarrow> nat \<Rightarrow> sockaddr_in \<Rightarrow> string \<Rightarrow> server \<Rightarrow> server option" where
  "EchoServer env loop junk la name w =
     map_option (TcpServer_setThreadNum 3) (TcpServer env loop junk la name KReusePort w)"

definition EchoServer_start :: "senv \<Rightarrow> nat \<Rightarrow> (int \<Rightarrow> nat) \<Rightarrow> server \<Rightarrow> server option" where
  [simp]: "EchoServer_start env me mk w = TcpServer_start env me mk w"

definition echo_onConnection :: "nat \<Rightarrow> 'a world_scheme \<Rightarrow> 'a world_scheme option" where
  "echo_onConnection cid w = Some w"

definition connection_line :: "nat \<Rightarrow> 'a world_scheme \<Rightarrow> string" where
  "connection_line cid w =
     (if connected cid w then ''Connection UP :'' else ''Connection DOWN :'') @
     c_str (toIpPort (peerAddr (conns w cid)))"

definition echo_env :: "('a world_scheme) env \<Rightarrow> nat \<Rightarrow> ('a world_scheme) env" where
  "echo_env env ptr = setMessageCallback (echo_onMessage env ptr) (setConnectionCallback echo_onConnection env)"

subsection \<open>One echo\<close>

lemma server_env_sel [simp]:
  "os1 (server_env env) = os1 env" "ker (server_env env) = ker env"
  "onConnection (server_env env) = onConnection env" "onMessage (server_env env) = onMessage env"
  "onWriteComplete (server_env env) = onWriteComplete env"
  "onHighWaterMark (server_env env) = onHighWaterMark env"
  by (simp_all add: server_env_def setter_defs)

lemma echo_env_sel [simp]:
  "os1 (echo_env env ptr) = os1 env" "ker (echo_env env ptr) = ker env"
  "onConnection (echo_env env ptr) = Some echo_onConnection"
  "onMessage (echo_env env ptr) = Some (echo_onMessage env ptr)"
  "onWriteComplete (echo_env env ptr) = onWriteComplete env"
  "onHighWaterMark (echo_env env ptr) = onHighWaterMark env"
  by (simp_all add: echo_env_def setter_defs)

lemma conn_ok_env: "ker env' = ker env \<Longrightarrow> conn_ok env' cid w = conn_ok env cid w"
  by (simp add: conn_ok_def)

lemma read_result_env: "os1 env' = os1 env \<Longrightarrow> read_result env' cid w = read_result env cid w"
  by (simp add: read_result_def)

lemma after_read_env: "os1 env' = os1 env \<Longrightarrow> after_read env' cid w = after_read env cid w"
  by (simp add: after_read_def read_result_def)

lemma on_chan_calls: "on_chan env cid f w = Some w' \<Longrightarrow> calls w' = calls w"
  by (auto simp: on_chan_def Let_def opt_simps)

lemma sendInLoop_received:
  assumes "sendInLoop env me cid data w = Some w'"
  shows "received_on d (calls w') = received_on d (calls w)"
proof -
  obtain n r f u where u: "send_direct env me cid data w = Some (n, r, f, u)"
    using assms(1) by (auto simp: sendInLoop_def opt_simps)
  have "received_on d (calls u) = received_on d (calls w)"
    using u by (auto simp: send_direct_def Let_def opt_simps sock_write_Some split: if_splits sum.splits)
  moreover have "calls w' = calls u"
    using assms u on_chan_calls
    by (fastforce simp: sendInLoop_def send_rest_def Let_def split: if_splits)
  ultimately show ?thesis by simp
qed

lemma readFd_capacity_pos: "0 < readFd_capacity b"
  by (simp add: readFd_capacity_def extraSize_def)

text \<open>Without the two optional callbacks a send queues no task.\<close>

lemma on_chan_evl: "on_chan env cid f w = Some w' \<Longrightarrow> evl w' = evl w"
  by (auto simp: on_chan_def Let_def opt_simps)

lemma sendInLoop_evl:
  assumes "sendInLoop env me cid data w = Some w'" "onWriteComplete env = None"
    "onHighWaterMark env = None"
  shows "evl w' = evl w"
proof -
  obtain n r f u where u: "send_direct env me cid data w = Some (n, r, f, u)"
    using assms(1) by (auto simp: sendInLoop_def opt_simps)
  have "evl u = evl w"
    using u assms(2)
    by (auto simp: send_direct_def Let_def opt_simps sock_write_Some split: if_splits sum.splits)
  moreover have "evl w' = evl u"
    using assms(1,3) u on_chan_evl
    by (fastforce simp: sendInLoop_def send_rest_def Let_def split: if_splits)
  ultimately show ?thesis by simp
qed

text \<open>The bytes of a delivery that reach the queue of a drained input buffer.\<close>

definition delivered :: "nat \<Rightarrow> bytes \<Rightarrow> bytes" where
  "delivered writable bs = (if length bs < writable then bs else drop writable bs)"

lemma sendInLoop_sends:
  assumes "conn_ok env cid w" "os_ok (os1 env)" "\<not> write_fault env cid data w"
    "\<not> write_kills env cid data w"
  shows "\<exists>w'. sendInLoop env me cid data w = Some w' \<and> conn_ok env cid w' \<and>
    (\<exists>b. conns w' cid = (conns w cid)\<lparr>outputBuffer := b\<rparr>) \<and>
    sent_on (sockFd (conns w cid)) (calls w') @ readable (outputBuffer (conns w' cid)) =
      sent_on (sockFd (conns w cid)) (calls w) @ readable (outputBuffer (conns w cid)) @ data"
  using sendInLoop_ok [OF assms(1,2,4), of me, unfolded if_not_P [OF assms(3)]] by blast

text \<open>The message callback on an established connection whose input holds \<open>m\<close>.\<close>

lemma onMessage_sends:
  fixes env :: "('a world_scheme) env"
  assumes ok: "conn_ok env cid u" and os: "os_ok (os1 env)" and up: "connState (conns u cid) = KConnected"
    and m: "readable (inputBuffer (conns u cid)) = m" and fd: "sockFd (conns u cid) = fd"
    and nf: "\<And>tr d. os_write (os1 env) tr fd d \<noteq> Inl EPIPE" "\<And>tr d. os_write (os1 env) tr fd d \<noteq> Inl ECONNRESET"
  shows "\<exists>w'. echo_onMessage env ptr cid t u = Some w' \<and> conn_ok env cid w' \<and> connected cid w' \<and>
    sockFd (conns w' cid) = fd \<and> inputBuffer (conns w' cid) = retrieveAll (inputBuffer (conns u cid)) \<and>
    sent_on fd (calls w') @ readable (outputBuffer (conns w' cid)) =
      sent_on fd (calls u) @ readable (outputBuffer (conns u cid)) @ m \<and>
    received_on fd (calls w') = received_on fd (calls u) \<and>
    (onWriteComplete env = None \<longrightarrow> onHighWaterMark env = None \<longrightarrow> evl w' = evl u)"
proof -
  define v where "v = set_conn cid (\<lambda>c. c\<lparr>inputBuffer := retrieveAll (inputBuffer (conns u cid))\<rparr>) u"
  have bok: "buf_ok (inputBuffer (conns u cid))" by (rule conn_okD(1) [OF ok])
  have okv: "conn_ok env cid v" unfolding v_def
    by (rule conn_ok_set_conn) (use ok bok conn_okD [OF ok] in simp_all)
  have v: "calls v = calls u" "connState (conns v cid) = KConnected" "sockFd (conns v cid) = fd"
    "outputBuffer (conns v cid) = outputBuffer (conns u cid)" "evl v = evl u"
    "inputBuffer (conns v cid) = retrieveAll (inputBuffer (conns u cid))"
    by (simp_all add: v_def up fd)
  have nwf: "\<not> write_fault env cid m v" "\<not> write_kills env cid m v"
    using nf by (simp_all add: write_fault_def write_kills_def write_result_def v(3))
  obtain w' where w': "sendInLoop env (loopIx (conns u cid)) cid m v = Some w'" "conn_ok env cid w'"
    "\<exists>b. conns w' cid = (conns v cid)\<lparr>outputBuffer := b\<rparr>"
    "sent_on fd (calls w') @ readable (outputBuffer (conns w' cid)) =
      sent_on fd (calls v) @ readable (outputBuffer (conns v cid)) @ m"
    using sendInLoop_sends [OF okv os nwf, of "loopIx (conns u cid)"] unfolding v(3) by blast
  have "echo_onMessage env ptr cid t u = Some w'"
    using w'(1) bok m up by (simp add: echo_onMessage_def retrieveAllAsString_eq v_def [symmetric] send_def)
  moreover have "connected cid w' \<and> sockFd (conns w' cid) = fd \<and>
      inputBuffer (conns w' cid) = retrieveAll (inputBuffer (conns u cid))"
    using w'(3) v by (auto simp: connected_def)
  ultimately show ?thesis
    using w'(2,4) sendInLoop_received [OF w'(1), of fd] sendInLoop_evl [OF w'(1)] v
    by (intro exI [of _ w']) simp
qed

lemma echo_read:
  fixes env :: "('a world_scheme) env"
  assumes ok: "conn_ok env cid w" and os: "os_ok (os1 env)" and up: "connected cid w"
    and idle: "readable (inputBuffer (conns w cid)) = []"
    and rd: "read_result env cid w = Inr bs" "bs \<noteq> []"
    and nf: "\<And>tr d. os_write (os1 env) tr (sockFd (conns w cid)) d \<noteq> Inl EPIPE"
      "\<And>tr d. os_write (os1 env) tr (sockFd (conns w cid)) d \<noteq> Inl ECONNRESET"
    and env': "os1 env' = os1 env" "ker env' = ker env" "onMessage env' = Some (echo_onMessage env ptr)"
  shows "\<exists>w'. conn_handleRead env' cid t w = Some w' \<and> conn_ok env cid w' \<and> connected cid w' \<and>
    sockFd (conns w' cid) = sockFd (conns w cid) \<and>
    inputBuffer (conns w' cid) = retrieveAll (inputBuffer (conns (after_read env cid w) cid)) \<and>
    sent_on (sockFd (conns w cid)) (calls w') @ readable (outputBuffer (conns w' cid)) =
      sent_on (sockFd (conns w cid)) (calls w) @ readable (outputBuffer (conns w cid)) @
      delivered (writableBytes (inputBuffer (conns w cid))) bs \<and>
    received_on (sockFd (conns w cid)) (calls w') =
      received_on (sockFd (conns w cid)) (calls w) @ bs \<and>
    (onWriteComplete env = None \<longrightarrow> onHighWaterMark env = None \<longrightarrow> evl w' = evl w)"
proof -
  define fd where "fd = sockFd (conns w cid)"
  define u where "u = after_read env cid w"
  define m where "m = delivered (writableBytes (inputBuffer (conns w cid))) bs"
  have u: "conn_ok env cid u" "readable (inputBuffer (conns u cid)) = m"
    using after_read_ok [OF ok os] rd idle by (auto simp: u_def m_def delivered_def)
  have cu: "calls u = calls w @ [CRead fd (Inr bs)]" "connState (conns u cid) = KConnected"
    "sockFd (conns u cid) = fd" "outputBuffer (conns u cid) = outputBuffer (conns w cid)" "evl u = evl w"
    using rd(1) up by (simp_all add: u_def after_read_def fd_def connected_def)
  have "conn_ok env' cid w" "os_ok (os1 env')" "read_result env' cid w = Inr bs"
    using ok os rd conn_ok_env [OF env'(2), of cid w] read_result_env [OF env'(1), of cid w] env'(1)
    by simp_all
  then have "conn_handleRead env' cid t w = echo_onMessage env ptr cid t u"
    using conn_handleRead_eq [of env' cid w t] rd(2) env'(3) after_read_env [OF env'(1), of cid w]
    by (simp add: invoke_def u_def)
  then show ?thesis
    using onMessage_sends [OF u(1) os cu(2) u(2) cu(3) nf [folded fd_def], of ptr t] cu
    by (simp add: fd_def [symmetric] m_def u_def)
qed

text \<open>A drained input buffer of the initial size, which short deliveries leave as it is.\<close>

definition idle :: "buffer \<Rightarrow> bool" where
  "idle b \<longleftrightarrow> readerIndex b = CheapPrepend \<and> writerIndex b = CheapPrepend \<and>
     length (bufferVec b) = CheapPrepend + InitialSize"

lemma idle_facts: "idle b \<Longrightarrow> buf_ok b \<and> readable b = [] \<and> writableBytes b = InitialSize"
  by (simp add: idle_def buf_ok_def readable_def buf_sizes mem_simps)

lemma idle_new [simp]: "idle (new_Buffer 1024)"
  by (simp add: idle_def CheapPrepend_def InitialSize_def)

lemma idle_after_read:
  assumes "idle b" "length bs < InitialSize"
  shows "idle (retrieveAll (snd (snd (readFd (Inr bs) b))))"
  using assms idle_facts [OF assms(1)]
  by (simp add: idle_def readFd_def Let_def retrieveAll_def mem_simps)

subsection \<open>Properties of the echo\<close>

text \<open>
  C13 (a sequence of deliveries). Take an established connection of the echo server with its input
  buffer drained and of the initial size, a kernel whose reads on its descriptor each deliver
  between 1 and 1023 bytes, and whose writes never fail with EPIPE or ECONNRESET but may take
  any part. Then any number of read events, with no write event in between, runs without
  failing, and what was sent followed by what is pending grows by exactly what was received, byte
  for byte and in order. That \<open>handleWrite\<close> does not send what is pending is the subject of
  \<open>partial_write_corrupts\<close>.
\<close>

theorem echo_stream:
  assumes "conn_ok env cid w" "os_ok (os1 env)" "connected cid w"
    and "idle (inputBuffer (conns w cid))"
    and "\<And>tr n. 0 < n \<Longrightarrow> \<exists>bs. os_read (os1 env) tr (sockFd (conns w cid)) n = Inr bs \<and> bs \<noteq> [] \<and>
      length bs < InitialSize"
    and "\<And>tr d. os_write (os1 env) tr (sockFd (conns w cid)) d \<noteq> Inl EPIPE"
    and "\<And>tr d. os_write (os1 env) tr (sockFd (conns w cid)) d \<noteq> Inl ECONNRESET"
  shows "\<exists>w' r. fold_opt (conn_handleRead (server_env (echo_env env ptr)) cid) ts w = Some w' \<and>
    conn_ok env cid w' \<and> connected cid w' \<and> length ts \<le> length r \<and>
    received_on (sockFd (conns w cid)) (calls w') = received_on (sockFd (conns w cid)) (calls w) @ r \<and>
    sent_on (sockFd (conns w cid)) (calls w') @ readable (outputBuffer (conns w' cid)) =
      sent_on (sockFd (conns w cid)) (calls w) @ readable (outputBuffer (conns w cid)) @ r"
  using assms
proof (induction ts arbitrary: w)
  case Nil
  then show ?case by (intro exI [of _ w] exI [of _ "[]"]) simp
next
  case (Cons t ts)
  define fd where "fd = sockFd (conns w cid)"
  have id: "readable (inputBuffer (conns w cid)) = []"
    "writableBytes (inputBuffer (conns w cid)) = InitialSize"
    using idle_facts [OF Cons.prems(4)] by simp_all
  obtain bs where bs: "read_result env cid w = Inr bs" "bs \<noteq> []" "length bs < InitialSize"
    using Cons.prems(5) readFd_capacity_pos unfolding read_result_def by blast
  obtain u where u: "conn_handleRead (server_env (echo_env env ptr)) cid t w = Some u"
    "conn_ok env cid u" "connected cid u" "sockFd (conns u cid) = fd"
    "inputBuffer (conns u cid) = retrieveAll (inputBuffer (conns (after_read env cid w) cid))"
    "sent_on fd (calls u) @ readable (outputBuffer (conns u cid)) =
      sent_on fd (calls w) @ readable (outputBuffer (conns w cid)) @ bs"
    "received_on fd (calls u) = received_on fd (calls w) @ bs"
    using echo_read [OF Cons.prems(1,2,3) id(1) bs(1,2) Cons.prems(6,7),
        of "server_env (echo_env env ptr)" ptr t] bs(3) id(2)
    by (auto simp: fd_def delivered_def)
  have "idle (inputBuffer (conns u cid))"
    using idle_after_read [OF Cons.prems(4) bs(3)] u(5) bs(1) by (simp add: after_read_def)
  then obtain w' r where w': "fold_opt (conn_handleRead (server_env (echo_env env ptr)) cid) ts u = Some w'"
    "conn_ok env cid w'" "connected cid w'" "length ts \<le> length r"
    "received_on fd (calls w') = received_on fd (calls u) @ r"
    "sent_on fd (calls w') @ readable (outputBuffer (conns w' cid)) =
      sent_on fd (calls u) @ readable (outputBuffer (conns u cid)) @ r"
    using Cons.IH [OF u(2) Cons.prems(2) u(3)] Cons.prems(5,6,7) u(4) by (auto simp: fd_def)
  have "length (t # ts) \<le> length (bs @ r)" using bs(2) w'(4) by (cases bs) auto
  moreover have "sent_on fd (calls w') @ readable (outputBuffer (conns w' cid)) =
      sent_on fd (calls w) @ readable (outputBuffer (conns w cid)) @ bs @ r"
    using w'(6) u(6) by (metis append.assoc)
  ultimately show ?case using u(1,7) w'(1,2,3,5)
    by (intro exI [of _ w'] exI [of _ "bs @ r"]) (simp add: fd_def)
qed

definition base_server :: server where
  "base_server = world.extend base_world
     \<lparr>baseIx = 0, serverName = ''EchoServer'', ipPort = toIpPort zero_addr,
      threadPool = fst (pool_start (\<lambda>i. nat i + 1) False (setThreadNum 3 (EventLoopThreadPool 0 0 ''EchoServer''))),
      srvStarted = 1, hasThreadInit = False, nextConnId = 1, connections = Map.empty, acceptFd = 3, listening = True,
      nextObj = 0, alive = \<lambda>_. False\<rparr>"

lemma base_server_sel [simp]:
  "pol base_server i = EPollPoller (\<lambda>_. Channel (-1))" "calls base_server = []"
  "evl base_server i = EventLoop" "baseIx base_server = 0" "connections base_server = Map.empty"
  "nextConnId base_server = 1" "nextObj base_server = 0" "serverName base_server = ''EchoServer''"
  "ipPort base_server = toIpPort zero_addr" "loops (threadPool base_server) = [1, 2, 3]"
  "nextIx (threadPool base_server) = 0"
  by (simp_all add: base_server_def base_world_def world.defs pool_start_def setThreadNum_def
      EventLoopThreadPool_def Let_def numeral_3_eq_3)

theorem echo_stream_witness:
  "\<exists>w w' :: server. connected 0 w \<and> sent_on 7 (calls w) = [] \<and>
    fold_opt (conn_handleRead (server_env (echo_env (quiet_env (Inr ''ab'') (Inr 2)) 0)) 0) [1, 2, 3] w
      = Some w' \<and> 3 \<le> length (received_on 7 (calls w')) \<and>
    sent_on 7 (calls w') @ readable (outputBuffer (conns w' 0)) = received_on 7 (calls w')"
proof -
  define e :: senv where "e = quiet_env (Inr ''ab'') (Inr 2)"
  obtain w :: server where w: "conn_ok e 0 w" "connected 0 w" "calls w = [CSetopt 7 SO_KEEPALIVE True]"
    "sockFd (conns w 0) = 7" "inputBuffer (conns w 0) = new_Buffer 1024"
    "outputBuffer (conns w 0) = new_Buffer 1024"
    using quiet_established [OF base_server_sel(1,2) e_def] by blast
  have os: "os_ok (os1 e)" by (simp add: e_def)
  have id: "idle (inputBuffer (conns w 0))" using w(5) by simp
  have rd: "\<exists>bs. os_read (os1 e) tr (sockFd (conns w 0)) n = Inr bs \<and> bs \<noteq> [] \<and>
      length bs < InitialSize" if "0 < n" for tr n
    using that by (auto simp: e_def InitialSize_def)
  have wr: "os_write (os1 e) tr (sockFd (conns w 0)) d \<noteq> Inl x" for tr d x
    by (simp add: e_def)
  obtain w' r where "fold_opt (conn_handleRead (server_env (echo_env e 0)) 0) [1, 2, 3] w = Some w'"
    "length [1, 2, 3 :: int] \<le> length r" "received_on 7 (calls w') = received_on 7 (calls w) @ r"
    "sent_on 7 (calls w') @ readable (outputBuffer (conns w' 0)) =
      sent_on 7 (calls w) @ readable (outputBuffer (conns w 0)) @ r"
    using echo_stream [OF w(1) os w(2) id rd wr wr, of 0 "[1, 2, 3]"] unfolding w(4) by blast
  then show ?thesis using w(2,3,6) unfolding e_def
    by (intro exI [of _ w] exI [of _ w']) simp
qed

text \<open>
  C26 (a large delivery loses its beginning). When one read event delivers 1024 bytes or more to
  a connection of the echo server whose input buffer is drained and of the initial size, and
  no write to it fails with EPIPE or ECONNRESET, then what was sent followed by what is pending
  grows by exactly the bytes after the first 1024: those are neither sent back nor kept.
\<close>

theorem echo_drops_prefix:
  assumes "conn_ok env cid w" "os_ok (os1 env)" "connected cid w"
    and "idle (inputBuffer (conns w cid))" "read_result env cid w = Inr bs" "InitialSize \<le> length bs"
    and "\<And>tr d. os_write (os1 env) tr (sockFd (conns w cid)) d \<noteq> Inl EPIPE"
    and "\<And>tr d. os_write (os1 env) tr (sockFd (conns w cid)) d \<noteq> Inl ECONNRESET"
  shows "\<exists>w'. conn_handleRead (server_env (echo_env env ptr)) cid t w = Some w' \<and>
    received_on (sockFd (conns w cid)) (calls w') = received_on (sockFd (conns w cid)) (calls w) @ bs \<and>
    sent_on (sockFd (conns w cid)) (calls w') @ readable (outputBuffer (conns w' cid)) =
      sent_on (sockFd (conns w cid)) (calls w) @ readable (outputBuffer (conns w cid)) @
      drop InitialSize bs"
proof -
  have id: "readable (inputBuffer (conns w cid)) = []"
    "writableBytes (inputBuffer (conns w cid)) = InitialSize"
    using idle_facts [OF assms(4)] by simp_all
  have ne: "bs \<noteq> []" using assms(6) by (auto simp: InitialSize_def)
  have "delivered InitialSize bs = drop InitialSize bs" using assms(6) by (simp add: delivered_def)
  then show ?thesis
    using echo_read [OF assms(1-3) id(1) assms(5) ne assms(7,8),
        of "server_env (echo_env env ptr)" ptr t] id(2) by auto
qed

theorem echo_drops_prefix_witness:
  "\<exists>w w' :: server. connected 0 w \<and>
    conn_handleRead (server_env (echo_env (quiet_env (Inr (replicate 1030 CHR ''a'')) (Inr 9)) 0)) 0 5 w
      = Some w' \<and> length (received_on 7 (calls w')) = 1030 \<and>
    sent_on 7 (calls w') @ readable (outputBuffer (conns w' 0)) = ''aaaaaa''"
proof -
  define bs where "bs = replicate 1030 CHR ''a''"
  define e :: senv where "e = quiet_env (Inr bs) (Inr 9)"
  obtain w :: server where w: "conn_ok e 0 w" "connected 0 w" "calls w = [CSetopt 7 SO_KEEPALIVE True]"
    "sockFd (conns w 0) = 7" "inputBuffer (conns w 0) = new_Buffer 1024"
    "outputBuffer (conns w 0) = new_Buffer 1024"
    using quiet_established [OF base_server_sel(1,2) e_def] by blast
  have os: "os_ok (os1 e)" by (simp add: e_def)
  have id: "idle (inputBuffer (conns w 0))" using w(5) by simp
  have rd: "read_result e 0 w = Inr bs"
    by (simp add: read_result_def e_def readFd_capacity_def extraSize_def w(5) bs_def)
  have len: "InitialSize \<le> length bs" by (simp add: bs_def InitialSize_def)
  have wr: "os_write (os1 e) tr (sockFd (conns w 0)) d \<noteq> Inl x" for tr d x
    by (simp add: e_def)
  have d: "drop InitialSize bs = ''aaaaaa''"
    by (simp add: bs_def InitialSize_def) (simp add: eval_nat_numeral)
  obtain w' where "conn_handleRead (server_env (echo_env e 0)) 0 5 w = Some w'"
    "received_on 7 (calls w') = received_on 7 (calls w) @ bs"
    "sent_on 7 (calls w') @ readable (outputBuffer (conns w' 0)) =
      sent_on 7 (calls w) @ readable (outputBuffer (conns w 0)) @ drop InitialSize bs"
    using echo_drops_prefix [OF w(1) os w(2) id rd len wr wr, of 0 5] unfolding w(4) by blast
  then show ?thesis using w(2,3,6) d unfolding e_def bs_def
    by (intro exI [of _ w] exI [of _ w']) simp
qed

subsection \<open>Connections of the server\<close>

lemma NUL_decimal: "NUL \<notin> set (decimal i)"
  using NUL_notin_dec by (auto simp: decimal_def NUL_def)

lemma conn_name_eq:
  assumes "ipv4_ok (sin_addr a)" "\<bar>i\<bar> < 2 ^ 64"
  shows "conn_name name (toIpPort a) i = name @ ''-'' @ toIpPort a @ ''#'' @ decimal i"
proof -
  have n: "NUL \<notin> set (toIpPort a)"
    using NUL_inet_ntop NUL_notin_dec by (auto simp: toIpPort_eq NUL_def)
  have "length (toIpPort a) \<le> 21"
    using length_inet_ntop [OF assms(1)] length_dec_port [of "toPort a"] by (simp add: toIpPort_eq)
  then have l: "length (''-'' @ toIpPort a @ ''#'' @ decimal i) \<le> 63"
    using length_decimal [OF assms(2)] by simp
  have "NUL \<notin> set (''-'' @ toIpPort a @ ''#'' @ decimal i)"
    using n NUL_decimal by (auto simp: NUL_def)
  then show ?thesis
    using c_str_snprintf [of "''-'' @ toIpPort a @ ''#'' @ decimal i" 63] l
    by (simp add: conn_name_def c_str_id [OF n])
qed

lemma conn_name_inj:
  assumes "ipv4_ok (sin_addr a)" "\<bar>i\<bar> < 2 ^ 64" "\<bar>j\<bar> < 2 ^ 64"
    and "conn_name name (toIpPort a) i = conn_name name (toIpPort a) j"
  shows "i = j"
proof -
  have "decimal i = decimal j"
    using assms(4) by (simp add: conn_name_eq [OF assms(1,2)] conn_name_eq [OF assms(1,3)])
  then show ?thesis by (metis undecimal_decimal)
qed

text \<open>
  Every entry of the connection map is an allocated connection, under its own name, which
  was made from a number already used.
\<close>

definition names_ok :: "sockaddr_in \<Rightarrow> server \<Rightarrow> bool" where
  "names_ok a w \<longleftrightarrow> ipv4_ok (sin_addr a) \<and> ipPort w = toIpPort a \<and> 1 \<le> nextConnId w \<and>
     (\<forall>n c. connections w n = Some c \<longrightarrow> c < nextObj w \<and> connName (conns w c) = n \<and>
        (\<exists>k. 1 \<le> k \<and> k < nextConnId w \<and> n = conn_name (serverName w) (ipPort w) k))"

lemma names_ok_fresh:
  assumes "names_ok a w" "nextConnId w < 2 ^ 31"
  shows "connections w (conn_name (serverName w) (ipPort w) (nextConnId w)) = None"
proof (rule ccontr)
  assume "\<not> ?thesis"
  then obtain k where k: "1 \<le> k" "k < nextConnId w"
    "conn_name (serverName w) (ipPort w) (nextConnId w) = conn_name (serverName w) (ipPort w) k"
    using assms(1) unfolding names_ok_def by (metis not_None_eq)
  have a: "ipv4_ok (sin_addr a)" "ipPort w = toIpPort a" using assms(1) by (auto simp: names_ok_def)
  have "nextConnId w = k"
    using conn_name_inj [OF a(1), of "nextConnId w" k "serverName w"] k assms(2) unfolding a(2) by simp
  then show False using k(2) by simp
qed

lemma newConnection_other_loop:
  assumes "loops (threadPool w) \<noteq> []" "pool_ok (threadPool w)" "me \<notin> set (loops (threadPool w))"
  defines "i \<equiv> loops (threadPool w) ! nextIx (threadPool w)"
    and "name \<equiv> conn_name (serverName w) (ipPort w) (nextConnId w)"
  shows "\<exists>w'. newConnection env me sockfd peer w = Some w' \<and>
    connections w' = (connections w)(name \<mapsto> nextObj w) \<and>
    nextConnId w' = nextConnId w + 1 \<and> nextObj w' = nextObj w + 1 \<and>
    serverName w' = serverName w \<and> ipPort w' = ipPort w \<and> alive w' = (alive w)(nextObj w := True) \<and>
    (\<forall>c. c \<noteq> nextObj w \<longrightarrow> conns w' c = conns w c) \<and>
    loopIx (conns w' (nextObj w)) = i \<and> connName (conns w' (nextObj w)) = name \<and>
    sockFd (conns w' (nextObj w)) = sockfd \<and> connState (conns w' (nextObj w)) = KConnecting \<and>
    peerAddr (conns w' (nextObj w)) = peer \<and>
    evl w' = (evl w)(i := queueInLoop False (FConnectEstablished (nextObj w)) (evl w i)) \<and>
    threadPool w' = (threadPool w)\<lparr>nextIx := (nextIx (threadPool w) + 1) mod length (loops (threadPool w))\<rparr>"
proof -
  have "i \<in> set (loops (threadPool w))"
    using assms(1,2) by (auto simp: pool_ok_def i_def)
  then have ne: "me \<noteq> i" using assms(3) by auto
  show ?thesis
    using ne getNextLoop_index [OF assms(1,2)]
    by (simp add: newConnection_def Let_def i_def [symmetric] name_def [symmetric] TcpConnection_def
        setKeepAlive_def log_call_def queue_on_def)
qed

text \<open>
  A new connection. When the base loop accepts a connection and the pool has threads of
  their own, the connection gets a name no other entry of the map has, is entered there
  under it, is assigned to the next loop of the round robin, and its \<open>connectEstablished\<close> is
  queued on that loop with a wake-up; the map stays well formed.
\<close>

lemma new_connection:
  assumes "names_ok a w" "nextConnId w < 2 ^ 31 - 1"
    and "loops (threadPool w) \<noteq> []" "pool_ok (threadPool w)" "me \<notin> set (loops (threadPool w))"
  shows "\<exists>w' name i. newConnection env me sockfd peer w = Some w' \<and> names_ok a w' \<and>
    connections w name = None \<and> connections w' = (connections w)(name \<mapsto> nextObj w) \<and>
    i = loops (threadPool w) ! nextIx (threadPool w) \<and> pool_ok (threadPool w') \<and>
    nextIx (threadPool w') = (nextIx (threadPool w) + 1) mod length (loops (threadPool w)) \<and>
    loopIx (conns w' (nextObj w)) = i \<and> connState (conns w' (nextObj w)) = KConnecting \<and>
    sockFd (conns w' (nextObj w)) = sockfd \<and> peerAddr (conns w' (nextObj w)) = peer \<and>
    pendingFunctors (evl w' i) = pendingFunctors (evl w i) @ [FConnectEstablished (nextObj w)] \<and>
    0 < counter (evl w' i)"
proof -
  define i where "i = loops (threadPool w) ! nextIx (threadPool w)"
  define name where "name = conn_name (serverName w) (ipPort w) (nextConnId w)"
  obtain w' where r: "newConnection env me sockfd peer w = Some w'"
    and c: "connections w' = (connections w)(name \<mapsto> nextObj w)"
    and n: "nextConnId w' = nextConnId w + 1" "nextObj w' = nextObj w + 1"
      "serverName w' = serverName w" "ipPort w' = ipPort w"
    and k: "\<forall>c. c \<noteq> nextObj w \<longrightarrow> conns w' c = conns w c"
    and new: "loopIx (conns w' (nextObj w)) = i" "connName (conns w' (nextObj w)) = name"
      "sockFd (conns w' (nextObj w)) = sockfd" "connState (conns w' (nextObj w)) = KConnecting"
      "peerAddr (conns w' (nextObj w)) = peer"
    and q: "evl w' = (evl w)(i := queueInLoop False (FConnectEstablished (nextObj w)) (evl w i))"
    and tp: "threadPool w' = (threadPool w)\<lparr>nextIx := (nextIx (threadPool w) + 1) mod length (loops (threadPool w))\<rparr>"
    using newConnection_other_loop [OF assms(3-5), of env sockfd peer] unfolding i_def name_def by blast
  have fresh: "connections w name = None"
    using names_ok_fresh [OF assms(1)] assms(2) by (simp add: name_def)
  have entries: "d < nextObj w' \<and> connName (conns w' d) = m \<and>
      (\<exists>k. 1 \<le> k \<and> k < nextConnId w' \<and> m = conn_name (serverName w') (ipPort w') k)"
    if m: "connections w' m = Some d" for m d
    proof (cases "m = name")
      case True
      then have "d = nextObj w" using m c by simp
      then show ?thesis using True new(2) n assms(1)
        by (auto simp: names_ok_def name_def intro!: exI [of _ "nextConnId w"])
    next
      case False
      then have "connections w m = Some d" using m c by simp
      then have d: "d < nextObj w" "connName (conns w d) = m"
        "\<exists>k. 1 \<le> k \<and> k < nextConnId w \<and> m = conn_name (serverName w) (ipPort w) k"
        using assms(1) by (auto simp: names_ok_def)
      then have "conns w' d = conns w d" using k by simp
      then show ?thesis using d n by (auto intro: less_SucI)
    qed
  have ok: "names_ok a w'" using entries assms(1) n by (simp add: names_ok_def)
  have "pool_ok (threadPool w')" using assms(3) by (simp add: tp pool_ok_def)
  moreover have "0 < counter (evl w' i)" by (simp add: q queueInLoop_def Let_def)
  ultimately show ?thesis using r ok fresh c new q tp
    by (intro exI [of _ w'] exI [of _ name] exI [of _ i]) (simp add: i_def)
qed

lemma new_connection_witness:
  "\<exists>w' name. newConnection (quiet_env (Inr []) (Inr 0)) 0 7 zero_addr base_server = Some w' \<and>
    connections w' = [name \<mapsto> 0] \<and> loopIx (conns w' 0) = 1 \<and>
    pendingFunctors (evl w' 1) = [FConnectEstablished 0]"
proof -
  have n: "names_ok zero_addr base_server" by (simp add: names_ok_def ipv4_ok_def zero_addr_def)
  have p: "nextConnId base_server < 2 ^ 31 - 1" "loops (threadPool base_server) \<noteq> []"
    "pool_ok (threadPool base_server)" "0 \<notin> set (loops (threadPool base_server))"
    by (simp_all add: pool_ok_def)
  have e: "pendingFunctors (evl base_server 1) = []" by (simp add: EventLoop_def)
  show ?thesis
    using new_connection [OF n p, of "quiet_env (Inr []) (Inr 0)" 7 zero_addr] e by auto
qed

subsection \<open>A loop's own channel\<close>

lemma EventLoop_ctor_ok:
  assumes "epoll_ok (ker env i)" "\<And>c. chIndex (mem c) = New"
  shows "\<exists>w'. EventLoop_ctor env i (Inr d) False mem w = Some w' \<and> poller_ok (pol w' i) \<and>
    interest (ctlTrace (pol w' i)) = [d \<mapsto> (ReadEvent, ChWakeup i)] \<and> evl w' i = EventLoop \<and>
    owns_fd (ChWakeup i) (pol w' i) \<and> chFd (chan (pol w' i) (ChWakeup i)) = d"
proof -
  define p where "p = set_chan (ChWakeup i) (\<lambda>_. Channel d) (EPollPoller mem)"
  have p: "poller_ok p" unfolding p_def
    by (rule poller_ok_new_channel [OF poller_ok_EPollPoller]) (simp_all add: assms(2) EPollPoller_def)
  have o: "owns_fd (ChWakeup i) p" by (simp add: p_def owns_fd_def EPollPoller_def)
  have c: "chan p (ChWakeup i) = Channel d" "interest (ctlTrace p) = Map.empty"
    by (simp_all add: p_def EPollPoller_def)
  obtain q where q: "set_events (ker env i) (ChWakeup i) ReadEvent p = Some q" "poller_ok q"
    "owns_fd (ChWakeup i) q" "\<forall>x. chFd (chan q x) = chFd (chan p x)"
    "interest (ctlTrace q) = (interest (ctlTrace p))(chFd (chan p (ChWakeup i)) :=
       new_interest (ChWakeup i) ReadEvent p)"
    using set_events_ok [OF assms(1) p o, of ReadEvent] by blast
  have "enableReading (ker env i) (ChWakeup i) p = Some q"
    using q(1) c(1) by (simp add: enableReading_def Channel_def)
  then have "EventLoop_ctor env i (Inr d) False mem w =
      Some (w\<lparr>evl := (evl w)(i := EventLoop), pol := (pol w)(i := q)\<rparr>)"
    by (simp add: EventLoop_ctor_def newDefaultPoller_def p_def [symmetric])
  moreover have "interest (ctlTrace q) = [d \<mapsto> (ReadEvent, ChWakeup i)]"
    using q(5) c by (simp add: new_interest_def Channel_def index_defs)
  ultimately show ?thesis using q(2-4) c(1) by (simp add: Channel_def)
qed

text \<open>The destructor takes the wake-up descriptor out of the kernel's list and closes it.\<close>

lemma EventLoop_dtor_ok:
  assumes "epoll_ok (ker env i)" "poller_ok (pol w i)" "owns_fd (ChWakeup i) (pol w i)"
  defines "d \<equiv> chFd (chan (pol w i) (ChWakeup i))"
  shows "\<exists>w'. EventLoop_dtor env i w = Some w' \<and> calls w' = calls w @ [CClose d] \<and>
    interest (ctlTrace (pol w' i)) = (interest (ctlTrace (pol w i)))(d := None)"
proof -
  obtain q where q: "fold_opt (set_events (ker env i) (ChWakeup i)) [0] (pol w i) \<bind>
      removeChannel (ker env i) (ChWakeup i) = Some q"
    "interest (ctlTrace q) = (interest (ctlTrace (pol w i)))(d := None)"
    using ep.session [of "ker env i" "pol w i" "ChWakeup i" "[0]"] assms(1-3)
    by (auto simp: d_def simp del: fold_opt.simps)
  obtain p where p: "set_events (ker env i) (ChWakeup i) 0 (pol w i) = Some p"
    "removeChannel (ker env i) (ChWakeup i) p = Some q"
    using q(1) by (auto simp: opt_simps)
  have "chFd (chan p (ChWakeup i)) = d"
    using set_events_ok [OF assms(1-3), of 0] p(1) by (auto simp: d_def)
  moreover have "chFd (chan q x) = chFd (chan p x)" for x
    using p(2) by (auto simp: removeChannel_def update_def Let_def opt_simps set_index_def set_chan_def
        split: if_splits option.splits)
  ultimately show ?thesis
    using p q(2) by (simp add: EventLoop_dtor_def disableAll_def NoneEvent_def Socket_dtor_def log_call_def)
qed

subsection \<open>Teardown\<close>

lemma same_more:
  fixes u w :: server
  assumes "world.more u = world.more w"
  shows "connections u = connections w" "alive u = alive w" "baseIx u = baseIx w"
    "threadPool u = threadPool w"
  using assms by (cases u; cases w; simp)+

lemma connectDestroyed_closed:
  assumes "conn_ok env cid w" "connState (conns w cid) = KDisconnected"
  shows "\<exists>w'. connectDestroyed env cid w = Some w' \<and> same_but_chan cid w w' \<and> watched cid w' = None"
  using on_remove_ok [OF assms(1)] assms(2) by (auto simp: connectDestroyed_def)

text \<open>What a closed connection of loop \<open>i\<close> looks like between two rounds of the loops.\<close>

definition closing :: "senv \<Rightarrow> nat \<Rightarrow> nat \<Rightarrow> server \<Rightarrow> bool" where
  "closing env i cid w \<longleftrightarrow> conn_ok env cid w \<and> connState (conns w cid) = KDisconnected \<and>
     loopIx (conns w cid) = i \<and> i \<noteq> baseIx w \<and> i \<in> set (loops (threadPool w)) \<and>
     connections w (connName (conns w cid)) = Some cid \<and> alive w cid \<and>
     pendingFunctors (evl w i) = [] \<and> pendingFunctors (evl w (baseIx w)) = [] \<and>
     (\<forall>j \<in> set (loops (threadPool w)). Some cid \<notin> keeps ` set (pendingFunctors (evl w j)))"

lemma fold_release_one [simp]: "fold release_task [f] w = release_task f w"
  by simp

text \<open>The round of the base loop.\<close>

lemma base_round:
  assumes "closing env i cid w"
  shows "\<exists>w2. doPendingFunctors env (baseIx w)
      (queue_on i (baseIx w) (FRemoveConnectionInLoop cid) w) = Some w2 \<and>
    conns w2 = conns w \<and> pol w2 = pol w \<and> calls w2 = calls w \<and> baseIx w2 = baseIx w \<and>
    threadPool w2 = threadPool w \<and> alive w2 = alive w \<and>
    connections w2 = (connections w)(connName (conns w cid) := None) \<and>
    pendingFunctors (evl w2 i) = [FConnectDestroyed cid] \<and> 0 < counter (evl w2 i) \<and>
    pendingFunctors (evl w2 (baseIx w)) = [] \<and>
    (\<forall>j. j \<noteq> i \<longrightarrow> j \<noteq> baseIx w \<longrightarrow> evl w2 j = evl w j)"
proof -
  define b where "b = baseIx w"
  have a: "i \<noteq> b" "loopIx (conns w cid) = i" "pendingFunctors (evl w i) = []"
    "pendingFunctors (evl w b) = []" "i \<in> set (loops (threadPool w))"
    using assms by (auto simp: closing_def b_def)
  define w1 where "w1 = queue_on i b (FRemoveConnectionInLoop cid) w"
  define w1' where "w1' = w1\<lparr>evl := (evl w1)(b := (evl w1 b)\<lparr>callingPendingFunctors := True,
      pendingFunctors := []\<rparr>)\<rparr>"
  define u where "u = removeConnectionInLoop b cid w1'"
  define v where "v = u\<lparr>evl := (evl u)(b := (evl u b)\<lparr>callingPendingFunctors := False\<rparr>)\<rparr>"
  have fs: "pendingFunctors (evl w1 b) = [FRemoveConnectionInLoop cid]"
    using a(4) by (simp add: w1_def)
  have u: "evl u = (evl w1')(i := queueInLoop False (FConnectDestroyed cid) (evl w i))"
    using a(1,2) by (simp add: u_def removeConnectionInLoop_def w1'_def w1_def queue_on_def)
  have v: "conns v = conns w" "pol v = pol w" "calls v = calls w" "baseIx v = b"
    "threadPool v = threadPool w" "alive v = alive w"
    "connections v = (connections w)(connName (conns w cid) := None)"
    by (simp_all add: v_def u_def removeConnectionInLoop_def w1'_def w1_def queue_on_def b_def)
  have q: "pendingFunctors (evl v i) = [FConnectDestroyed cid]" "0 < counter (evl v i)"
    "pendingFunctors (evl v b) = []" "\<forall>j. j \<noteq> i \<longrightarrow> j \<noteq> b \<longrightarrow> evl v j = evl w j"
    using a(1,3) by (auto simp: v_def u w1'_def w1_def queueInLoop_def Let_def)
  have "referenced cid v" unfolding referenced_def
    using a(5) q(1) v(5) by (intro disjI2 bexI [of _ i]) simp_all
  moreover have "task_live (FRemoveConnectionInLoop cid) w1'"
    using assms by (simp add: task_live_def w1'_def w1_def closing_def queue_on_def)
  ultimately have "doPendingFunctors env b w1 = Some v"
    by (simp add: doPendingFunctors_def Let_def fs run_task_def w1'_def [symmetric] u_def [symmetric]
        v_def [symmetric] release_task_def release_def)
  then show ?thesis using v q by (intro exI [of _ v]) (simp add: w1_def b_def)
qed

text \<open>The round of the connection's loop.\<close>

lemma io_round:
  assumes ok: "conn_ok env cid w" "connState (conns w cid) = KDisconnected" "loopIx (conns w cid) = i"
    and nc: "connections w (connName (conns w cid)) = None" and al: "alive w cid"
    and q: "pendingFunctors (evl w i) = [FConnectDestroyed cid]"
    and rest: "\<forall>j \<in> set (baseIx w # loops (threadPool w)). j \<noteq> i \<longrightarrow>
      Some cid \<notin> keeps ` set (pendingFunctors (evl w j))"
  shows "\<exists>w'. doPendingFunctors env i w = Some w' \<and> watched cid w' = None \<and> \<not> alive w' cid \<and>
    calls w' = calls w @ [CClose (sockFd (conns w cid))] \<and> connections w' = connections w"
proof -
  define w1 where "w1 = w\<lparr>evl := (evl w)(i := (evl w i)\<lparr>callingPendingFunctors := True,
      pendingFunctors := []\<rparr>)\<rparr>"
  have ok1: "conn_ok (server_env env) cid w1"
    using ok(1) by (simp add: conn_ok_def Let_def w1_def chan_of_def)
  obtain u where u: "connectDestroyed (server_env env) cid w1 = Some u" "same_but_chan cid w1 u"
    "watched cid u = None"
    using connectDestroyed_closed [OF ok1] ok(2) by (auto simp: w1_def)
  note S = same_but_chanD [OF u(2)]
  define v where "v = u\<lparr>evl := (evl u)(i := (evl u i)\<lparr>callingPendingFunctors := False\<rparr>)\<rparr>"
  have m: "connections u = connections w" "alive u = alive w" "baseIx u = baseIx w"
    "threadPool u = threadPool w"
    using same_more [OF S(4)] by (simp_all add: w1_def)
  have v: "conns v = conns w" "calls v = calls w" "connections v = connections w" "alive v = alive w"
    "baseIx v = baseIx w" "threadPool v = threadPool w" "pendingFunctors (evl v i) = []"
    and vo: "\<And>j. j \<noteq> i \<Longrightarrow> evl v j = evl w j"
    using S(1-3) m by (simp_all add: v_def w1_def)
  have "Some cid \<notin> keeps ` set (pendingFunctors (evl v j))"
    if "j \<in> set (baseIx w # loops (threadPool w))" for j
    using rest that v(7) vo [of j] by (cases "j = i") auto
  then have "\<not> referenced cid v" using nc by (simp add: referenced_def v(1,3,5,6))
  then have "release_task (FConnectDestroyed cid) v = TcpConnection_dtor cid v"
    using al by (simp add: release_task_def release_def v(4))
  moreover have "task_live (FConnectDestroyed cid) w1" using al by (simp add: task_live_def w1_def)
  ultimately have "doPendingFunctors env i w = Some (TcpConnection_dtor cid v)"
    using u(1) by (simp add: doPendingFunctors_def Let_def q run_task_def w1_def [symmetric] v_def [symmetric])
  moreover have "watched cid v = None" using u(3) by (simp add: watched_def v_def)
  ultimately show ?thesis using v(1-4)
    by (intro exI [of _ "TcpConnection_dtor cid v"])
      (simp add: TcpConnection_dtor_def Socket_dtor_def log_call_def watched_def)
qed

text \<open>
  Teardown. For a closed connection of a thread's loop that is in the map, with both
  loops' queues empty, the server's close callback, one round of tasks of the base loop and
  one of the connection's loop never fail; after them the map has no entry for it, the
  kernel does not watch its descriptor, and the object has been destroyed: its descriptor has
  been closed, exactly once and as the last thing, not while a task still needed it.
\<close>

lemma teardown:
  assumes "closing env i cid w"
  shows "\<exists>w1 w2 w3. invoke (onClose (server_env env)) cid w = Some w1 \<and>
    doPendingFunctors env (baseIx w) w1 = Some w2 \<and> alive w2 cid \<and> calls w2 = calls w \<and>
    doPendingFunctors env i w2 = Some w3 \<and> \<not> alive w3 cid \<and> watched cid w3 = None \<and>
    connections w3 = (connections w)(connName (conns w cid) := None) \<and>
    calls w3 = calls w @ [CClose (sockFd (conns w cid))]"
proof -
  have a: "conn_ok env cid w" "connState (conns w cid) = KDisconnected" "loopIx (conns w cid) = i"
    "i \<noteq> baseIx w" "alive w cid"
    "\<forall>j \<in> set (loops (threadPool w)). Some cid \<notin> keeps ` set (pendingFunctors (evl w j))"
    using assms by (auto simp: closing_def)
  define w1 where "w1 = queue_on i (baseIx w) (FRemoveConnectionInLoop cid) w"
  have w1: "invoke (onClose (server_env env)) cid w = Some w1"
    using a(3,4) by (simp add: server_env_def setter_defs invoke_def removeConnection_def w1_def)
  obtain w2 where w2: "doPendingFunctors env (baseIx w) w1 = Some w2" "conns w2 = conns w"
    "pol w2 = pol w" "calls w2 = calls w" "baseIx w2 = baseIx w" "threadPool w2 = threadPool w"
    "alive w2 = alive w" "connections w2 = (connections w)(connName (conns w cid) := None)"
    "pendingFunctors (evl w2 i) = [FConnectDestroyed cid]" "pendingFunctors (evl w2 (baseIx w)) = []"
    "\<forall>j. j \<noteq> i \<longrightarrow> j \<noteq> baseIx w \<longrightarrow> evl w2 j = evl w j"
    using base_round [OF assms] unfolding w1_def by blast
  have ok2: "conn_ok env cid w2"
    using a(1) by (simp add: conn_ok_def Let_def chan_of_def w2(2,3))
  have rest: "\<forall>j \<in> set (baseIx w2 # loops (threadPool w2)). j \<noteq> i \<longrightarrow>
      Some cid \<notin> keeps ` set (pendingFunctors (evl w2 j))"
  proof (intro ballI impI)
    fix j
    assume j: "j \<in> set (baseIx w2 # loops (threadPool w2))" "j \<noteq> i"
    show "Some cid \<notin> keeps ` set (pendingFunctors (evl w2 j))"
    proof (cases "j = baseIx w")
      case True
      then show ?thesis using w2(10) by simp
    next
      case False
      then show ?thesis using j w2(5,6,11) a(6) by auto
    qed
  qed
  obtain w3 where "doPendingFunctors env i w2 = Some w3" "watched cid w3 = None" "\<not> alive w3 cid"
    "calls w3 = calls w2 @ [CClose (sockFd (conns w2 cid))]" "connections w3 = connections w2"
    using io_round [OF ok2 _ _ _ _ w2(9) rest] a(2,3,5) w2(2,7,8) by auto
  then show ?thesis using w1 w2(1,2,4,7,8) a(5) by auto
qed

text \<open>
  Start. The first \<open>start\<close> of a server in its base loop's thread starts the \<open>n > 0\<close>
  threads, makes one \<open>listen\<close> call, and the kernel watches the listening descriptor for
  reads; every further \<open>start\<close> changes nothing but the counter.
\<close>

lemma start_once:
  assumes "srvStarted w = 0" "0 < n" "threadPool w = setThreadNum n (EventLoopThreadPool junk b name)"
    and "epoll_ok (ker env (baseIx w))" "poller_ok (pol w (baseIx w))"
    and "owns_fd ChAcceptor (pol w (baseIx w))"
    and "chan (pol w (baseIx w)) ChAcceptor = Channel (acceptFd w)"
    and "os_listen (os1 env) (calls w) (acceptFd w) 1024 = None"
  shows "\<exists>w'. TcpServer_start env (baseIx w) f w = Some w' \<and> listening w' \<and>
    loops (threadPool w') = map (\<lambda>j. f (int j)) [0..<nat n] \<and>
    calls w' = calls w @ [CListen (acceptFd w) 1024 None] \<and>
    interest (ctlTrace (pol w' (baseIx w))) (acceptFd w) = Some (ReadEvent, ChAcceptor) \<and>
    TcpServer_start env (baseIx w) f w' = Some (w'\<lparr>srvStarted := 2\<rparr>)"
proof -
  define p where "p = pol w (baseIx w)"
  define tp where "tp = fst (pool_start f (hasThreadInit w) (threadPool w))"
  obtain q where q: "set_events (ker env (baseIx w)) ChAcceptor ReadEvent p = Some q"
    "interest (ctlTrace q) = (interest (ctlTrace p))(chFd (chan p ChAcceptor) :=
      (if chIndex (chan p ChAcceptor) = Added \<and> ReadEvent = NoneEvent then None
       else Some (ReadEvent, ChAcceptor)))"
    using set_events_ok [OF assms(4-6), of ReadEvent] unfolding p_def new_interest_def by blast
  have "events (chan p ChAcceptor) OR ReadEvent = ReadEvent"
    using assms(7) by (simp add: p_def Channel_def)
  then have en: "enableReading (ker env (baseIx w)) ChAcceptor p = Some q"
    using q(1) by (simp add: enableReading_def)
  define w' where "w' = log_call (CListen (acceptFd w) 1024 None)
    (w\<lparr>srvStarted := 1, threadPool := tp, listening := True\<rparr>)\<lparr>pol := (pol w)(baseIx w := q)\<rparr>"
  have "TcpServer_start env (baseIx w) f w = Some w'"
    using assms(1,8) en
    by (simp add: TcpServer_start_def Let_def Acceptor_listen_def Socket_listen_def on_acceptor_def
        log_call_def w'_def tp_def p_def)
  moreover have "interest (ctlTrace (pol w' (baseIx w))) (acceptFd w) = Some (ReadEvent, ChAcceptor)"
    using q(2) assms(7) by (simp add: w'_def log_call_def p_def Channel_def index_defs channel_masks)
  moreover have "loops (threadPool w') = map (\<lambda>j. f (int j)) [0..<nat n]"
    using pool_started [OF assms(2), of f "hasThreadInit w" junk b name]
    by (simp add: w'_def log_call_def tp_def assms(3) Let_def)
  moreover have "TcpServer_start env (baseIx w) f w' = Some (w'\<lparr>srvStarted := 2\<rparr>)"
    by (simp add: TcpServer_start_def Let_def w'_def log_call_def)
  ultimately show ?thesis by (intro exI [of _ w']) (simp add: w'_def log_call_def)
qed

lemma start_once_witness:
  "\<exists>w w' :: server. TcpServer_start (quiet_env (Inr []) (Inr 0)) 0 (\<lambda>i. nat i + 1) w = Some w' \<and>
    loops (threadPool w') = [1, 2, 3] \<and> calls w' = [CListen 3 1024 None]"
proof -
  define p :: "chan_id poller" where "p = EPollPoller (\<lambda>_. Channel 3)"
  define w where "w = base_server\<lparr>srvStarted := 0, acceptFd := 3, pol := \<lambda>_. p,
    threadPool := setThreadNum 3 (EventLoopThreadPool 0 0 ''EchoServer'')\<rparr>"
  have p: "poller_ok p" "owns_fd ChAcceptor p" "chan p ChAcceptor = Channel 3"
    unfolding p_def by (rule poller_ok_EPollPoller)
      (simp_all add: Channel_def New_def EPollPoller_def owns_fd_def)
  have w: "srvStarted w = 0" "threadPool w = setThreadNum 3 (EventLoopThreadPool 0 0 ''EchoServer'')"
    "baseIx w = 0" "pol w 0 = p" "acceptFd w = 3" "calls w = []"
    by (simp_all add: w_def)
  have l: "os_listen (os1 (quiet_env (Inr []) (Inr 0))) [] 3 1024 = None" by (simp add: demo_os_def)
  obtain w' where "TcpServer_start (quiet_env (Inr []) (Inr 0)) 0 (\<lambda>i. nat i + 1) w = Some w'"
    "loops (threadPool w') = map (\<lambda>j. nat (int j) + 1) [0..<nat 3]"
    "calls w' = [] @ [CListen 3 1024 None]"
    using start_once [OF w(1) _ w(2), of "quiet_env (Inr []) (Inr 0)" "\<lambda>i. nat i + 1"] p l
    unfolding w(3-6) by auto
  moreover have "map (\<lambda>j. nat (int j) + 1) [0..<nat 3] = [1, 2, 3]" by (simp add: upt_rec)
  ultimately show ?thesis by auto
qed

subsection \<open>A round of a loop that delivers data\<close>

lemma conn_ok_save_revents:
  fixes r :: evmask
  assumes "conn_ok env cid w" "loopIx (conns w cid) = i"
  defines "u \<equiv> w\<lparr>pol := (pol w)(i := set_chan (ChConn cid) (save_revents r) (pol w i))\<rparr>"
  shows "conn_ok env cid u" "chan_of cid u = save_revents r (chan_of cid w)"
    "watched cid u = watched cid w"
proof -
  have "poller_ok (set_chan (ChConn cid) (save_revents r) (pol w i))"
    using assms(1,2) by (simp add: conn_ok_def Let_def poller_ok_def keys_ok_def hasChannel_def
        wanted_def save_revents_def fun_eq_iff split: option.splits)
  then show "conn_ok env cid u"
    using assms(1,2) by (simp add: conn_ok_def Let_def u_def owns_fd_def chan_of_def save_revents_def)
  show "chan_of cid u = save_revents r (chan_of cid w)" "watched cid u = watched cid w"
    using assms(2) by (simp_all add: u_def chan_of_def watched_def)
qed

lemma poller_ok_size [simp]: "poller_ok (p\<lparr>eventListSize := n\<rparr>) = poller_ok p"
proof -
  have "wanted (p\<lparr>eventListSize := n\<rparr>) = wanted p" by (simp add: fun_eq_iff wanted_def split: option.splits)
  then show ?thesis by (simp add: poller_ok_def keys_ok_def hasChannel_def)
qed

lemma conn_event_read:
  assumes "revents (chan_of cid w) = EPOLLIN"
  shows "conn_event env me cid True t w = conn_handleRead env cid t w"
  using assms by (simp add: conn_event_def handleEvent_def handleEventWithGuard_def conn_callbacks_def
      call_def channel_masks)

lemma polled_event:
  assumes "conn_ok env cid w" "loopIx (conns w cid) = i"
  obtains q where "poll (Inr [(rv, ChConn cid)]) [] (pol w i) = ([ChConn cid], q)"
    "conn_ok env cid (w\<lparr>pol := (pol w)(i := q)\<rparr>)"
    "chan_of cid (w\<lparr>pol := (pol w)(i := q)\<rparr>) = save_revents rv (chan_of cid w)"
proof -
  define p where "p = set_chan (ChConn cid) (save_revents rv) (pol w i)"
  define q where "q = snd (poll (Inr [(rv, ChConn cid)]) [] (pol w i))"
  obtain n where q: "q = p\<lparr>eventListSize := n\<rparr>"
  proof -
    have "q = p\<lparr>eventListSize := eventListSize p\<rparr> \<or> q = p\<lparr>eventListSize := 2 * eventListSize p\<rparr>"
      by (auto simp: q_def p_def poll_def Let_def)
    then show ?thesis using that by blast
  qed
  note v = conn_ok_save_revents [OF assms, of rv, folded p_def]
  have "poll (Inr [(rv, ChConn cid)]) [] (pol w i) = ([ChConn cid], q)"
    by (simp add: q_def poll_def Let_def)
  then show ?thesis
    by (rule that) (use v(1,2) assms(2) in \<open>simp_all add: conn_ok_def Let_def q chan_of_def owns_fd_def\<close>)
qed

text \<open>
  A round of the loop echoes. When \<open>epoll_wait\<close> reports the descriptor of an established
  connection of the echo server readable, and no task is pending, one whole turn of its
  loop, from the poll through the dispatch to the task queue, does not fail, and the bytes it
  received have been sent back or are pending behind what was pending, in order; the
  connection is ready for the next turn, and no task has been queued on any loop.
\<close>

lemma round_echoes:
  assumes "conn_ok env cid w" "os_ok (os1 env)" "connected cid w" "loopIx (conns w cid) = i"
    and "alive w cid" "idle (inputBuffer (conns w cid))"
    and "pendingFunctors (evl w i) = []" "onWriteComplete env = None" "onHighWaterMark env = None"
    and "read_result env cid w = Inr bs" "bs \<noteq> []" "length bs < InitialSize"
    and "\<And>tr d. os_write (os1 env) tr (sockFd (conns w cid)) d \<noteq> Inl EPIPE"
    and "\<And>tr d. os_write (os1 env) tr (sockFd (conns w cid)) d \<noteq> Inl ECONNRESET"
  shows "\<exists>w'. loop_once (echo_env env ptr) i peer0 (Inr [(EPOLLIN, ChConn cid)]) t w = Some w' \<and>
    conn_ok env cid w' \<and> connected cid w' \<and> idle (inputBuffer (conns w' cid)) \<and>
    received_on (sockFd (conns w cid)) (calls w') = received_on (sockFd (conns w cid)) (calls w) @ bs \<and>
    sent_on (sockFd (conns w cid)) (calls w') @ readable (outputBuffer (conns w' cid)) =
      sent_on (sockFd (conns w cid)) (calls w) @ readable (outputBuffer (conns w cid)) @ bs \<and>
    (\<forall>j. pendingFunctors (evl w' j) = pendingFunctors (evl w j))"
proof -
  obtain q where q: "poll (Inr [(EPOLLIN, ChConn cid)]) [] (pol w i) = ([ChConn cid], q)"
    "conn_ok env cid (w\<lparr>pol := (pol w)(i := q)\<rparr>)"
    "chan_of cid (w\<lparr>pol := (pol w)(i := q)\<rparr>) = save_revents EPOLLIN (chan_of cid w)"
    using polled_event [OF assms(1,4)] by blast
  define u where "u = w\<lparr>pol := (pol w)(i := q)\<rparr>"
  note u = q(2,3) [folded u_def]
  have eq: "conns u = conns w" "calls u = calls w" "evl u = evl w" "alive u = alive w"
    by (simp_all add: u_def)
  have up: "connected cid u" and id: "idle (inputBuffer (conns u cid))"
    and rd: "read_result env cid u = Inr bs"
    using assms(3,6,10) by (simp_all add: connected_def read_result_def eq)
  have idf: "readable (inputBuffer (conns u cid)) = []"
    "writableBytes (inputBuffer (conns u cid)) = InitialSize"
    using idle_facts [OF id] by simp_all
  define env' where "env' = server_env (echo_env env ptr)"
  have fd: "sockFd (conns u cid) = sockFd (conns w cid)" by (simp add: eq)
  obtain x where x: "conn_handleRead env' cid t u = Some x" "conn_ok env cid x" "connected cid x"
    "inputBuffer (conns x cid) = retrieveAll (inputBuffer (conns (after_read env cid u) cid))"
    "sent_on (sockFd (conns w cid)) (calls x) @ readable (outputBuffer (conns x cid)) =
      sent_on (sockFd (conns w cid)) (calls w) @ readable (outputBuffer (conns w cid)) @ bs"
    "received_on (sockFd (conns w cid)) (calls x) = received_on (sockFd (conns w cid)) (calls w) @ bs"
    "evl x = evl w"
    using echo_read [OF u(1) assms(2) up idf(1) rd assms(11), of env' ptr t, unfolded fd,
        OF assms(13,14)] assms(8,9,12)
    by (auto simp: env'_def eq idf(2) [unfolded eq] delivered_def)
  have "idle (inputBuffer (conns x cid))"
    using idle_after_read [OF id assms(12)] x(4) rd by (simp add: after_read_def)
  moreover have "handle_active (echo_env env ptr) i peer0 t (ChConn cid) u = Some x"
    using conn_event_read [of cid u env' i t] u(2) assms(5) x(1)
    by (simp add: eq env'_def save_revents_def)
  moreover note q(1)
  moreover define y where "y = x\<lparr>evl := (evl x)(i := (evl x i)\<lparr>pendingFunctors := [],
    callingPendingFunctors := False\<rparr>)\<rparr>"
  moreover have "doPendingFunctors (echo_env env ptr) i x = Some y"
    using assms(7) x(7) by (simp add: doPendingFunctors_def Let_def y_def)
  ultimately have "loop_once (echo_env env ptr) i peer0 (Inr [(EPOLLIN, ChConn cid)]) t w = Some y"
    "idle (inputBuffer (conns y cid))"
    by (simp_all add: loop_once_def u_def [symmetric] del: handle_active.simps)
  moreover have "conn_ok env cid y" "connected cid y"
    using x(2,3) by (simp_all add: conn_ok_def Let_def y_def chan_of_def connected_def)
  ultimately show ?thesis using x(5-7) assms(7) by (intro exI [of _ y]) (simp add: y_def)
qed

text \<open>
  A send from another thread queues the pointer and the length, not the bytes: if the string
  is gone when the loop runs the task, the process reads freed memory; if it has changed,
  what is sent is what is there by then. The task binds the plain \<open>this\<close>, which does not keep
  the connection alive: when it has been destroyed by then, the call is one on freed memory.
\<close>

lemma cross_thread_send:
  assumes "connected cid w" "me \<noteq> loopIx (conns w cid)"
  shows "send env me cid ptr data w =
      Some (queue_on me (loopIx (conns w cid)) (FSendInLoop cid ptr (length data)) w)"
    and "deref env (calls u) ptr n = None \<Longrightarrow> run_task env i (FSendInLoop cid ptr n) u = None"
    and "deref env (calls u) ptr n = Some now_there \<Longrightarrow> alive u cid \<Longrightarrow>
      run_task env i (FSendInLoop cid ptr n) u = sendInLoop env i cid now_there u"
    and "\<not> alive u cid \<Longrightarrow> run_task env i (FSendInLoop cid ptr n) u = None"
    and "keeps (FSendInLoop cid ptr n) = None"
  using assms by (simp_all add: send_def connected_def run_task_def task_live_def)

end
