(* ===== verification/ConnSteps.thy ===== *)
theory ConnSteps
  imports Servers
begin

text \<open>
  What a handler of a connection may change: the frame the server's invariant needs.

  \<open>conn_change\<close> says that everything but the connection, its channel and the trace of calls is
  as before, and that the calls made neither open nor close a descriptor and transfer data on its own only. \<open>handler_ok\<close> adds
  what the connection keeps: it stays well formed and registered, and it stays in its state
  with the read events enabled unless it is closed.
\<close>

fun inner_call :: "sys_call \<Rightarrow> bool" where
  "inner_call (CAccept d r) = False"
| "inner_call (CClose d) = False"
| "inner_call x = True"

text \<open>The calls a handler of the connection with descriptor \<open>d\<close> makes.\<close>

fun own_call :: "fd \<Rightarrow> sys_call \<Rightarrow> bool" where
  "own_call d (CRead d' r) \<longleftrightarrow> d' = d"
| "own_call d (CWrite d' bs r) \<longleftrightarrow> d' = d"
| "own_call d x \<longleftrightarrow> inner_call x"

lemma own_inner: "own_call d x \<Longrightarrow> inner_call x"
  by (cases x) auto

lemma own_inner_all: "list_all (own_call d) cs \<Longrightarrow> list_all inner_call cs"
  using own_inner by (auto simp: list_all_iff)

definition conn_change :: "nat \<Rightarrow> 'a world_scheme \<Rightarrow> 'a world_scheme \<Rightarrow> bool" where
  "conn_change cid w w' \<longleftrightarrow>
     (\<forall>d. d \<noteq> cid \<longrightarrow> conns w' d = conns w d) \<and>
     loopIx (conns w' cid) = loopIx (conns w cid) \<and> connName (conns w' cid) = connName (conns w cid) \<and>
     sockFd (conns w' cid) = sockFd (conns w cid) \<and>
     (\<forall>j. j \<noteq> loopIx (conns w cid) \<longrightarrow> pol w' j = pol w j) \<and>
     (\<forall>x. x \<noteq> ChConn cid \<longrightarrow>
        chan (pol w' (loopIx (conns w cid))) x = chan (pol w (loopIx (conns w cid))) x) \<and>
     (\<forall>d. d \<noteq> sockFd (conns w cid) \<longrightarrow>
        channels (pol w' (loopIx (conns w cid))) d = channels (pol w (loopIx (conns w cid))) d) \<and>
     evl w' = evl w \<and> world.more w' = world.more w \<and>
     (\<exists>cs. calls w' = calls w @ cs \<and> list_all (own_call (sockFd (conns w cid))) cs)"

definition enlisted :: "nat \<Rightarrow> 'a world_scheme \<Rightarrow> bool" where
  "enlisted cid w \<longleftrightarrow> chIndex (chan_of cid w) \<noteq> New"

definition attentive :: "nat \<Rightarrow> 'a world_scheme \<Rightarrow> bool" where
  "attentive cid w \<longleftrightarrow> chIndex (chan_of cid w) = Added \<and> events (chan_of cid w) AND ReadEvent \<noteq> 0"

definition handler_ok :: "'w env \<Rightarrow> nat \<Rightarrow> 'a world_scheme \<Rightarrow> 'a world_scheme \<Rightarrow> bool" where
  "handler_ok env cid w w' \<longleftrightarrow> conn_ok env cid w' \<and> conn_change cid w w' \<and>
     (enlisted cid w \<longrightarrow> enlisted cid w') \<and>
     connState (conns w' cid) = connState (conns w cid) \<and> (attentive cid w \<longrightarrow> attentive cid w')"

lemma conn_change_refl [simp]: "conn_change cid w w"
  by (auto simp: conn_change_def)

lemma conn_change_trans [trans]:
  assumes "conn_change cid u v" "conn_change cid v w"
  shows "conn_change cid u w"
proof -
  obtain cs ds where "calls v = calls u @ cs" "list_all (own_call (sockFd (conns u cid))) cs"
    "calls w = calls v @ ds" "list_all (own_call (sockFd (conns u cid))) ds"
    using assms by (auto simp: conn_change_def)
  then have "\<exists>es. calls w = calls u @ es \<and> list_all (own_call (sockFd (conns u cid))) es"
    by (intro exI [of _ "cs @ ds"]) simp
  then show ?thesis using assms by (auto simp: conn_change_def)
qed

lemma handler_ok_refl: "conn_ok env cid w \<Longrightarrow> handler_ok env cid w w"
  by (simp add: handler_ok_def)

lemma handler_ok_trans [trans]:
  assumes "handler_ok env cid u v" "handler_ok env cid v w"
  shows "handler_ok env cid u w"
proof -
  have "conn_change cid u w"
    using assms by (auto simp: handler_ok_def intro: conn_change_trans)
  moreover have "enlisted cid u \<longrightarrow> enlisted cid w" using assms by (auto simp: handler_ok_def)
  moreover have "connState (conns w cid) = connState (conns u cid) \<and>
      (attentive cid u \<longrightarrow> attentive cid w)"
    using assms by (auto simp: handler_ok_def)
  ultimately show ?thesis using assms(2) by (simp add: handler_ok_def)
qed

lemma handler_okD: "handler_ok env cid u v \<Longrightarrow> conn_ok env cid v"
  by (simp add: handler_ok_def)

subsection \<open>The steps a handler is made of\<close>

lemma handler_ok_log [intro]:
  "conn_ok env cid w \<Longrightarrow> own_call (sockFd (conns w cid)) x \<Longrightarrow> handler_ok env cid w (log_call x w)"
  by (auto simp: handler_ok_def conn_change_def enlisted_def attentive_def)

lemma handler_ok_buffers:
  assumes "conn_ok env cid w" "buf_ok b" "buf_ok b'"
  shows "handler_ok env cid w (set_conn cid (\<lambda>c. c\<lparr>inputBuffer := b, outputBuffer := b'\<rparr>) w)"
proof -
  have "conn_ok env cid (set_conn cid (\<lambda>c. c\<lparr>inputBuffer := b, outputBuffer := b'\<rparr>) w)"
    by (rule conn_ok_set_conn) (use assms in simp_all)
  then show ?thesis by (auto simp: handler_ok_def conn_change_def enlisted_def attentive_def)
qed

lemma on_events_change:
  assumes "conn_ok env cid w"
  shows "\<exists>w'. on_events env cid ev w = Some w' \<and> conn_ok env cid w' \<and> conn_change cid w w' \<and>
    conns w' = conns w \<and> enlisted cid w' \<and>
    (ev AND ReadEvent \<noteq> 0 \<longrightarrow> attentive cid w')"
proof -
  define i where "i = loopIx (conns w cid)"
  have a: "epoll_ok (ker env i)" "poller_ok (pol w i)" "owns_fd (ChConn cid) (pol w i)"
    and fd: "chFd (chan (pol w i) (ChConn cid)) = sockFd (conns w cid)"
    using assms by (auto simp: conn_ok_def i_def Let_def chan_of_def)
  obtain q where q: "set_events (ker env i) (ChConn cid) ev (pol w i) = Some q"
    "channels q = (channels (pol w i))(sockFd (conns w cid) \<mapsto> ChConn cid)"
    "chan q = (chan (pol w i))(ChConn cid := (chan (pol w i) (ChConn cid))\<lparr>events := ev,
       chIndex := new_index (ChConn cid) ev (pol w i)\<rparr>)"
    using set_events_ok [OF a, of ev] unfolding fd by blast
  obtain w' where w': "on_events env cid ev w = Some w'" "conn_ok env cid w'" "same_but_chan cid w w'"
    using on_events_ok [OF assms, of ev] by blast
  have p: "w' = w\<lparr>pol := (pol w)(i := q)\<rparr>"
    using w'(1) q(1) by (simp add: on_events_def on_chan_def i_def [symmetric])
  have ch: "chan_of cid w' = (chan_of cid w)\<lparr>events := ev,
      chIndex := new_index (ChConn cid) ev (pol w i)\<rparr>"
    by (simp add: p chan_of_def q(3) i_def)
  have "conn_change cid w w'"
    by (simp add: conn_change_def p q(2,3) i_def [symmetric])
  moreover have "enlisted cid w'" by (simp add: enlisted_def ch new_index_def index_defs)
  moreover have "attentive cid w'" if "ev AND ReadEvent \<noteq> 0"
    using that by (auto simp: attentive_def ch new_index_def NoneEvent_def)
  ultimately show ?thesis using w'(1,2) by (intro exI [of _ w']) (simp add: p)
qed

lemma on_events_handler:
  assumes "conn_ok env cid w"
    and "attentive cid w \<Longrightarrow> ev AND ReadEvent \<noteq> 0"
  shows "\<exists>w'. on_events env cid ev w = Some w' \<and> handler_ok env cid w w' \<and> conns w' = conns w \<and>
    enlisted cid w'"
  using on_events_change [OF assms(1), of ev] assms(2) by (fastforce simp: handler_ok_def)

lemma read_or_write:
  "e AND ReadEvent \<noteq> 0 \<Longrightarrow> (e OR WriteEvent) AND ReadEvent \<noteq> 0"
  "e AND ReadEvent \<noteq> 0 \<Longrightarrow> (e AND NOT WriteEvent) AND ReadEvent \<noteq> 0"
proof -
  have n: "NOT WriteEvent AND ReadEvent = ReadEvent" by (simp add: channel_masks)
  assume e: "e AND ReadEvent \<noteq> 0"
  then show "(e AND NOT WriteEvent) AND ReadEvent \<noteq> 0" by (simp add: and.assoc n)
  show "(e OR WriteEvent) AND ReadEvent \<noteq> 0"
    using e by (simp add: bit.conj_disj_distrib2 channel_masks)
qed


subsection \<open>Sending without the optional callbacks\<close>

definition no_tasks :: "'w env \<Rightarrow> bool" where
  "no_tasks env \<longleftrightarrow> onWriteComplete env = None \<and> onHighWaterMark env = None"

lemma attentiveD: "attentive cid w \<Longrightarrow> events (chan_of cid w) AND ReadEvent \<noteq> 0"
  by (simp add: attentive_def)

lemma handler_ok_output:
  assumes "conn_ok env cid w" "buf_ok b"
  shows "handler_ok env cid w (set_conn cid (\<lambda>c. c\<lparr>outputBuffer := b\<rparr>) w)"
  using handler_ok_buffers [OF assms(1) conn_okD(1) [OF assms(1)] assms(2)]
  by (simp add: set_conn_def)

lemma handler_ok_input:
  assumes "conn_ok env cid w" "buf_ok b"
  shows "handler_ok env cid w (set_conn cid (\<lambda>c. c\<lparr>inputBuffer := b\<rparr>) w)"
  using handler_ok_buffers [OF assms(1) assms(2) conn_okD(2) [OF assms(1)]]
  by (simp add: set_conn_def)

lemma send_rest_handler:
  assumes ok: "conn_ok env cid w" and q: "no_tasks env"
  shows "\<exists>w'. send_rest env me cid data nwrote remaining w = Some w' \<and> handler_ok env cid w w'"
proof -
  define v where "v = set_conn cid (\<lambda>c. c\<lparr>outputBuffer :=
      append (take remaining (drop nwrote data)) (outputBuffer c)\<rparr>) w"
  have "v = set_conn cid (\<lambda>c. c\<lparr>outputBuffer :=
      append (take remaining (drop nwrote data)) (outputBuffer (conns w cid))\<rparr>) w"
    by (simp add: v_def set_conn_def)
  then have hv: "handler_ok env cid w v"
    using handler_ok_output [OF ok] conn_okD(2) [OF ok] by simp
  have eq: "send_rest env me cid data nwrote remaining w =
      (if \<not> isWriting (chan_of cid v) then on_chan env cid enableWriting v else Some v)"
    using q by (simp add: send_rest_def Let_def v_def no_tasks_def)
  show ?thesis
  proof (cases "isWriting (chan_of cid v)")
    case True
    then show ?thesis using eq hv by (auto simp: isWriting_def)
  next
    case False
    obtain w' where "on_events env cid (events (chan_of cid v) OR WriteEvent) v = Some w'"
      "handler_ok env cid v w'"
      using on_events_handler [OF handler_okD [OF hv], of "events (chan_of cid v) OR WriteEvent"]
        read_or_write(1) [OF attentiveD, of cid v] by blast
    then show ?thesis
      using eq False handler_ok_trans [OF hv] by (auto simp: on_chan_events isWriting_def)
  qed
qed

text \<open>
  A handler that writes ends the process when SIGPIPE is raised: it yields a good state, and
  it does yield one when no write meets a closed connection.
\<close>

lemma sock_write_handler:
  assumes "conn_ok env cid w" "\<And>r u. handler_ok env cid w u \<Longrightarrow>
      u = log_call (CWrite (sockFd (conns w cid)) bs r) w \<Longrightarrow> yields (no_sigpipe (os1 env)) (f (r, u)) P"
  shows "yields (no_sigpipe (os1 env)) (sock_write (os1 env) (sockFd (conns w cid)) bs w \<bind> f) P"
  by (rule yields_bind [where P = "\<lambda>(r, u). u = log_call (CWrite (sockFd (conns w cid)) bs r) w"])
    (use assms handler_ok_log [OF assms(1)] in
      \<open>auto simp: yields_def sock_write_Some sock_write_total split: prod.splits\<close>)

lemma send_rest_yields:
  assumes "handler_ok env cid w u" "no_tasks env"
  shows "yields must (send_rest env me cid data nwrote remaining u) (handler_ok env cid w)"
  using send_rest_handler [OF handler_okD [OF assms(1)] assms(2)] handler_ok_trans [OF assms(1)]
  by (blast intro: yieldsI)

lemma sendInLoop_handler:
  assumes ok: "conn_ok env cid w" and q: "no_tasks env"
  shows "yields (no_sigpipe (os1 env)) (sendInLoop env me cid data w) (handler_ok env cid w)"
proof -
  have "yields (no_sigpipe (os1 env)) (send_direct env me cid data w)
      (\<lambda>(nwrote, remaining, fault, u). handler_ok env cid w u)"
    unfolding send_direct_def Let_def using q
    by (auto intro!: sock_write_handler [OF ok] simp: handler_ok_refl [OF ok] no_tasks_def
        split: sum.splits)
  then show ?thesis unfolding sendInLoop_def
    by (rule yields_bind) (auto simp: send_rest_yields [OF _ q] split: prod.splits)
qed

lemma send_handler:
  assumes "conn_ok env cid w" "no_tasks env" "me = loopIx (conns w cid)"
  shows "yields (no_sigpipe (os1 env)) (send env me cid ptr data w) (handler_ok env cid w)"
  using sendInLoop_handler [OF assms(1,2), of me data] handler_ok_refl [OF assms(1)] assms(3)
  by (auto simp: send_def)

lemma shutdownInLoop_handler:
  "conn_ok env cid w \<Longrightarrow> handler_ok env cid w (shutdownInLoop env cid w)"
  by (auto simp: shutdownInLoop_def shutdownWrite_def handler_ok_refl)

lemma write_drained_handler:
  assumes ok: "conn_ok env cid v" and q: "no_tasks env"
  shows "\<exists>w'. write_drained env me cid v = Some w' \<and> handler_ok env cid v w'"
proof -
  obtain w3 where w3: "on_events env cid (events (chan_of cid v) AND NOT WriteEvent) v = Some w3"
    "handler_ok env cid v w3"
    using on_events_handler [OF ok, of "events (chan_of cid v) AND NOT WriteEvent"]
      read_or_write(2) [OF attentiveD, of cid v] by blast
  then show ?thesis
    using q handler_ok_trans [OF w3(2) shutdownInLoop_handler [OF handler_okD [OF w3(2)]]]
    by (auto simp: write_drained_def on_chan_events no_tasks_def)
qed

lemma handleWrite_handler:
  assumes ok: "conn_ok env cid w" and q: "no_tasks env"
  shows "yields (no_sigpipe (os1 env)) (handleWrite env me cid w) (handler_ok env cid w)"
proof (cases "isWriting (chan_of cid w)")
  case False
  then show ?thesis using handler_ok_refl [OF ok] by (simp add: handleWrite_def isWriting_def)
next
  case True
  define bs where "bs = writeFd_bytes (outputBuffer (conns w cid))"
  show ?thesis unfolding handleWrite_def Let_def if_P [OF True] bs_def [symmetric]
  proof (rule sock_write_handler [OF ok])
    fix r u
    assume hu: "handler_ok env cid w u" and u: "u = log_call (CWrite (sockFd (conns w cid)) bs r) w"
    define n where "n = int32 (fst (writeFd r (outputBuffer (conns w cid))))"
    define v where "v = set_conn cid (\<lambda>c. c\<lparr>outputBuffer := retrieve (nat n) (outputBuffer c)\<rparr>) u"
    have "v = set_conn cid (\<lambda>c. c\<lparr>outputBuffer := retrieve (nat n) (outputBuffer (conns u cid))\<rparr>) u"
      by (simp add: v_def set_conn_def)
    then have hv: "handler_ok env cid w v"
      using handler_ok_trans [OF hu handler_ok_output [OF handler_okD [OF hu]]]
        conn_okD(2) [OF handler_okD [OF hu]] by simp
    then show "yields (no_sigpipe (os1 env)) (case (r, u) of (r, w1) \<Rightarrow>
        if 0 < int32 (fst (writeFd r (outputBuffer (conns w cid))))
        then if readableBytes (outputBuffer (conns (set_conn cid (\<lambda>c. c\<lparr>outputBuffer :=
               retrieve (nat (int32 (fst (writeFd r (outputBuffer (conns w cid)))))) (outputBuffer c)\<rparr>) w1) cid)) = 0
          then write_drained env me cid (set_conn cid (\<lambda>c. c\<lparr>outputBuffer :=
               retrieve (nat (int32 (fst (writeFd r (outputBuffer (conns w cid)))))) (outputBuffer c)\<rparr>) w1)
          else Some (set_conn cid (\<lambda>c. c\<lparr>outputBuffer :=
               retrieve (nat (int32 (fst (writeFd r (outputBuffer (conns w cid)))))) (outputBuffer c)\<rparr>) w1)
        else Some w1) (handler_ok env cid w)"
      unfolding prod.case n_def [symmetric] v_def [symmetric]
      using write_drained_handler [OF handler_okD [OF hv] q, of me] hu
      by (auto intro!: yieldsI intro: handler_ok_trans)
  qed
qed

subsection \<open>Closing and reading\<close>

text \<open>The state in which a connection calls its close callback.\<close>

definition shut_ok :: "'w env \<Rightarrow> nat \<Rightarrow> 'a world_scheme \<Rightarrow> 'a world_scheme \<Rightarrow> bool" where
  "shut_ok env cid w w' \<longleftrightarrow> conn_ok env cid w' \<and> conn_change cid w w' \<and> enlisted cid w' \<and>
     connState (conns w' cid) = KDisconnected"

lemma close_handler:
  assumes "conn_ok env cid w"
  shows "\<exists>w'. on_chan env cid disableAll (setState cid KDisconnected w) = Some w' \<and>
    shut_ok env cid w w'"
proof -
  define u where "u = setState cid KDisconnected w"
  have u: "conn_change cid w u" "connState (conns u cid) = KDisconnected" "conn_ok env cid u"
    using assms by (auto simp: u_def conn_change_def)
  obtain w' where w': "on_events env cid 0 u = Some w'" "conn_ok env cid w'" "conn_change cid u w'"
    "conns w' = conns u" "enlisted cid w'"
    using on_events_change [OF u(3), of 0] by blast
  have "shut_ok env cid w w'"
    using w'(2,4,5) u(2) conn_change_trans [OF u(1) w'(3)] by (simp add: shut_ok_def)
  then show ?thesis using w'(1) by (simp add: on_chan_events u_def)
qed

lemma shut_ok_trans:
  "handler_ok env cid u v \<Longrightarrow> shut_ok env cid v w \<Longrightarrow> shut_ok env cid u w"
  by (auto simp: handler_ok_def shut_ok_def intro: conn_change_trans)

lemma shut_ok_then:
  "shut_ok env cid u v \<Longrightarrow> handler_ok env cid v w \<Longrightarrow> shut_ok env cid u w"
  by (auto simp: handler_ok_def shut_ok_def intro: conn_change_trans)

lemma after_read_handler:
  assumes "conn_ok env cid w" "os_ok (os1 env)"
  shows "handler_ok env cid w (after_read env cid w)"
proof -
  define x where "x = CRead (sockFd (conns w cid)) (read_result env cid w)"
  define b where "b = snd (snd (readFd (read_result env cid w) (inputBuffer (conns w cid))))"
  have h: "handler_ok env cid w (log_call x w)" using assms(1) by (auto simp: x_def)
  have eq: "after_read env cid w = set_conn cid (\<lambda>c. c\<lparr>inputBuffer := b\<rparr>) (log_call x w)"
    by (simp add: after_read_def x_def b_def)
  have "inputBuffer (conns (after_read env cid w) cid) = b" by (simp add: eq)
  then have "buf_ok b" using after_read_ok [OF assms] conn_okD(1) by metis
  then show ?thesis
    using handler_ok_trans [OF h handler_ok_input [OF handler_okD [OF h]]] by (simp add: eq)
qed

end
