(* ===== verification/ServerSystem.thy ===== *)
theory ServerSystem
  imports ConnSteps
begin

text \<open>
  The whole running server: the base loop and the loops of the pool, each at its own point of
  \<open>EventLoop::loop\<close>, interleaved at the granularity of one handler or one task.

  \<open>sys\<close> adds to \<open>server\<close> the local state of every loop's thread: whether it waits in
  \<open>epoll_wait\<close>, goes through \<open>activeChannels_\<close> (\<open>active\<close>: those left) or runs its tasks
  (\<open>batch\<close>: the functors left, \<open>finished\<close>: those already called, which still hold their shared
  pointers until the vector is destroyed). \<open>serving\<close> is the invariant of the server;
  \<open>connection_app\<close> is what it relies on from the application's callbacks.
\<close>

subsection \<open>Descriptors\<close>

text \<open>The descriptors accepted and not closed since, and that only such are closed.\<close>

fun accept_step :: "sys_call \<Rightarrow> fd set \<Rightarrow> fd set" where
  "accept_step (CAccept d (Inr (c, a))) S = insert c S"
| "accept_step (CClose d) S = S - {d}"
| "accept_step x S = S"

definition accepted :: "sys_call list \<Rightarrow> fd set" where
  "accepted tr = fold accept_step tr {}"

fun closes_open :: "fd set \<Rightarrow> sys_call list \<Rightarrow> bool" where
  "closes_open S [] \<longleftrightarrow> True"
| "closes_open S (x # xs) \<longleftrightarrow> (\<forall>d. x = CClose d \<longrightarrow> d \<in> S) \<and> closes_open (accept_step x S) xs"

lemma accepted_Nil [simp]: "accepted [] = {}"
  by (simp add: accepted_def)

lemma accepted_snoc [simp]: "accepted (tr @ [x]) = accept_step x (accepted tr)"
  by (simp add: accepted_def)

lemma closes_open_append:
  "closes_open S (xs @ ys) \<longleftrightarrow> closes_open S xs \<and> closes_open (fold accept_step xs S) ys"
  by (induction xs arbitrary: S) auto

lemma closes_open_snoc [simp]:
  "closes_open {} (tr @ [x]) \<longleftrightarrow> closes_open {} tr \<and> (\<forall>d. x = CClose d \<longrightarrow> d \<in> accepted tr)"
  by (simp add: closes_open_append accepted_def)

lemma inner_accept_step: "inner_call x \<Longrightarrow> accept_step x S = S"
  by (cases x) auto

lemma inner_calls_accepted:
  "list_all inner_call cs \<Longrightarrow> accepted (tr @ cs) = accepted tr \<and>
     closes_open {} (tr @ cs) = closes_open {} tr"
proof (induction cs rule: rev_induct)
  case (snoc x cs)
  then have x: "inner_call x" and IH: "accepted (tr @ cs) = accepted tr"
    "closes_open {} (tr @ cs) = closes_open {} tr" by simp_all
  have "\<forall>d. x \<noteq> CClose d" using x by auto
  then show ?case
    using IH inner_accept_step [OF x] closes_open_snoc [of "tr @ cs" x] accepted_snoc [of "tr @ cs" x]
    by simp
qed simp

text \<open>
  The machine: the kernel keeps the promises of the manual, and \<open>accept\<close> returns no descriptor
  that is open. \<open>R\<close> are the descriptors the process has open besides the accepted ones: the
  listening socket, the eventfds, the epoll descriptors.
\<close>

definition machine_ok :: "senv \<Rightarrow> fd set \<Rightarrow> bool" where
  "machine_ok env R \<longleftrightarrow> (\<forall>i. epoll_ok (ker env i)) \<and> os_ok (os1 env) \<and>
     (\<forall>tr l d a. os_accept (os1 env) tr l = Inr (d, a) \<longrightarrow> d \<notin> R \<and> d \<notin> accepted tr)"

subsection \<open>All loops at once\<close>

datatype phase = Waiting | Handling | Running

record sys =
  srv :: server
  phase :: "nat \<Rightarrow> phase"
  active :: "nat \<Rightarrow> chan_id list"
  batch :: "nat \<Rightarrow> task list"
  finished :: "nat \<Rightarrow> task list"

definition all_loops :: "server \<Rightarrow> nat set" where
  "all_loops w = insert (baseIx w) (set (loops (threadPool w)))"

text \<open>What \<open>epoll_wait\<close> may return: registered pointers, each at most once.\<close>

definition events_ok :: "errno + (evmask \<times> chan_id) list \<Rightarrow> chan_id poller \<Rightarrow> bool" where
  "events_ok r p \<longleftrightarrow> (\<forall>evs. r = Inr evs \<longrightarrow> distinct (map snd evs) \<and>
     (\<forall>x \<in> snd ` set evs. \<exists>d m. interest (ctlTrace p) d = Some (m, x)))"

definition begin_functors :: "nat \<Rightarrow> server \<Rightarrow> server" where
  "begin_functors i w =
     w\<lparr>evl := (evl w)(i := (evl w i)\<lparr>callingPendingFunctors := True, pendingFunctors := []\<rparr>)\<rparr>"

definition end_functors :: "nat \<Rightarrow> server \<Rightarrow> server" where
  "end_functors i w = w\<lparr>evl := (evl w)(i := (evl w i)\<lparr>callingPendingFunctors := False\<rparr>)\<rparr>"

text \<open>The shared pointers to a connection, those of the running batches included.\<close>

definition held :: "nat \<Rightarrow> sys \<Rightarrow> bool" where
  "held cid s \<longleftrightarrow> referenced cid (srv s) \<or>
     (\<exists>j \<in> all_loops (srv s). Some cid \<in> keeps ` set (batch s j @ finished s j))"

definition drop_ref :: "task \<Rightarrow> sys \<Rightarrow> sys" where
  "drop_ref f s =
     (case keeps f of
        None \<Rightarrow> s
      | Some cid \<Rightarrow> if alive (srv s) cid \<and> \<not> held cid s then s\<lparr>srv := TcpConnection_dtor cid (srv s)\<rparr> else s)"

text \<open>
  One step of one loop's thread. The connection counter is an \<open>int\<close>; the model stops
  where its increment would overflow.
\<close>

inductive srv_step :: "senv \<Rightarrow> sockaddr_in \<Rightarrow> sys \<Rightarrow> sys \<Rightarrow> bool" for env peer0 where
  s_poll: "i \<in> all_loops (srv s) \<Longrightarrow> phase s i = Waiting \<Longrightarrow> events_ok r (pol (srv s) i) \<Longrightarrow>
    poll r [] (pol (srv s) i) = (cs, p) \<Longrightarrow>
    srv_step env peer0 s (s\<lparr>srv := (srv s)\<lparr>pol := (pol (srv s))(i := p)\<rparr>,
      phase := (phase s)(i := Handling), active := (active s)(i := cs)\<rparr>)"
| s_handle: "i \<in> all_loops (srv s) \<Longrightarrow> phase s i = Handling \<Longrightarrow> active s i = c # cs \<Longrightarrow>
    nextConnId (srv s) < 2 ^ 31 - 1 \<Longrightarrow> handle_active env i peer0 t c (srv s) = Some w \<Longrightarrow>
    srv_step env peer0 s (s\<lparr>srv := w, active := (active s)(i := cs)\<rparr>)"
| s_swap: "i \<in> all_loops (srv s) \<Longrightarrow> phase s i = Handling \<Longrightarrow> active s i = [] \<Longrightarrow>
    srv_step env peer0 s (s\<lparr>srv := begin_functors i (srv s), phase := (phase s)(i := Running),
      batch := (batch s)(i := pendingFunctors (evl (srv s) i)), finished := (finished s)(i := [])\<rparr>)"
| s_run: "i \<in> all_loops (srv s) \<Longrightarrow> phase s i = Running \<Longrightarrow> batch s i = f # fs \<Longrightarrow>
    run_task env i f (srv s) = Some w \<Longrightarrow>
    srv_step env peer0 s (s\<lparr>srv := w, batch := (batch s)(i := fs), finished := (finished s)(i := finished s i @ [f])\<rparr>)"
| s_finish: "i \<in> all_loops (srv s) \<Longrightarrow> phase s i = Running \<Longrightarrow> batch s i = [] \<Longrightarrow>
    srv_step env peer0 s (fold drop_ref (finished s i)
      (s\<lparr>srv := end_functors i (srv s), phase := (phase s)(i := Waiting), finished := (finished s)(i := [])\<rparr>))"

subsection \<open>The invariant\<close>

definition due :: "(nat \<Rightarrow> task list) \<Rightarrow> nat \<Rightarrow> server \<Rightarrow> task list" where
  "due b i w = b i @ pendingFunctors (evl w i)"

definition mapped :: "nat \<Rightarrow> server \<Rightarrow> bool" where
  "mapped cid w \<longleftrightarrow> connections w (connName (conns w cid)) = Some cid"

definition closing_due :: "(nat \<Rightarrow> task list) \<Rightarrow> nat \<Rightarrow> server \<Rightarrow> bool" where
  "closing_due b cid w \<longleftrightarrow> FRemoveConnectionInLoop cid \<in> set (due b (baseIx w) w) \<or>
     FConnectDestroyed cid \<in> set (due b (loopIx (conns w cid)) w)"

text \<open>A task in the queue of loop \<open>i\<close> belongs there, and its connection is in the right state.\<close>

definition task_fine :: "nat \<Rightarrow> task \<Rightarrow> server \<Rightarrow> bool" where
  "task_fine i f w \<longleftrightarrow>
     (case f of
        FConnectEstablished cid \<Rightarrow> alive w cid \<and> loopIx (conns w cid) = i \<and>
          connState (conns w cid) = KConnecting
      | FConnectDestroyed cid \<Rightarrow> alive w cid \<and> loopIx (conns w cid) = i \<and>
          connState (conns w cid) = KDisconnected \<and> \<not> mapped cid w
      | FRemoveConnectionInLoop cid \<Rightarrow> alive w cid \<and> i = baseIx w \<and>
          connState (conns w cid) = KDisconnected
      | _ \<Rightarrow> False)"

fun is_est :: "task \<Rightarrow> bool" where
  "is_est (FConnectEstablished cid) = True"
| "is_est _ = False"

text \<open>
  The phases of a connection's life. \<open>H\<close> are the connections that tasks already called still
  hold; a closed connection on its way out is in nobody else's hands.
\<close>

definition stage_ok :: "nat set \<Rightarrow> (nat \<Rightarrow> task list) \<Rightarrow> nat \<Rightarrow> server \<Rightarrow> bool" where
  "stage_ok H b cid w \<longleftrightarrow>
     (case connState (conns w cid) of
        KConnecting \<Rightarrow> mapped cid w \<and> \<not> enlisted cid w \<and>
          FConnectEstablished cid \<in> set (due b (loopIx (conns w cid)) w)
      | KConnected \<Rightarrow> mapped cid w \<and> attentive cid w
      | KDisconnecting \<Rightarrow> False
      | KDisconnected \<Rightarrow> closing_due b cid w \<or> cid \<in> H \<and> \<not> mapped cid w \<and> \<not> enlisted cid w)"

definition member_ok :: "fd set \<Rightarrow> nat set \<Rightarrow> (nat \<Rightarrow> task list) \<Rightarrow> nat \<Rightarrow> server \<Rightarrow> bool" where
  "member_ok R H b cid w \<longleftrightarrow> cid < nextObj w \<and> loopIx (conns w cid) \<in> set (loops (threadPool w)) \<and>
     chFd (chan_of cid w) = sockFd (conns w cid) \<and> sockFd (conns w cid) \<notin> R \<and>
     buf_ok (inputBuffer (conns w cid)) \<and> buf_ok (outputBuffer (conns w cid)) \<and> stage_ok H b cid w"

fun home_ok :: "fd set \<Rightarrow> nat \<Rightarrow> server \<Rightarrow> fd \<Rightarrow> chan_id \<Rightarrow> bool" where
  "home_ok R i w d (ChConn cid) \<longleftrightarrow> alive w cid \<and> loopIx (conns w cid) = i"
| "home_ok R i w d (ChWakeup j) \<longleftrightarrow> d \<in> R \<and> j = i"
| "home_ok R i w d x \<longleftrightarrow> d \<in> R"

definition channel_home :: "fd set \<Rightarrow> nat \<Rightarrow> server \<Rightarrow> bool" where
  "channel_home R i w \<longleftrightarrow> (\<forall>d x. channels (pol w i) d = Some x \<longrightarrow> home_ok R i w d x)"

text \<open>\<open>a\<close> is the address the server listens on with the set of its loops, which never change.\<close>

definition naming :: "sockaddr_in \<times> nat set \<Rightarrow> server \<Rightarrow> bool" where
  "naming a w \<longleftrightarrow> ipv4_ok (sin_addr (fst a)) \<and> ipPort w = toIpPort (fst a) \<and> all_loops w = snd a \<and>
     nextConnId w = int (nextObj w) + 1 \<and> nextConnId w < 2 ^ 31 \<and>
     (\<forall>c < nextObj w. connName (conns w c) = conn_name (serverName w) (ipPort w) (int c + 1)) \<and>
     (\<forall>n c. connections w n = Some c \<longrightarrow> alive w c \<and> connName (conns w c) = n)"

definition descriptors_ok :: "server \<Rightarrow> bool" where
  "descriptors_ok w \<longleftrightarrow> inj_on (\<lambda>c. sockFd (conns w c)) {c. alive w c} \<and>
     accepted (calls w) = (\<lambda>c. sockFd (conns w c)) ` {c. alive w c} \<and> closes_open {} (calls w)"

definition pool_fine :: "server \<Rightarrow> bool" where
  "pool_fine w \<longleftrightarrow> loops (threadPool w) \<noteq> [] \<and> pool_ok (threadPool w) \<and>
     baseIx w \<notin> set (loops (threadPool w))"

definition tasks_fine :: "(nat \<Rightarrow> task list) \<Rightarrow> nat \<Rightarrow> server \<Rightarrow> bool" where
  "tasks_fine b i w \<longleftrightarrow> (\<forall>f \<in> set (due b i w). task_fine i f w) \<and> distinct (filter is_est (due b i w))"

text \<open>
  Loop \<open>i\<close> watches its eventfd; when it is in \<open>K\<close>, the loops that do not go through their active
  channels, a task in its queue has left the eventfd readable.
\<close>

definition heard :: "nat set \<Rightarrow> nat \<Rightarrow> server \<Rightarrow> bool" where
  "heard K i w \<longleftrightarrow> hasChannel (ChWakeup i) (pol w i) \<and>
     chIndex (chan (pol w i) (ChWakeup i)) = Added \<and> events (chan (pol w i) (ChWakeup i)) = ReadEvent \<and>
     (i \<in> K \<longrightarrow> pendingFunctors (evl w i) \<noteq> [] \<longrightarrow> 0 < counter (evl w i))"

definition serving ::
  "sockaddr_in \<times> nat set \<Rightarrow> fd set \<Rightarrow> nat set \<Rightarrow> nat set \<Rightarrow> (nat \<Rightarrow> task list) \<Rightarrow> (nat \<Rightarrow> chan_id list) \<Rightarrow> server \<Rightarrow> bool" where
  "serving a R K H b act w \<longleftrightarrow> pool_fine w \<and> naming a w \<and> descriptors_ok w \<and>
     (\<forall>i \<in> all_loops w. poller_ok (pol w i) \<and> channel_home R i w \<and> tasks_fine b i w \<and>
        (\<forall>x \<in> set (act i). hasChannel x (pol w i))) \<and>
     (\<forall>cid. alive w cid \<longrightarrow> member_ok R H b cid w) \<and> (\<forall>i \<in> all_loops w. heard K i w)"


subsection \<open>What the invariant gives\<close>

lemma same_server:
  fixes u w :: server
  assumes "world.more u = world.more w"
  shows "connections u = connections w" "alive u = alive w" "baseIx u = baseIx w"
    "threadPool u = threadPool w" "serverName u = serverName w" "ipPort u = ipPort w"
    "nextConnId u = nextConnId w" "nextObj u = nextObj w" "acceptFd u = acceptFd w"
    "listening u = listening w" "srvStarted u = srvStarted w"
  using assms by (cases u; cases w; simp)+

lemma servingD:
  assumes "serving a R K H b act w"
  shows "pool_fine w" "naming a w" "descriptors_ok w"
    "i \<in> all_loops w \<Longrightarrow> poller_ok (pol w i)" "i \<in> all_loops w \<Longrightarrow> channel_home R i w"
    "i \<in> all_loops w \<Longrightarrow> tasks_fine b i w"
    "i \<in> all_loops w \<Longrightarrow> x \<in> set (act i) \<Longrightarrow> hasChannel x (pol w i)"
    "alive w cid \<Longrightarrow> member_ok R H b cid w" "i \<in> all_loops w \<Longrightarrow> heard K i w"
  using assms by (auto simp: serving_def)

lemma machine_okD:
  assumes "machine_ok env R"
  shows "epoll_ok (ker env i)" "os_ok (os1 env)"
    "os_accept (os1 env) tr l = Inr (d, p) \<Longrightarrow> d \<notin> R \<and> d \<notin> accepted tr"
  using assms unfolding machine_ok_def by blast+

lemma channel_homeD: "channel_home R i w \<Longrightarrow> channels (pol w i) d = Some x \<Longrightarrow> home_ok R i w d x"
  by (simp add: channel_home_def)

lemma home_ok_cong:
  "alive w' = alive w \<Longrightarrow> (\<And>d. loopIx (conns w' d) = loopIx (conns w d)) \<Longrightarrow>
    home_ok R i w' d x = home_ok R i w d x"
  by (cases x) simp_all

lemma member_loop: "member_ok R H b cid w \<Longrightarrow> loopIx (conns w cid) \<in> all_loops w"
  by (simp add: member_ok_def all_loops_def)

lemma serving_loop: "serving a R K H b act w \<Longrightarrow> alive w cid \<Longrightarrow> loopIx (conns w cid) \<in> all_loops w"
  using member_loop servingD(8) by blast

lemma enlisted_has:
  "poller_ok (pol w (loopIx (conns w cid))) \<Longrightarrow>
    enlisted cid w \<longleftrightarrow> hasChannel (ChConn cid) (pol w (loopIx (conns w cid)))"
  by (simp add: enlisted_def chan_of_def poller_ok_def keys_ok_def)

lemma serving_enlisted:
  "serving a R K H b act w \<Longrightarrow> alive w cid \<Longrightarrow>
    enlisted cid w \<longleftrightarrow> hasChannel (ChConn cid) (pol w (loopIx (conns w cid)))"
  using enlisted_has servingD(4) serving_loop by blast

lemma serving_key:
  assumes "serving a R K H b act w" "i \<in> all_loops w" "channels (pol w i) d = Some (ChConn cid)"
  shows "alive w cid" "loopIx (conns w cid) = i" "sockFd (conns w cid) = d"
proof -
  show h: "alive w cid" "loopIx (conns w cid) = i"
    using channel_homeD [OF servingD(5) [OF assms(1,2)] assms(3)] by simp_all
  have "keys_ok (pol w i)" using servingD(4) [OF assms(1,2)] by (simp add: poller_ok_def)
  then show "sockFd (conns w cid) = d"
    using keys_okD(1) assms(3) servingD(8) [OF assms(1) h(1)] h(2)
    by (fastforce simp: member_ok_def chan_of_def)
qed

lemma serving_owns:
  assumes "serving a R K H b act w" "alive w cid"
  shows "owns_fd (ChConn cid) (pol w (loopIx (conns w cid)))"
  unfolding owns_fd_def
proof (intro allI impI)
  fix x
  define i where "i = loopIx (conns w cid)"
  note M = servingD(8) [OF assms]
  assume "channels (pol w (loopIx (conns w cid))) (chFd (chan (pol w (loopIx (conns w cid))) (ChConn cid))) = Some x"
  then have x: "channels (pol w i) (sockFd (conns w cid)) = Some x"
    using M by (simp add: member_ok_def chan_of_def i_def)
  have i: "i \<in> all_loops w" using serving_loop [OF assms] by (simp add: i_def)
  show "x = ChConn cid"
  proof (cases x)
    case (ChConn c)
    have "alive w c" "sockFd (conns w c) = sockFd (conns w cid)"
      using serving_key [OF assms(1) i] x ChConn by auto
    then have "c = cid"
      using servingD(3) [OF assms(1)] assms(2) by (auto simp: descriptors_ok_def inj_on_def)
    then show ?thesis using ChConn by simp
  qed (use channel_homeD [OF servingD(5) [OF assms(1) i] x] M in \<open>auto simp: member_ok_def\<close>)
qed

lemma serving_conn_ok:
  assumes "machine_ok env R" "serving a R K H b act w" "alive w cid"
  shows "conn_ok env cid w"
  using serving_owns [OF assms(2,3)] servingD(8) [OF assms(2,3)] machine_okD(1) [OF assms(1)]
    servingD(4) [OF assms(2) serving_loop [OF assms(2,3)]]
  by (simp add: conn_ok_def Let_def member_ok_def)


subsection \<open>A step of one connection keeps the invariant\<close>

text \<open>The tasks of the other connections.\<close>

definition others :: "nat \<Rightarrow> task list \<Rightarrow> task list" where
  "others cid fs = filter (\<lambda>f. keeps f \<noteq> Some cid) fs"

lemma others_in: "others cid fs = others cid gs \<Longrightarrow> keeps f \<noteq> Some cid \<Longrightarrow> f \<in> set fs \<longleftrightarrow> f \<in> set gs"
proof -
  assume "others cid fs = others cid gs" "keeps f \<noteq> Some cid"
  then have "f \<in> set (others cid fs) \<longleftrightarrow> f \<in> set (others cid gs)" by simp
  then show ?thesis using \<open>keeps f \<noteq> Some cid\<close> by (simp add: others_def)
qed

lemma task_fine_keeps: "task_fine i f w \<Longrightarrow> \<exists>cid. keeps f = Some cid \<and> alive w cid"
  by (cases f) (auto simp: task_fine_def)

lemma task_fine_cong:
  assumes "keeps f = Some d" "conns w' d = conns w d" "alive w' d = alive w d" "baseIx w' = baseIx w"
    "mapped d w' = mapped d w"
  shows "task_fine i f w' = task_fine i f w"
  using assms by (cases f) (auto simp: task_fine_def)

lemma stage_cong:
  assumes "conns w' d = conns w d" "mapped d w' = mapped d w"
    "chan_of d w' = chan_of d w" "closing_due b d w \<Longrightarrow> closing_due b' d w'"
    "FConnectEstablished d \<in> set (due b (loopIx (conns w d)) w) \<Longrightarrow>
       FConnectEstablished d \<in> set (due b' (loopIx (conns w d)) w')"
    "stage_ok H b d w" "H \<subseteq> H'"
  shows "stage_ok H' b' d w'"
  using assms unfolding stage_ok_def by (cases "connState (conns w d)") (auto simp: enlisted_def attentive_def)

text \<open>The members that stay; the entry of \<open>cid\<close> may leave the map.\<close>

definition kept :: "nat \<Rightarrow> server \<Rightarrow> server \<Rightarrow> bool" where
  "kept cid w w' \<longleftrightarrow> alive w' = alive w \<and> baseIx w' = baseIx w \<and> threadPool w' = threadPool w \<and>
     nextObj w' = nextObj w \<and> nextConnId w' = nextConnId w \<and> serverName w' = serverName w \<and>
     ipPort w' = ipPort w \<and> (connections w' = connections w \<or>
       connections w' = (connections w)(connName (conns w cid) := None))"

lemma kept_more: "world.more w' = world.more (w :: server) \<Longrightarrow> kept cid w w'"
  unfolding kept_def by (blast intro: same_server)

lemma serving_name_inj:
  assumes "naming a w" "c < nextObj w" "d < nextObj w" "connName (conns w c) = connName (conns w d)"
  shows "c = d"
proof -
  have ip: "ipv4_ok (sin_addr (fst a))" "ipPort w = toIpPort (fst a)" and n: "int (nextObj w) + 1 < 2 ^ 31"
    and nm: "\<And>c. c < nextObj w \<Longrightarrow> connName (conns w c) = conn_name (serverName w) (ipPort w) (int c + 1)"
    using assms(1) by (simp_all add: naming_def)
  have b: "\<bar>int c + 1\<bar> < 2 ^ 64" "\<bar>int d + 1\<bar> < 2 ^ 64" using assms(2,3) n by auto
  have "conn_name (serverName w) (toIpPort (fst a)) (int c + 1) = conn_name (serverName w) (toIpPort (fst a)) (int d + 1)"
    using nm [OF assms(2)] nm [OF assms(3)] assms(4) ip(2) by simp
  from conn_name_inj [OF ip(1) b this] show ?thesis by simp
qed

text \<open>What such a step changes; the connection's own registration and buffers stay sound.\<close>

definition moved :: "nat \<Rightarrow> server \<Rightarrow> server \<Rightarrow> bool" where
  "moved cid w w' \<longleftrightarrow> kept cid w w' \<and> (\<forall>d. d \<noteq> cid \<longrightarrow> conns w' d = conns w d) \<and>
     loopIx (conns w' cid) = loopIx (conns w cid) \<and> connName (conns w' cid) = connName (conns w cid) \<and>
     sockFd (conns w' cid) = sockFd (conns w cid) \<and>
     buf_ok (inputBuffer (conns w' cid)) \<and> buf_ok (outputBuffer (conns w' cid)) \<and>
     (\<forall>j. j \<noteq> loopIx (conns w cid) \<longrightarrow> pol w' j = pol w j) \<and>
     (let p = pol w (loopIx (conns w cid)); q = pol w' (loopIx (conns w cid))
      in poller_ok q \<and> owns_fd (ChConn cid) q \<and> chFd (chan q (ChConn cid)) = sockFd (conns w cid) \<and>
         (\<forall>x. x \<noteq> ChConn cid \<longrightarrow> chan q x = chan p x) \<and>
         (\<forall>d. d \<noteq> sockFd (conns w cid) \<longrightarrow> channels q d = channels p d)) \<and>
     (\<exists>cs. calls w' = calls w @ cs \<and> list_all inner_call cs)"

lemma movedI:
  assumes "conn_change cid w u" "conn_ok env cid u"
    and "conns w' = conns u" "pol w' = pol u" "calls w' = calls u" "kept cid w w'"
  shows "moved cid w w'"
  using assms own_inner_all by (auto simp: moved_def conn_change_def conn_ok_def Let_def chan_of_def)

lemma movedD:
  assumes "moved cid w w'"
  shows "alive w' = alive w" "baseIx w' = baseIx w" "threadPool w' = threadPool w"
    "nextObj w' = nextObj w" "nextConnId w' = nextConnId w" "serverName w' = serverName w"
    "ipPort w' = ipPort w" "all_loops w' = all_loops w"
    "d \<noteq> cid \<Longrightarrow> conns w' d = conns w d" "connName (conns w' d) = connName (conns w d)"
    "sockFd (conns w' d) = sockFd (conns w d)" "loopIx (conns w' d) = loopIx (conns w d)"
    "j \<noteq> loopIx (conns w cid) \<Longrightarrow> pol w' j = pol w j"
    "x \<noteq> ChConn cid \<Longrightarrow> chan (pol w' j) x = chan (pol w j) x"
    "d' \<noteq> sockFd (conns w cid) \<Longrightarrow> channels (pol w' j) d' = channels (pol w j) d'"
    "connections w' = connections w \<or> connections w' = (connections w)(connName (conns w cid) := None)"
proof -
  note M = assms [unfolded moved_def Let_def]
  show "alive w' = alive w" "baseIx w' = baseIx w" "threadPool w' = threadPool w"
    "nextObj w' = nextObj w" "nextConnId w' = nextConnId w" "serverName w' = serverName w"
    "ipPort w' = ipPort w" "all_loops w' = all_loops w"
    "connections w' = connections w \<or> connections w' = (connections w)(connName (conns w cid) := None)"
    using M by (auto simp: kept_def all_loops_def)
  show "d \<noteq> cid \<Longrightarrow> conns w' d = conns w d" "connName (conns w' d) = connName (conns w d)"
    "sockFd (conns w' d) = sockFd (conns w d)" "loopIx (conns w' d) = loopIx (conns w d)"
    using M by (cases "d = cid"; simp)+
  show "j \<noteq> loopIx (conns w cid) \<Longrightarrow> pol w' j = pol w j" using M by blast
  show "x \<noteq> ChConn cid \<Longrightarrow> chan (pol w' j) x = chan (pol w j) x"
    "d' \<noteq> sockFd (conns w cid) \<Longrightarrow> channels (pol w' j) d' = channels (pol w j) d'"
    using M by (cases "j = loopIx (conns w cid)"; simp)+
qed

lemma moved_own:
  assumes "moved cid w w'"
  defines "q \<equiv> pol w' (loopIx (conns w cid))"
  shows "poller_ok q" "owns_fd (ChConn cid) q" "chFd (chan q (ChConn cid)) = sockFd (conns w cid)"
    "buf_ok (inputBuffer (conns w' cid))" "buf_ok (outputBuffer (conns w' cid))"
  using assms(1) by (simp_all add: moved_def Let_def q_def)

lemma moved_mapped:
  assumes S: "serving a R K H b act w" and M: "moved cid w w'" and al: "alive w cid" "alive w d" "d \<noteq> cid"
  shows "mapped d w' = mapped d w"
proof -
  have "connName (conns w d) \<noteq> connName (conns w cid)"
    using serving_name_inj [OF servingD(2) [OF S]] servingD(8) [OF S al(2)] servingD(8) [OF S al(1)] al(3)
    by (auto simp: member_ok_def)
  then show ?thesis using movedD(16) [OF M] by (auto simp: mapped_def movedD(10) [OF M])
qed

lemma moved_chan: "moved cid w w' \<Longrightarrow> d \<noteq> cid \<Longrightarrow> chan_of d w' = chan_of d w"
  using movedD(9,14) by (simp add: chan_of_def)

text \<open>The pointers registered stay where they were, that of \<open>cid\<close> apart.\<close>

lemma moved_has:
  assumes S: "serving a R K H b act w" and M: "moved cid w w'" and al: "alive w cid"
    and x: "x \<noteq> ChConn cid" "hasChannel x (pol w j)"
  shows "hasChannel x (pol w' j)"
proof (cases "j = loopIx (conns w cid)")
  case False
  then show ?thesis using x(2) movedD(13) [OF M] by simp
next
  case True
  have "chFd (chan (pol w j) x) \<noteq> sockFd (conns w cid)"
  proof
    assume e: "chFd (chan (pol w j) x) = sockFd (conns w cid)"
    have "chFd (chan (pol w j) (ChConn cid)) = sockFd (conns w cid)"
      using servingD(8) [OF S al] True by (simp add: member_ok_def chan_of_def)
    then have "x = ChConn cid"
      using serving_owns [OF S al] x(2) e True by (simp add: owns_fd_def hasChannel_def)
    then show False using x(1) by simp
  qed
  then show ?thesis using x movedD(14,15) [OF M] by (simp add: hasChannel_def)
qed

lemma moved_home:
  assumes S: "serving a R K H b act w" and M: "moved cid w w'" and al: "alive w cid"
    and j: "j \<in> all_loops w"
  shows "channel_home R j w'"
  unfolding channel_home_def
proof (intro allI impI)
  fix d x
  assume x: "channels (pol w' j) d = Some x"
  show "home_ok R j w' d x"
  proof (cases "j = loopIx (conns w cid) \<and> d = sockFd (conns w cid)")
    case True
    then have "x = ChConn cid" using moved_own(2,3) [OF M] x by (simp add: owns_fd_def)
    then show ?thesis using True al by (simp add: movedD [OF M])
  next
    case False
    then have "channels (pol w j) d = Some x"
      using x movedD(13) [OF M, of j] movedD(15) [OF M, of d j] by (cases "j = loopIx (conns w cid)") auto
    then show ?thesis
      using channel_homeD [OF servingD(5) [OF S j]] home_ok_cong [of w' w R j d x]
      by (simp add: movedD [OF M])
  qed
qed

lemma moved_heard:
  assumes S: "serving a R K H b act w" and M: "moved cid w w'" and al: "alive w cid"
    and j: "j \<in> all_loops w"
    and W: "j \<in> K \<Longrightarrow> pendingFunctors (evl w' j) \<noteq> [] \<Longrightarrow> 0 < counter (evl w' j)"
  shows "heard K j w'"
  using servingD(9) [OF S j] moved_has [OF S M al, of "ChWakeup j" j] W movedD(14) [OF M]
  by (simp add: heard_def)

lemma moved_tasks:
  assumes S: "serving a R K H b act w" and M: "moved cid w w'" and al: "alive w cid"
    and j: "j \<in> all_loops w" and F: "others cid (due b' j w') = others cid (due b j w)"
    and T: "\<And>f. f \<in> set (due b' j w') \<Longrightarrow> keeps f = Some cid \<Longrightarrow> task_fine j f w'"
    and D: "distinct (filter is_est (due b' j w'))"
  shows "tasks_fine b' j w'"
proof -
  have "task_fine j f w'" if f: "f \<in> set (due b' j w')" for f
  proof (cases "keeps f = Some cid")
    case False
    then have "f \<in> set (due b j w)" using others_in [OF F False] f by simp
    then have t: "task_fine j f w" using servingD(6) [OF S j] by (simp add: tasks_fine_def)
    then obtain d where d: "keeps f = Some d" "alive w d" using task_fine_keeps by blast
    then have "d \<noteq> cid" using False by auto
    then show ?thesis using t task_fine_cong [OF d(1), of w' w] moved_mapped [OF S M al d(2)]
      by (simp add: movedD [OF M])
  qed (use T [OF f] in simp)
  then show ?thesis using D by (simp add: tasks_fine_def)
qed

lemma moved_member:
  assumes S: "serving a R K H b act w" and M: "moved cid w w'" and al: "alive w cid" "alive w d" "d \<noteq> cid"
    and F: "\<And>j. j \<in> all_loops w \<Longrightarrow> others cid (due b' j w') = others cid (due b j w)" and HH: "H \<subseteq> H'"
  shows "member_ok R H' b' d w'"
proof -
  note Md = servingD(8) [OF S al(2)]
  have iff: "f \<in> set (due b' j w') \<longleftrightarrow> f \<in> set (due b j w)" if "keeps f = Some d" "j \<in> all_loops w" for f j
    using others_in [OF F [OF that(2)]] that(1) al(3) by simp
  have bl: "baseIx w \<in> all_loops w" by (simp add: all_loops_def)
  note dl = serving_loop [OF S al(2)]
  have "stage_ok H' b' d w'"
  proof (rule stage_cong [where w = w and b = b and H = H])
    show "closing_due b' d w'" if "closing_due b d w"
      using that iff [OF _ bl] iff [OF _ dl] by (simp add: closing_due_def movedD [OF M])
    show "FConnectEstablished d \<in> set (due b' (loopIx (conns w d)) w')"
      if "FConnectEstablished d \<in> set (due b (loopIx (conns w d)) w)"
      using that iff [OF _ dl] by simp
  qed (use Md moved_chan [OF M al(3)] moved_mapped [OF S M al] HH movedD(9) [OF M al(3)]
    in \<open>simp_all add: member_ok_def\<close>)
  then show ?thesis using Md moved_chan [OF M al(3)] movedD(9) [OF M al(3)]
    by (simp add: member_ok_def movedD(3,4) [OF M])
qed

lemma moved_fixed:
  assumes S: "serving a R K H b act w" and M: "moved cid w w'"
  shows "pool_fine w'" "naming a w'" "descriptors_ok w'"
proof -
  obtain cs where cs: "calls w' = calls w @ cs" "list_all inner_call cs" using M by (auto simp: moved_def)
  show "pool_fine w'" using servingD(1) [OF S] by (simp add: pool_fine_def movedD [OF M])
  show "naming a w'" using servingD(2) [OF S] movedD(16) [OF M]
    by (auto simp: naming_def movedD(1-8,10) [OF M] split: if_splits)
  show "descriptors_ok w'"
    using servingD(3) [OF S] inner_calls_accepted [OF cs(2), of "calls w"] cs(1)
    by (simp add: descriptors_ok_def movedD(1,11) [OF M])
qed

lemma moved_poller:
  assumes S: "serving a R K H b act w" and M: "moved cid w w'" and j: "j \<in> all_loops w"
  shows "poller_ok (pol w' j)"
  using moved_own(1) [OF M] servingD(4) [OF S j] movedD(13) [OF M, of j]
  by (cases "j = loopIx (conns w cid)") simp_all

lemma serving_step:
  assumes S: "serving a R K H b act w" and al: "alive w cid"
    and ch: "conn_change cid w u" and ok: "conn_ok env cid u"
    and w': "conns w' = conns u" "pol w' = pol u" "calls w' = calls u" "kept cid w w'"
    and F: "\<And>i. i \<in> all_loops w \<Longrightarrow> others cid (due b' i w') = others cid (due b i w)"
    and T: "\<And>i f. i \<in> all_loops w \<Longrightarrow> f \<in> set (due b' i w') \<Longrightarrow> keeps f = Some cid \<Longrightarrow> task_fine i f w'"
    and D: "\<And>i. i \<in> all_loops w \<Longrightarrow> distinct (filter is_est (due b' i w'))"
    and C: "stage_ok H' b' cid w'"
    and A: "ChConn cid \<in> set (act (loopIx (conns w cid))) \<Longrightarrow> enlisted cid w'"
    and HH: "H \<subseteq> H'"
    and W: "\<And>i. i \<in> all_loops w \<Longrightarrow> i \<in> K \<Longrightarrow> pendingFunctors (evl w' i) \<noteq> [] \<Longrightarrow> 0 < counter (evl w' i)"
  shows "serving a R K H' b' act w'"
proof -
  note M = movedI [OF ch ok w']
  have "hasChannel x (pol w' j)" if j: "j \<in> all_loops w" and x: "x \<in> set (act j)" for j x
  proof (cases "x = ChConn cid")
    case True
    have h: "channels (pol w j) (chFd (chan (pol w j) x)) = Some x"
      using servingD(7) [OF S j x] by (simp add: hasChannel_def)
    then have l: "loopIx (conns w cid) = j" using serving_key(2) [OF S j] True by blast
    then have "enlisted cid w'" using A x True by simp
    then show ?thesis using enlisted_has [of w' cid] moved_poller [OF S M j] True l
      by (simp add: movedD(12) [OF M])
  qed (rule moved_has [OF S M al _ servingD(7) [OF S j x]])
  moreover have "member_ok R H' b' d w'" if d: "alive w' d" for d
  proof (cases "d = cid")
    case True
    then show ?thesis using servingD(8) [OF S al] C moved_own [OF M]
      by (simp add: member_ok_def movedD [OF M] chan_of_def)
  next
    case False
    then show ?thesis using moved_member [OF S M al _ False F HH] d by (simp add: movedD(1) [OF M])
  qed
  moreover have "tasks_fine b' j w'" "heard K j w'" "poller_ok (pol w' j)" "channel_home R j w'"
    if j: "j \<in> all_loops w" for j
  proof -
    show "tasks_fine b' j w'" by (rule moved_tasks [OF S M al j F [OF j] T [OF j] D [OF j]])
    show "heard K j w'" by (rule moved_heard [OF S M al j W [OF j]])
  qed (rule moved_poller [OF S M j], rule moved_home [OF S M al j])
  ultimately show ?thesis
    using moved_fixed [OF S M] unfolding serving_def movedD(8) [OF M] by blast
qed

end
