(* ===== verification/ServerSteps.thy ===== *)
theory ServerSteps
  imports ServerSystem
begin

text \<open>
  Every handler of the server keeps the invariant \<open>serving\<close>, and does not fail while no write
  raises SIGPIPE.

  The locale \<open>connection_app\<close> is the interface between the library and an application: its
  callbacks stay within their connection, the connection callback returns, and so does the
  message callback, which may write, while no write raises SIGPIPE. The lemmas in it are proved
  from these laws alone; \<open>EchoServer\<close> provides them.
\<close>

locale connection_app =
  fixes env :: senv
  assumes quiet: "no_tasks env"
    and connection_law: "conn_ok env cid w \<Longrightarrow>
      \<exists>w'. invoke (onConnection env) cid w = Some w' \<and> handler_ok env cid w w'"
    and message_law: "conn_ok env cid w \<Longrightarrow> os_ok (os1 env) \<Longrightarrow>
      yields (no_sigpipe (os1 env)) (invoke (map_option (\<lambda>f c. f c t) (onMessage env)) cid w)
        (handler_ok env cid w)"

lemma conn_ok_server [simp]: "conn_ok (server_env env) cid w = conn_ok env cid w"
  by (rule conn_ok_env) simp

lemma handler_ok_server [simp]: "handler_ok (server_env env) cid w w' = handler_ok env cid w w'"
  by (simp add: handler_ok_def)

lemma handler_ok_server' [simp]: "handler_ok (server_env env) cid w = handler_ok env cid w"
  by (rule ext) simp

lemma shut_ok_server [simp]: "shut_ok (server_env env) cid w w' = shut_ok env cid w w'"
  by (simp add: shut_ok_def)

lemma read_server [simp]:
  "read_result (server_env env) cid w = read_result env cid w"
  "after_read (server_env env) cid w = after_read env cid w"
  by (simp_all add: read_result_def after_read_def)

lemma no_tasks_env [simp]: "no_tasks (server_env env) = no_tasks env"
  by (simp add: no_tasks_def)

lemma conn_changeD:
  assumes "conn_change cid w (u :: server)"
  shows "loopIx (conns u cid) = loopIx (conns w cid)" "evl u = evl w" "kept cid w u"
    "connName (conns u cid) = connName (conns w cid)" "sockFd (conns u cid) = sockFd (conns w cid)"
    "world.more u = world.more w"
  using assms kept_more [of u w cid] by (auto simp: conn_change_def)

text \<open>
  What a handler of \<open>cid\<close> leaves alone: the other connections with their channels, the objects that
  exist, and the data of the other descriptors.
\<close>

definition within :: "nat \<Rightarrow> server \<Rightarrow> server \<Rightarrow> bool" where
  "within cid w w' \<longleftrightarrow> alive w' = alive w \<and> nextObj w' = nextObj w \<and>
     loopIx (conns w' cid) = loopIx (conns w cid) \<and> sockFd (conns w' cid) = sockFd (conns w cid) \<and>
     (\<forall>d. d \<noteq> cid \<longrightarrow> conns w' d = conns w d \<and> chan_of d w' = chan_of d w) \<and>
     (\<exists>cs. calls w' = calls w @ cs \<and> list_all (own_call (sockFd (conns w cid))) cs)"

lemma change_within: "conn_change cid w w' \<Longrightarrow> within cid w w'"
proof -
  assume ch: "conn_change cid w w'"
  have "chan_of d w' = chan_of d w" if "d \<noteq> cid" for d
    using ch that by (cases "loopIx (conns w d) = loopIx (conns w cid)") (simp_all add: conn_change_def chan_of_def)
  then show ?thesis
    using ch same_server(2,8) [OF conn_changeD(6) [OF ch]] by (simp add: within_def conn_change_def)
qed

lemma within_refl: "within cid w w"
  by (simp add: within_def)

lemma within_trans: "within cid u v \<Longrightarrow> within cid v w \<Longrightarrow> within cid u w"
  unfolding within_def by fastforce

text \<open>A handler of a registered connection has returned; it may have closed it.\<close>

definition closed :: "nat \<Rightarrow> server \<Rightarrow> bool" where
  "closed cid w \<longleftrightarrow> connState (conns w cid) = KDisconnected"

definition goes :: "sockaddr_in \<times> nat set \<Rightarrow> fd set \<Rightarrow> nat set \<Rightarrow> nat set \<Rightarrow> (nat \<Rightarrow> task list) \<Rightarrow>
    (nat \<Rightarrow> chan_id list) \<Rightarrow> nat \<Rightarrow> server \<Rightarrow> server \<Rightarrow> bool" where
  "goes a R K H b act cid w w' \<longleftrightarrow> serving a R K H b act w' \<and> alive w' cid \<and> enlisted cid w' \<and>
     within cid w w' \<and> (closed cid w' \<or> connState (conns w' cid) = connState (conns w cid))"

lemma goesD:
  assumes "goes a R K H b act cid w w'"
  shows "serving a R K H b act w'" "alive w' cid" "enlisted cid w'" "within cid w w'"
    "loopIx (conns w' cid) = loopIx (conns w cid)"
  using assms unfolding goes_def within_def by blast+

lemma goes_state: "goes a R K H b act cid w w' \<Longrightarrow>
    connState (conns w' cid) = KDisconnected \<or> connState (conns w' cid) = connState (conns w cid)"
  by (simp add: goes_def closed_def)

lemma goes_trans: "goes a R K H b act cid u v \<Longrightarrow> goes a R K H b act cid v w \<Longrightarrow> goes a R K H b act cid u w"
  using within_trans unfolding goes_def closed_def by metis

lemma stage_enlisted:
  assumes "stage_ok H b cid w" "enlisted cid w"
  shows "connState (conns w cid) \<noteq> KConnecting"
  using assms by (cases "connState (conns w cid)") (auto simp: stage_ok_def)

lemma servingT:
  assumes "serving a R K H b act w" "i \<in> all_loops w" "f \<in> set (due b i w)"
  shows "task_fine i f w"
  using servingD(6) [OF assms(1,2)] assms(3) by (simp add: tasks_fine_def)

lemma queue_rings: "0 < counter (queueInLoop False f l)"
  using wakeup_sel(4) by (simp add: queueInLoop_def Let_def)

text \<open>A queue that a step left alone, or put a task into with a wake-up.\<close>

lemma rung:
  assumes "serving a R K H b act w" "i \<in> all_loops w"
    and "evl w' i = evl w i \<or> (\<exists>f l. evl w' i = queueInLoop False f l)"
  shows "i \<in> K \<Longrightarrow> pendingFunctors (evl w' i) \<noteq> [] \<Longrightarrow> 0 < counter (evl w' i)"
  using servingD(9) [OF assms(1,2)] assms(3) queue_rings unfolding heard_def by metis

text \<open>A handler of a registered connection that leaves its state alone.\<close>

lemma serving_keep:
  assumes m: "machine_ok env R" and S: "serving a R K H b act w" and c: "alive w cid" "enlisted cid w"
    and h: "handler_ok env cid w u"
  shows "goes a R K H b act cid w u"
proof -
  have H: "conn_ok env cid u" "conn_change cid w u" "enlisted cid u"
    "connState (conns u cid) = connState (conns w cid)" "attentive cid w \<longrightarrow> attentive cid u"
    using h c(2) by (auto simp: handler_ok_def)
  note D = conn_changeD [OF H(2)]
  have eq: "alive u = alive w" "baseIx u = baseIx w" "connections u = connections w"
    using same_server [OF D(6)] by simp_all
  have du: "due b j u = due b j w" for j by (simp add: due_def D(2))
  have mp: "mapped cid u = mapped cid w" by (simp add: mapped_def eq D(4))
  have st: "stage_ok H b cid w" using servingD(8) [OF S c(1)] by (simp add: member_ok_def)
  have "serving a R K H b act u"
  proof (rule serving_step [OF S c(1) H(2,1) refl refl refl D(3)])
    fix j f
    assume "j \<in> all_loops w" "f \<in> set (due b j u)" "keeps f = Some cid"
    then show "task_fine j f u"
      using servingT [OF S, of j f] by (cases f) (simp_all add: du task_fine_def eq mp D(1) H(4))
  next
    fix j
    assume "j \<in> all_loops w"
    then show "distinct (filter is_est (due b j u))"
      using servingD(6) [OF S] by (simp add: du tasks_fine_def)
  next
    show "stage_ok H b cid u"
      using st stage_enlisted [OF st c(2)] H(3-5) c(2)
      by (cases "connState (conns w cid)") (auto simp: stage_ok_def mp closing_due_def du D(1) eq)
  qed (simp_all add: du H(3) rung [OF S] D(2))
  then show ?thesis using c(1) H(3,4) change_within [OF H(2)] by (simp add: goes_def eq)
qed

text \<open>The close callback of the server on a connection that has just been closed.\<close>

lemma serving_shut:
  assumes m: "machine_ok env R" and S: "serving a R K H b act w" and c: "alive w cid" "enlisted cid w"
    and h: "shut_ok env cid w u"
  defines "w' \<equiv> queue_on (loopIx (conns w cid)) (baseIx w) (FRemoveConnectionInLoop cid) u"
  shows "removeConnection (loopIx (conns u cid)) cid u = Some w' \<and> goes a R K H b act cid w w'"
proof -
  have H: "conn_ok env cid u" "conn_change cid w u" "enlisted cid u"
    "connState (conns u cid) = KDisconnected"
    using h by (auto simp: shut_ok_def)
  note D = conn_changeD [OF H(2)]
  have eq: "alive u = alive w" "baseIx u = baseIx w" "connections u = connections w"
    using same_server [OF D(6)] by simp_all
  have st: "stage_ok H b cid w" using servingD(8) [OF S c(1)] by (simp add: member_ok_def)
  have ne: "loopIx (conns w cid) \<noteq> baseIx w"
    using servingD(1) [OF S] servingD(8) [OF S c(1)] by (auto simp: pool_fine_def member_ok_def)
  have du: "due b j w' = due b j w @ (if j = baseIx w then [FRemoveConnectionInLoop cid] else [])" for j
    by (simp add: due_def w'_def D(2))
  have more: "world.more w' = world.more w" by (simp add: w'_def D(6))
  have eq': "alive w' = alive w" "baseIx w' = baseIx w" "connections w' = connections w"
    using same_server [OF more] by simp_all
  have cw: "conns w' = conns u" "chan_of cid w' = chan_of cid u" by (simp_all add: w'_def)
  have mp: "mapped cid w' = mapped cid w" by (simp add: mapped_def eq' cw D(4))
  have en: "enlisted cid w'" using H(3) by (simp add: enlisted_def cw)
  have "serving a R K H b act w'"
  proof (rule serving_step [OF S c(1) H(2,1)])
    show "kept cid w w'" by (rule kept_more [OF more])
    show "others cid (due b j w') = others cid (due b j w)" for j by (simp add: du others_def)
    show "distinct (filter is_est (due b j w'))" if "j \<in> all_loops w" for j
      using servingD(6) [OF S that] by (simp add: du tasks_fine_def)
    show "stage_ok H b cid w'"
      by (simp add: stage_ok_def cw H(4) closing_due_def du eq')
  next
    fix j f
    assume j: "j \<in> all_loops w" and f: "f \<in> set (due b j w')" "keeps f = Some cid"
    have "f = FRemoveConnectionInLoop cid \<and> j = baseIx w \<or> task_fine j f w"
      using f servingT [OF S j] by (auto simp: du split: if_splits)
    then show "task_fine j f w'"
      using f(2) stage_enlisted [OF st c(2)] c(1)
      by (cases f) (auto simp: task_fine_def eq' mp cw D(1) H(4))
  next
    show "0 < counter (evl w' j)" if "j \<in> all_loops w" "j \<in> K" "pendingFunctors (evl w' j) \<noteq> []" for j
      by (rule rung [OF S that(1) _ that(2,3)]) (auto simp: w'_def D(2) ne)
  qed (simp_all add: w'_def H(3) en [unfolded w'_def])
  moreover have "within cid w w'"
    using change_within [OF H(2)] same_server(8) [OF more] unfolding within_def eq' eq cw by (simp add: w'_def)
  ultimately show ?thesis
    using ne c(1) en eq' by (simp add: goes_def closed_def cw H(4) removeConnection_def D(1) eq flip: w'_def)
qed


subsection \<open>Handlers of a connection\<close>

context connection_app
begin

lemma connection_law':
  "conn_ok env cid w \<Longrightarrow> \<exists>w'. invoke (onConnection (server_env env)) cid w = Some w' \<and> handler_ok env cid w w'"
  using connection_law by simp

lemma close_serving:
  assumes "machine_ok env R" "serving a R K H b act w" "alive w cid" "enlisted cid w"
  shows "\<exists>w'. handleClose (server_env env) cid w = Some w' \<and> goes a R K H b act cid w w'"
proof -
  note ok = serving_conn_ok [OF assms(1-3)]
  have ok': "conn_ok (server_env env) cid w" using ok by simp
  obtain u where u: "on_chan (server_env env) cid disableAll (setState cid KDisconnected w) = Some u"
    "shut_ok env cid w u"
    using close_handler [OF ok'] by auto
  then have "conn_ok env cid u" by (simp add: shut_ok_def)
  then obtain v where v: "invoke (onConnection (server_env env)) cid u = Some v" "handler_ok env cid u v"
    using connection_law' by blast
  have "handleClose (server_env env) cid w = removeConnection (loopIx (conns v cid)) cid v"
    using u(1) v(1) by (simp add: handleClose_def) (simp add: server_env_def setter_defs invoke_def)
  then show ?thesis
    using serving_shut [OF assms shut_ok_then [OF u(2) v(2)]] by auto
qed

lemma keep_serving:
  assumes "machine_ok env R" "serving a R K H b act w" "alive w cid" "enlisted cid w"
    and "yields must r (handler_ok env cid w)"
  shows "yields must r (goes a R K H b act cid w)"
  by (rule yields_mono [OF assms(5)]) (simp_all add: serving_keep [OF assms(1-4)])

lemma error_serving:
  assumes "machine_ok env R" "serving a R K H b act w" "alive w cid" "enlisted cid w"
  shows "\<exists>w'. handleError (server_env env) cid w = Some w' \<and> goes a R K H b act cid w w'"
proof -
  define u where "u = log_call (CSoError (sockFd (conns w cid))
      (os_soerror (os1 env) (calls w) (sockFd (conns w cid)))) w"
  have "handler_ok env cid w u"
    using serving_conn_ok [OF assms(1-3)] by (auto simp: u_def)
  note K = serving_keep [OF assms this]
  have "handleError (server_env env) cid w = handleClose (server_env env) cid u"
    by (simp add: handleError_def Let_def u_def)
  then show ?thesis using close_serving [OF assms(1) goesD(1-3) [OF K]] goes_trans [OF K] by auto
qed

lemma read_serving:
  assumes "machine_ok env R" "serving a R K H b act w" "alive w cid" "enlisted cid w"
  shows "yields (no_sigpipe (os1 env)) (conn_handleRead (server_env env) cid t w)
    (goes a R K H b act cid w)"
proof -
  note ok = serving_conn_ok [OF assms(1-3)] and os = machine_okD(2) [OF assms(1)]
  have env': "conn_ok (server_env env) cid w" "os_ok (os1 (server_env env))"
    using ok os by simp_all
  define u where "u = after_read env cid w"
  have h: "handler_ok env cid w u" using after_read_handler [OF ok os] by (simp add: u_def)
  note K = serving_keep [OF assms h]
  note K' = goesD(1-3) [OF K]
  note eq = conn_handleRead_eq [OF env', of t]
  have msg: "yields (no_sigpipe (os1 env))
      (invoke (map_option (\<lambda>f c. f c t) (onMessage (server_env env))) cid u) (goes a R K H b act cid u)"
    using keep_serving [OF assms(1) K' message_law [OF handler_okD [OF h] os, of t]] by simp
  have "yields (no_sigpipe (os1 env)) (conn_handleRead (server_env env) cid t w) (goes a R K H b act cid u)"
    using msg yieldsI [OF close_serving [OF assms(1) K']] yieldsI [OF error_serving [OF assms(1) K']]
    by (cases "read_result env cid w") (simp_all add: eq u_def [symmetric])
  then show ?thesis by (rule yields_mono) (simp_all add: goes_trans [OF K])
qed

lemma write_serving:
  assumes "machine_ok env R" "serving a R K H b act w" "alive w cid" "enlisted cid w"
  shows "yields (no_sigpipe (os1 env)) (handleWrite (server_env env) me cid w) (goes a R K H b act cid w)"
proof -
  have "conn_ok (server_env env) cid w" "no_tasks (server_env env)"
    using serving_conn_ok [OF assms(1-3)] quiet by simp_all
  from handleWrite_handler [OF this, of me] show ?thesis
    by (intro keep_serving [OF assms]) simp
qed

text \<open>One callback of a registered connection.\<close>

lemma callback_goes:
  assumes "machine_ok env R" "serving a R K H b act w" "alive w cid" "enlisted cid w"
  shows "yields (no_sigpipe (os1 env)) (run_cb (conn_callbacks (server_env env) me cid) t k w)
    (goes a R K H b act cid w)"
  using yieldsI [OF close_serving [OF assms]] yieldsI [OF error_serving [OF assms]]
    read_serving [OF assms, of t] write_serving [OF assms, of me]
  by (cases k) (simp_all add: conn_callbacks_def call_def)

lemma callbacks_go:
  assumes m: "machine_ok env R" and S: "serving a R K H b act w" and c: "alive w cid" "enlisted cid w"
    and J: "J w" "\<And>k u v. goes a R K H b act cid w u \<Longrightarrow> J u \<Longrightarrow>
      run_cb (conn_callbacks (server_env env) me cid) t k u = Some v \<Longrightarrow> goes a R K H b act cid u v \<Longrightarrow> J v"
  shows "yields (no_sigpipe (os1 env)) (fold_opt (run_cb (conn_callbacks (server_env env) me cid) t) ks w)
    (\<lambda>w'. goes a R K H b act cid w w' \<and> J w')"
proof (rule fold_opt_yields)
  show "goes a R K H b act cid w w \<and> J w" using S c J(1) by (simp add: goes_def within_refl)
next
  fix k u
  assume u: "goes a R K H b act cid w u \<and> J u"
  then have "serving a R K H b act u" "alive u cid" "enlisted cid u" by (simp_all add: goes_def)
  from callback_goes [OF m this, of me t k]
  show "yields (no_sigpipe (os1 env)) (run_cb (conn_callbacks (server_env env) me cid) t k u)
      (\<lambda>v. goes a R K H b act cid w v \<and> J v)"
    by (rule yields_mono) (use J(2) u goes_trans in blast)+
qed

text \<open>
  A returned event of a registered connection, whatever its bits are. What each of the four
  callbacks keeps (\<open>J\<close>) the whole event keeps.
\<close>

lemma conn_event_goes:
  assumes "machine_ok env R" "serving a R K H b act w" "alive w cid" "enlisted cid w"
    and "J w" "\<And>k u v. goes a R K H b act cid w u \<Longrightarrow> J u \<Longrightarrow>
      run_cb (conn_callbacks (server_env env) me cid) t k u = Some v \<Longrightarrow> goes a R K H b act cid u v \<Longrightarrow> J v"
  shows "yields (no_sigpipe (os1 env)) (conn_event (server_env env) me cid True t w)
    (\<lambda>w'. goes a R K H b act cid w w' \<and> J w')"
  using callbacks_go [where J = J, OF assms]
  by (simp add: conn_event_def handleEvent_def handleEventWithGuard_dispatch)

lemma conn_event_serving:
  assumes "machine_ok env R" "serving a R K H b act w" "alive w cid" "enlisted cid w"
  shows "yields (no_sigpipe (os1 env)) (conn_event (server_env env) me cid True t w) (serving a R K H b act)"
  by (rule yields_mono [OF conn_event_goes [where J = "\<lambda>_. True", OF assms]]) (simp_all add: goes_def)

end

end
