(* ===== verification/ServerAccept.thy ===== *)
theory ServerAccept
  imports ServerSteps
begin

text \<open>
  The handlers of the acceptor and of the wake-up channels, and with them the dispatch of any
  returned event of any loop of the server.
\<close>

subsection \<open>Steps that change no connection\<close>

text \<open>Two pollers with the same registrations.\<close>

definition same_reg :: "'c poller \<Rightarrow> 'c poller \<Rightarrow> bool" where
  "same_reg p q \<longleftrightarrow> poller_ok q \<and> channels q = channels p \<and>
     (\<forall>x. \<exists>r. chan q x = (chan p x)\<lparr>revents := r\<rparr>)"

lemma same_reg_sel:
  assumes "same_reg p q"
  shows "chFd (chan q x) = chFd (chan p x)" "events (chan q x) = events (chan p x)"
    "chIndex (chan q x) = chIndex (chan p x)" "hasChannel x q = hasChannel x p"
proof -
  have c: "channels q = channels p" and x: "\<exists>r. chan q x = (chan p x)\<lparr>revents := r\<rparr>"
    using assms by (auto simp: same_reg_def)
  from x show "chFd (chan q x) = chFd (chan p x)" "events (chan q x) = events (chan p x)"
    "chIndex (chan q x) = chIndex (chan p x)" by auto
  then show "hasChannel x q = hasChannel x p" by (simp add: hasChannel_def c)
qed

lemma serving_same:
  assumes S: "serving a R K H b act w" and cn: "conns w' = conns w" and m: "world.more w' = world.more w"
    and du: "\<And>i. i \<in> all_loops w \<Longrightarrow> due b' i w' = due b i w"
    and tr: "accepted (calls w') = accepted (calls w)" "closes_open {} (calls w') = closes_open {} (calls w)"
    and pl: "\<And>i. i \<in> all_loops w \<Longrightarrow> same_reg (pol w i) (pol w' i)"
    and ac: "\<And>i x. i \<in> all_loops w \<Longrightarrow> x \<in> set (act' i) \<Longrightarrow> hasChannel x (pol w' i)"
    and W: "\<And>i. i \<in> all_loops w \<Longrightarrow> i \<in> K' \<Longrightarrow> pendingFunctors (evl w' i) \<noteq> [] \<Longrightarrow> 0 < counter (evl w' i)"
  shows "serving a R K' H b' act' w'"
proof -
  note eq = same_server [OF m]
  have al: "all_loops w' = all_loops w" by (simp add: all_loops_def eq)
  have mp: "mapped d w' = mapped d w" for d by (simp add: mapped_def eq cn)
  have tf: "task_fine i f w' = task_fine i f w" for i f
    by (cases f) (simp_all add: task_fine_def eq cn mp)
  have loop_ok: "poller_ok (pol w' i) \<and> channel_home R i w' \<and> tasks_fine b' i w' \<and>
      (\<forall>x \<in> set (act' i). hasChannel x (pol w' i))" if i: "i \<in> all_loops w" for i
  proof -
    have c: "channels (pol w' i) = channels (pol w i)" "poller_ok (pol w' i)"
      using pl [OF i] by (simp_all add: same_reg_def)
    have "home_ok R i w' d x = home_ok R i w d x" for d x
      by (rule home_ok_cong) (simp_all add: eq cn)
    then have "channel_home R i w'" using servingD(5) [OF S i] by (simp add: channel_home_def c(1))
    moreover have "tasks_fine b' i w'"
      using servingD(6) [OF S i] by (simp add: tasks_fine_def du [OF i] tf)
    ultimately show ?thesis using c(2) ac [OF i] by simp
  qed
  have mem: "member_ok R H b' cid w'" if "alive w' cid" for cid
  proof -
    have al: "alive w cid" using that by (simp add: eq)
    note M = servingD(8) [OF S al] and i = serving_loop [OF S al]
    note P = same_reg_sel [OF pl [OF i], of "ChConn cid"]
    have bs: "baseIx w \<in> all_loops w" by (simp add: all_loops_def)
    have cd: "closing_due b' cid w' = closing_due b cid w"
      by (simp add: closing_due_def cn eq du [OF bs] du [OF i])
    have ch: "chFd (chan_of cid w') = chFd (chan_of cid w)" "enlisted cid w' = enlisted cid w"
      "attentive cid w' = attentive cid w"
      using P by (simp_all add: chan_of_def enlisted_def attentive_def cn)
    have "stage_ok H b' cid w' = stage_ok H b cid w"
      by (simp add: stage_ok_def cn mp ch cd du [OF i] split: StateE.split)
    then show ?thesis using M by (simp add: member_ok_def cn eq ch)
  qed
  have "descriptors_ok w'" "naming a w'" "pool_fine w'"
    using servingD(1-3) [OF S] by (simp_all add: descriptors_ok_def naming_def pool_fine_def eq cn tr al)
  moreover have "heard K' i w'" if i: "i \<in> all_loops w" for i
    using servingD(9) [OF S i] same_reg_sel [OF pl [OF i], of "ChWakeup i"] W [OF i] by (simp add: heard_def)
  ultimately show ?thesis using loop_ok mem by (simp add: serving_def al)
qed

lemma same_reg_refl: "poller_ok p \<Longrightarrow> same_reg p p"
proof -
  have "\<exists>r. c = c\<lparr>revents := r\<rparr>" for c :: channel by (rule exI [of _ "revents c"]) simp
  then show "poller_ok p \<Longrightarrow> same_reg p p" by (simp add: same_reg_def)
qed

text \<open>A change of the calls and the flags of the loops only.\<close>

lemma serving_quiet:
  assumes S: "serving a R K H b act w" and "conns w' = conns w" "world.more w' = world.more w"
    and "pol w' = pol w" "\<And>i. pendingFunctors (evl w' i) = pendingFunctors (evl w i)"
    and "\<And>i. i \<in> K \<Longrightarrow> counter (evl w' i) = counter (evl w i)"
    and "accepted (calls w') = accepted (calls w)" "closes_open {} (calls w') = closes_open {} (calls w)"
  shows "serving a R K H b act w'"
  by (rule serving_same [OF S assms(2,3) _ assms(7,8)])
    (use servingD(4,7,9) [OF S] assms(4-6) in \<open>auto simp: due_def heard_def intro: same_reg_refl\<close>)

subsection \<open>A new connection\<close>

text \<open>
  What an \<open>accept\<close> with its \<open>newConnection\<close> does: the object \<open>nextObj\<close> is made for the descriptor
  \<open>d\<close> on loop \<open>i\<close>, put into the map, and its establishment is queued on its loop.
\<close>

definition joins :: "nat \<Rightarrow> fd \<Rightarrow> server \<Rightarrow> server \<Rightarrow> bool" where
  "joins i d w w' \<longleftrightarrow> i \<in> set (loops (threadPool w)) \<and> (\<forall>c. c \<noteq> nextObj w \<longrightarrow> conns w' c = conns w c) \<and>
     (\<exists>la peer. conns w' (nextObj w) = \<lparr>loopIx = i,
       connName = conn_name (serverName w) (ipPort w) (nextConnId w), connState = KConnecting, reading = True,
       sockFd = d, localAddr = la, peerAddr = peer, highWaterMark = 64 * 1024 * 1024,
       inputBuffer = new_Buffer InitialSize, outputBuffer = new_Buffer InitialSize\<rparr>) \<and>
     pol w' = (pol w)(i := set_chan (ChConn (nextObj w)) (\<lambda>_. Channel d) (pol w i)) \<and>
     (\<exists>l peer r. calls w' =
       calls w @ [CAccept l (Inr (d, peer)), CGetsockname d r, CSetopt d SO_KEEPALIVE True]) \<and>
     evl w' = (evl w)(i := queueInLoop False (FConnectEstablished (nextObj w)) (evl w i)) \<and>
     connections w' = (connections w)(conn_name (serverName w) (ipPort w) (nextConnId w) \<mapsto> nextObj w) \<and>
     alive w' = (alive w)(nextObj w := True) \<and> nextConnId w' = nextConnId w + 1 \<and>
     nextObj w' = nextObj w + 1 \<and> serverName w' = serverName w \<and> ipPort w' = ipPort w \<and>
     baseIx w' = baseIx w \<and> loops (threadPool w') = loops (threadPool w) \<and> pool_ok (threadPool w')"

lemma newConnection_joins:
  fixes l d :: fd and peer :: sockaddr_in
  assumes "pool_fine w"
  shows "\<exists>w'. newConnection env (baseIx w) d peer (log_call (CAccept l (Inr (d, peer))) w) = Some w' \<and>
    joins (loops (threadPool w) ! nextIx (threadPool w)) d w w'"
proof -
  define i where "i = loops (threadPool w) ! nextIx (threadPool w)"
  have p: "loops (threadPool w) \<noteq> []" "pool_ok (threadPool w)" "baseIx w \<notin> set (loops (threadPool w))"
    using assms by (simp_all add: pool_fine_def)
  have i: "i \<in> set (loops (threadPool w))" using p(1,2) by (auto simp: pool_ok_def i_def)
  then have ne: "baseIx w \<noteq> i" using p(3) by auto
  have "pool_ok ((threadPool w)\<lparr>nextIx := (nextIx (threadPool w) + 1) mod length (loops (threadPool w))\<rparr>)"
    using p(1) by (simp add: pool_ok_def)
  then show ?thesis
    using i ne getNextLoop_index [OF p(1,2)]
    by (simp add: newConnection_def Let_def i_def [symmetric] joins_def TcpConnection_def setKeepAlive_def
        log_call_def queue_on_def)
qed

lemma joinsD:
  assumes "joins i d w w'"
  shows "i \<in> set (loops (threadPool w))" "c \<noteq> nextObj w \<Longrightarrow> conns w' c = conns w c"
    "loopIx (conns w' (nextObj w)) = i" "connState (conns w' (nextObj w)) = KConnecting"
    "connName (conns w' (nextObj w)) = conn_name (serverName w) (ipPort w) (nextConnId w)"
    "sockFd (conns w' (nextObj w)) = d" "inputBuffer (conns w' (nextObj w)) = new_Buffer InitialSize"
    "outputBuffer (conns w' (nextObj w)) = new_Buffer InitialSize"
    "pol w' = (pol w)(i := set_chan (ChConn (nextObj w)) (\<lambda>_. Channel d) (pol w i))"
    "evl w' = (evl w)(i := queueInLoop False (FConnectEstablished (nextObj w)) (evl w i))"
    "connections w' = (connections w)(conn_name (serverName w) (ipPort w) (nextConnId w) \<mapsto> nextObj w)"
    "alive w' = (alive w)(nextObj w := True)" "nextConnId w' = nextConnId w + 1" "nextObj w' = nextObj w + 1"
    "serverName w' = serverName w" "ipPort w' = ipPort w" "baseIx w' = baseIx w"
    "loops (threadPool w') = loops (threadPool w)" "pool_ok (threadPool w')" "all_loops w' = all_loops w"
    "due b j w' = due b j w @ (if j = i then [FConnectEstablished (nextObj w)] else [])"
    "chan_of c w' = (if c = nextObj w then Channel d else chan_of c w)"
    "channels (pol w' j) = channels (pol w j)"
  using assms by (auto simp: joins_def all_loops_def due_def chan_of_def)

lemma joins_calls:
  assumes "joins i d w w'"
  obtains l peer r where
    "calls w' = calls w @ [CAccept l (Inr (d, peer)), CGetsockname d r, CSetopt d SO_KEEPALIVE True]"
  using assms by (auto simp: joins_def)

text \<open>The object is new: nothing refers to it.\<close>

lemma serving_new_object:
  assumes S: "serving a R K H b act w"
  shows "\<not> alive w (nextObj w)" "alive w c \<Longrightarrow> c < nextObj w"
    "j \<in> all_loops w \<Longrightarrow> f \<in> set (due b j w) \<Longrightarrow> keeps f \<noteq> Some (nextObj w)"
    "j \<in> all_loops w \<Longrightarrow> chIndex (chan (pol w j) (ChConn (nextObj w))) = New"
proof -
  show n: "\<not> alive w (nextObj w)" using servingD(8) [OF S, of "nextObj w"] by (auto simp: member_ok_def)
  show "alive w c \<Longrightarrow> c < nextObj w" using servingD(8) [OF S] by (simp add: member_ok_def)
  show "keeps f \<noteq> Some (nextObj w)" if "j \<in> all_loops w" "f \<in> set (due b j w)"
    using task_fine_keeps [OF servingT [OF S that]] n by auto
  show "chIndex (chan (pol w j) (ChConn (nextObj w))) = New" if j: "j \<in> all_loops w"
  proof (rule ccontr)
    assume "\<not> ?thesis"
    then have "hasChannel (ChConn (nextObj w)) (pol w j)"
      using servingD(4) [OF S j] by (auto simp: poller_ok_def keys_ok_def)
    then show False using serving_key(1) [OF S j] n by (auto simp: hasChannel_def)
  qed
qed

lemma joins_mapped:
  assumes S: "serving a R K H b act w" and J: "joins i d w w'" and n: "nextConnId w < 2 ^ 31 - 1"
    and c: "alive w c"
  shows "mapped c w' = mapped c w"
proof -
  have lt: "c < nextObj w" by (rule serving_new_object(2) [OF S c])
  have N: "ipv4_ok (sin_addr (fst a))" "ipPort w = toIpPort (fst a)" "nextConnId w = int (nextObj w) + 1"
    "connName (conns w c) = conn_name (serverName w) (ipPort w) (int c + 1)"
    using servingD(2) [OF S] lt by (simp_all add: naming_def)
  have bd: "\<bar>int c + 1\<bar> < 2 ^ 64" "\<bar>int (nextObj w) + 1\<bar> < 2 ^ 64" using lt n N(3) by auto
  have "connName (conns w c) \<noteq> conn_name (serverName w) (ipPort w) (nextConnId w)"
    using conn_name_inj [OF N(1) bd] lt unfolding N(2-4) by auto
  then show ?thesis using joinsD(2) [OF J, of c] lt by (simp add: mapped_def joinsD(11) [OF J])
qed

lemma joins_loop:
  assumes S: "serving a R K H b act w" and J: "joins i d w w'" and n: "nextConnId w < 2 ^ 31 - 1"
    and j: "j \<in> all_loops w"
  shows "poller_ok (pol w' j)" "channel_home R j w'" "tasks_fine b j w'" "heard K j w'"
    "x \<in> set (act j) \<Longrightarrow> hasChannel x (pol w' j)"
proof -
  note new = serving_new_object [OF S]
  have i: "i \<in> all_loops w" using joinsD(1) [OF J] by (simp add: all_loops_def)
  show "poller_ok (pol w' j)"
    using servingD(4) [OF S j] poller_ok_new_channel [OF servingD(4) [OF S i] new(4) [OF i], of d]
    by (simp add: joinsD(9) [OF J])
  have "home_ok R j w' e x" if x: "channels (pol w j) e = Some x" for e x
    using channel_homeD [OF servingD(5) [OF S j] x] new(1) joinsD(2) [OF J]
    by (cases x) (auto simp: joinsD(12) [OF J])
  then show "channel_home R j w'" by (simp add: channel_home_def joinsD(23) [OF J])
  show "heard K j w'"
    using servingD(9) [OF S j]
    by (auto simp: heard_def joinsD(9,10) [OF J] hasChannel_def queueInLoop_def Let_def)
  have tf: "task_fine j f w'" if t: "task_fine j f w" for f
  proof -
    obtain c where c: "keeps f = Some c" "alive w c" using task_fine_keeps [OF t] by blast
    have "conns w' c = conns w c" using joinsD(2) [OF J, of c] new(1) c(2) by auto
    moreover have "alive w' c = alive w c" using c(2) by (simp add: joinsD(12) [OF J])
    ultimately show ?thesis
      using t task_fine_cong [OF c(1) _ _ joinsD(17) [OF J] joins_mapped [OF S J n c(2)]] by simp
  qed
  have "FConnectEstablished (nextObj w) \<notin> set (due b j w)" using new(3) [OF j] by force
  moreover have "task_fine i (FConnectEstablished (nextObj w)) w'"
    by (simp add: task_fine_def joinsD(3,4,12) [OF J])
  ultimately show "tasks_fine b j w'"
    using servingD(6) [OF S j] tf by (auto simp: tasks_fine_def joinsD(21) [OF J])
  show "hasChannel x (pol w' j)" if x: "x \<in> set (act j)"
  proof -
    have h: "hasChannel x (pol w j)" by (rule servingD(7) [OF S j x])
    have "x \<noteq> ChConn (nextObj w)"
      using h new(4) [OF j] servingD(4) [OF S j] by (auto simp: poller_ok_def keys_ok_def)
    then show ?thesis using h by (auto simp: hasChannel_def joinsD(9) [OF J])
  qed
qed

lemma joins_member:
  assumes S: "serving a R K H b act w" and J: "joins i d w w'" and n: "nextConnId w < 2 ^ 31 - 1"
    and d: "d \<notin> R" and c: "alive w' c"
  shows "member_ok R H b c w'"
proof (cases "c = nextObj w")
  case True
  have "stage_ok H b c w'"
    by (simp add: True stage_ok_def mapped_def enlisted_def Channel_def index_defs joinsD(3-5,11,21,22) [OF J])
  then show ?thesis
    using True d joinsD(1) [OF J] by (simp add: member_ok_def joinsD(3-8,14,18,22) [OF J] Channel_def)
next
  case False
  have ac: "alive w c" using c False by (simp add: joinsD(12) [OF J])
  note M = servingD(8) [OF S ac]
  have cc: "conns w' c = conns w c" "chan_of c w' = chan_of c w" using joinsD(2,22) [OF J] False by simp_all
  have "stage_ok H b c w'"
    by (rule stage_cong [where w = w and b = b and H = H, OF cc(1) joins_mapped [OF S J n ac] cc(2)])
      (use M in \<open>auto simp: closing_due_def joinsD(17,21) [OF J] cc member_ok_def\<close>)
  then show ?thesis using M cc by (simp add: member_ok_def joinsD(14,18) [OF J])
qed

lemma joins_fixed:
  assumes S: "serving a R K H b act w" and J: "joins i d w w'" and n: "nextConnId w < 2 ^ 31 - 1"
    and d: "d \<notin> accepted (calls w)"
  shows "pool_fine w'" "naming a w'" "descriptors_ok w'"
proof -
  note new = serving_new_object [OF S]
  show "pool_fine w'" using servingD(1) [OF S] by (simp add: pool_fine_def joinsD(17-19) [OF J])
  show "naming a w'"
    using servingD(2) [OF S] joinsD(2) [OF J] n new(1)
    by (auto simp: naming_def joinsD(5,11-16,20) [OF J] less_Suc_eq)
  obtain l peer r where ca:
    "calls w' = (calls w @ [CAccept l (Inr (d, peer))]) @ [CGetsockname d r, CSetopt d SO_KEEPALIVE True]"
    using joins_calls [OF J] by auto
  have fds: "accepted (calls w') = insert d (accepted (calls w))" "closes_open {} (calls w')"
    using servingD(3) [OF S]
      inner_calls_accepted [of "[CGetsockname d r, CSetopt d SO_KEEPALIVE True]" "calls w @ [CAccept l (Inr (d, peer))]"]
    unfolding ca by (simp_all add: descriptors_ok_def)
  have img: "sockFd (conns w' c) = sockFd (conns w c)" if "alive w c" for c
    using joinsD(2) [OF J] new(1) that by metis
  have "{c. alive w' c} = insert (nextObj w) {c. alive w c}" by (auto simp: joinsD(12) [OF J])
  moreover have "(\<lambda>c. sockFd (conns w' c)) ` {c. alive w c} = (\<lambda>c. sockFd (conns w c)) ` {c. alive w c}"
    using img by (intro image_cong) simp_all
  moreover have "inj_on (\<lambda>c. sockFd (conns w' c)) {c. alive w c} =
      inj_on (\<lambda>c. sockFd (conns w c)) {c. alive w c}"
    using img by (intro inj_on_cong) simp
  ultimately show "descriptors_ok w'"
    using servingD(3) [OF S] d new(1) fds by (simp add: descriptors_ok_def joinsD(6) [OF J])
qed

lemma new_serving:
  assumes S: "serving a R K H b act w" and d: "d \<notin> R" "d \<notin> accepted (calls w)"
    and n: "nextConnId w < 2 ^ 31 - 1" and J: "joins i d w w'"
  shows "serving a R K H b act w'"
  using joins_loop [OF S J n] joins_member [OF S J n d(1)] joins_fixed [OF S J n d(2)]
  unfolding serving_def joinsD(20) [OF J] by blast

subsection \<open>The dispatch of an event\<close>

lemma handleEvent_total:
  assumes "I w" "\<And>k u. I u \<Longrightarrow> \<exists>v. run_cb cb t k u = Some v \<and> I v"
  shows "\<exists>v. handleEvent cb c True t w = Some v \<and> I v"
proof -
  have "\<exists>v. fold_opt (run_cb cb t) (dispatch (revents c)) w = Some v \<and> I v"
    by (rule fold_opt_total) (use assms in simp_all)
  then show ?thesis by (auto simp: handleEvent_def handleEventWithGuard_dispatch)
qed

lemma accept_refused:
  "os_accept (os1 env) (calls w) (acceptFd w) = Inl er \<Longrightarrow>
    Acceptor_handleRead env (Some (newConnection env (baseIx w))) peer0 w =
      Some (log_call (CAccept (acceptFd w) (Inl er)) w)"
  by (simp add: Acceptor_handleRead_def Socket_accept_def Let_def)

lemma accept_joins:
  assumes "pool_fine w" "os_accept (os1 env) (calls w) (acceptFd w) = Inr (d, peer)"
  shows "\<exists>w'. Acceptor_handleRead env (Some (newConnection env (baseIx w))) peer0 w = Some w' \<and>
    joins (loops (threadPool w) ! nextIx (threadPool w)) d w w'"
  using newConnection_joins [OF assms(1), of env d peer "acceptFd w"] assms(2)
  by (simp add: Acceptor_handleRead_def Socket_accept_def Let_def)

lemma accept_serving:
  assumes "machine_ok env R" "serving a R K H b act w" "nextConnId w < 2 ^ 31 - 1"
  shows "\<exists>w'. Acceptor_handleRead env (Some (newConnection env (baseIx w))) peer0 w = Some w' \<and>
    serving a R K H b act w'"
proof (cases "os_accept (os1 env) (calls w) (acceptFd w)")
  case (Inl e)
  have "serving a R K H b act (log_call (CAccept (acceptFd w) (Inl e)) w)"
    by (rule serving_quiet [OF assms(2)]) simp_all
  then show ?thesis using accept_refused [OF Inl] by simp
next
  case (Inr x)
  obtain d peer where x: "x = (d, peer)" by (cases x)
  have d: "d \<notin> R" "d \<notin> accepted (calls w)" using machine_okD(3) [OF assms(1)] Inr x by simp_all
  show ?thesis
    using accept_joins [OF servingD(1) [OF assms(2)] Inr [unfolded x], of peer0] new_serving [OF assms(2) d assms(3)]
    by blast
qed

text \<open>The acceptor has a read callback only, which one event calls at most once.\<close>

lemma acceptor_event_eq:
  "handleEvent (acceptor_callbacks env peer0) c True t w =
    (if revents c AND ReadEvent \<noteq> 0
     then Acceptor_handleRead env (Some (newConnection env (baseIx w))) peer0 w else Some w)"
  by (simp add: handleEvent_def handleEventWithGuard_def acceptor_callbacks_def call_def
      split: Option.bind_splits)

lemma acceptor_event:
  assumes "machine_ok env R" "serving a R K H b act w" "nextConnId w < 2 ^ 31 - 1"
  shows "\<exists>w'. handleEvent (acceptor_callbacks env peer0) c True t w = Some w' \<and> serving a R K H b act w'"
  using accept_serving [OF assms, of peer0] assms(2) by (simp add: acceptor_event_eq)

text \<open>An event of the acceptor does nothing, has its \<open>accept\<close> refused, or lets a connection in.\<close>

lemma acceptor_cases:
  assumes "handle_active env i peer0 t ChAcceptor w = Some w'" "pool_fine w"
  obtains "w' = w" | er where "w' = log_call (CAccept (acceptFd w) (Inl er)) w"
    | j d peer where "os_accept (os1 env) (calls w) (acceptFd w) = Inr (d, peer)" "joins j d w w'"
proof (cases "os_accept (os1 env) (calls w) (acceptFd w)")
  case (Inl er)
  then show ?thesis
    using assms(1) accept_refused [OF Inl, of peer0] that(1,2)
    by (auto simp: acceptor_event_eq split: if_splits)
next
  case (Inr x)
  obtain d peer where x: "x = (d, peer)" by (cases x)
  obtain u where u: "Acceptor_handleRead env (Some (newConnection env (baseIx w))) peer0 w = Some u"
    "joins (loops (threadPool w) ! nextIx (threadPool w)) d w u"
    using accept_joins [OF assms(2) Inr [unfolded x], of peer0] by blast
  have "w' = w \<or> w' = u" using assms(1) u(1) by (auto simp: acceptor_event_eq split: if_splits)
  then show ?thesis using that(1,3) u(2) Inr [unfolded x] by blast
qed

lemma wakeup_event:
  assumes "serving a R K H b act w" "i \<notin> K"
  shows "\<exists>w'. handleEvent (wakeup_callbacks i) c True t w = Some w' \<and> serving a R K H b act w'"
proof (rule handleEvent_total [where I = "serving a R K H b act"])
  fix k u
  assume S: "serving a R K H b act u"
  have "serving a R K H b act (u\<lparr>evl := (evl u)(i := handleRead (evl u i))\<rparr>)"
    by (rule serving_quiet [OF S]) (use assms(2) in auto)
  then show "\<exists>v. run_cb (wakeup_callbacks i) t k u = Some v \<and> serving a R K H b act v"
    using S by (cases k) (auto simp: wakeup_callbacks_def call_def)
qed (rule assms)

context connection_app
begin

lemma active_serving:
  assumes m: "machine_ok env R" and S: "serving a R K H b act w" and i: "i \<in> all_loops w"
    and x: "hasChannel x (pol w i)" and n: "nextConnId w < 2 ^ 31 - 1" and k: "i \<notin> K"
  shows "yields (no_sigpipe (os1 env)) (handle_active env i peer0 t x w) (serving a R K H b act)"
proof (cases x)
  case (ChConn cid)
  have k: "alive w cid" "loopIx (conns w cid) = i"
    using serving_key [OF S i] x ChConn by (auto simp: hasChannel_def)
  then have "enlisted cid w" using serving_enlisted [OF S k(1)] x ChConn by simp
  then show ?thesis using conn_event_serving [OF m S k(1)] ChConn k(1) by simp
next
  case ChAcceptor
  then show ?thesis using yieldsI [OF acceptor_event [OF m S n]] by simp
next
  case (ChWakeup j)
  then have "j = i" using channel_homeD [OF servingD(5) [OF S i]] x ChWakeup
    by (fastforce simp: hasChannel_def)
  then show ?thesis using yieldsI [OF wakeup_event [OF S k]] ChWakeup by simp
qed

end

end
