(* ===== verification/ServerTasks.thy ===== *)
theory ServerTasks
  imports ServerAccept
begin

text \<open>
  The tasks of the server's loops, the release of a connection, and the poll. Running a task
  takes it from the batch of its loop.
\<close>

subsection \<open>Registration at the start and the end of a connection's life\<close>

lemma tie_change:
  "conn_ok env cid w \<Longrightarrow> conn_change cid w (tie_channel cid (setState cid st w))"
  by (auto simp: conn_change_def tie_channel_def Let_def)

lemma establish_change:
  assumes "conn_ok env cid w"
  shows "\<exists>u. on_chan env cid enableReading (tie_channel cid (setState cid KConnected w)) = Some u \<and>
    conn_ok env cid u \<and> conn_change cid w u \<and> connState (conns u cid) = KConnected \<and>
    enlisted cid u \<and> attentive cid u"
proof -
  define v where "v = tie_channel cid (setState cid KConnected w)"
  have v: "conn_ok env cid v" "conn_change cid w v" "connState (conns v cid) = KConnected"
    using assms tie_change [OF assms] by (simp_all add: v_def)
  define ev where "ev = events (chan_of cid v) OR ReadEvent"
  have "ev AND ReadEvent \<noteq> 0" by (simp add: ev_def bit.conj_disj_distrib2 channel_masks)
  then obtain u where "on_events env cid ev v = Some u" "conn_ok env cid u" "conn_change cid v u"
    "conns u = conns v" "enlisted cid u" "attentive cid u"
    using on_events_change [OF v(1), of ev] by blast
  then show ?thesis
    using v conn_change_trans [OF v(2)] by (auto simp: v_def on_chan_events ev_def)
qed

lemma remove_change:
  assumes "conn_ok env cid w"
  shows "\<exists>u. on_chan env cid removeChannel w = Some u \<and> conn_ok env cid u \<and> conn_change cid w u \<and>
    conns u = conns w \<and> \<not> enlisted cid u \<and> calls u = calls w \<and> events (chan_of c u) = events (chan_of c w)"
proof -
  define i where "i = loopIx (conns w cid)"
  have a: "epoll_ok (ker env i)" "poller_ok (pol w i)" "owns_fd (ChConn cid) (pol w i)"
    and fd: "chFd (chan (pol w i) (ChConn cid)) = sockFd (conns w cid)"
    using assms by (auto simp: conn_ok_def i_def Let_def chan_of_def)
  obtain q where q: "removeChannel (ker env i) (ChConn cid) (pol w i) = Some q"
    "channels q = (channels (pol w i))(sockFd (conns w cid) := None)"
    "chan q = (chan (pol w i))(ChConn cid := (chan (pol w i) (ChConn cid))\<lparr>chIndex := New\<rparr>)"
    using removeChannel_ok [OF a] unfolding fd by blast
  obtain u where u: "on_chan env cid removeChannel w = Some u" "conn_ok env cid u"
    "chIndex (chan_of cid u) = New"
    using on_remove_ok [OF assms] by blast
  have "u = w\<lparr>pol := (pol w)(i := q)\<rparr>" using u(1) q(1) by (simp add: on_chan_def i_def [symmetric])
  then have "conn_change cid w u" "conns u = conns w" "calls u = calls w" "events (chan_of c u) = events (chan_of c w)"
    by (auto simp: conn_change_def q(2,3) i_def [symmetric] chan_of_def)
  then show ?thesis using u by (simp add: enlisted_def)
qed

subsection \<open>One task\<close>

text \<open>
  What a task leaves alone: the objects that exist, which connections are closed, the queue of its own
  loop and, off the base loop, every queue.
\<close>

definition task_effect :: "nat \<Rightarrow> server \<Rightarrow> server \<Rightarrow> bool" where
  "task_effect i w w' \<longleftrightarrow> baseIx w' = baseIx w \<and> alive w' = alive w \<and> (\<forall>c. closed c w' = closed c w) \<and>
     pendingFunctors (evl w' i) = pendingFunctors (evl w i) \<and> (i \<noteq> baseIx w \<longrightarrow> evl w' = evl w)"

lemma task_effect_refl: "task_effect i w w"
  by (simp add: task_effect_def)

lemma task_effect_trans: "task_effect i u v \<Longrightarrow> task_effect i v w \<Longrightarrow> task_effect i u w"
  by (simp add: task_effect_def)

lemma change_effect:
  assumes "conn_change cid w w'" "closed cid w' = closed cid w"
  shows "task_effect i w w'"
proof -
  have "closed c w' = closed c w" for c
    using assms by (cases "c = cid") (auto simp: conn_change_def closed_def)
  then show ?thesis
    using conn_changeD(2) [OF assms(1)] same_server(2,3) [OF conn_changeD(6) [OF assms(1)]]
    by (simp add: task_effect_def)
qed

lemma due_run:
  assumes "b i = f # fs"
  shows "due b i w = f # due (b(i := fs)) i w" "j \<noteq> i \<Longrightarrow> due (b(i := fs)) j w = due b j w"
  using assms by (simp_all add: due_def)

lemma others_run:
  assumes "b i = f # fs" "keeps f = Some cid"
  shows "others cid (due (b(i := fs)) j w) = others cid (due b j w)"
  using assms by (cases "j = i") (simp_all add: due_def others_def)

lemma due_subset: "b i = f # fs \<Longrightarrow> set (due (b(i := fs)) j w) \<subseteq> set (due b j w)"
  by (auto simp: due_def)

lemma est_run:
  "b i = f # fs \<Longrightarrow> tasks_fine b j w \<Longrightarrow> distinct (filter is_est (due (b(i := fs)) j w))"
  by (cases "j = i") (auto simp: tasks_fine_def due_def split: if_splits)

text \<open>\<open>connectEstablished\<close>.\<close>

lemma established_serving:
  assumes m: "machine_ok env R" and S: "serving a R K H b act w" and i: "i \<in> all_loops w"
    and b: "b i = FConnectEstablished cid # fs"
    and u: "conn_ok env cid u" "conn_change cid w u" "connState (conns u cid) = KConnected"
      "enlisted cid u" "attentive cid u"
  shows "serving a R K (insert cid H) (b(i := fs)) act u"
proof -
  have t: "task_fine i (FConnectEstablished cid) w"
    using servingT [OF S i] b by (simp add: due_def)
  then have c: "alive w cid" "loopIx (conns w cid) = i" "connState (conns w cid) = KConnecting"
    by (simp_all add: task_fine_def)
  note D = conn_changeD [OF u(2)]
  have st: "stage_ok H b cid w" using servingD(8) [OF S c(1)] by (simp add: member_ok_def)
  have mp: "mapped cid u" using st same_server(1) [OF D(6)] by (simp add: stage_ok_def c(3) mapped_def D(4))
  have du: "due b' j u = due b' j w" for b' j by (simp add: due_def D(2))
  have none: "keeps f \<noteq> Some cid" if j: "j \<in> all_loops w" and f: "f \<in> set (due (b(i := fs)) j w)" for j f
  proof
    assume k: "keeps f = Some cid"
    have tf: "task_fine j f w" using servingT [OF S j] f due_subset [of b i, OF b, of j w] by blast
    then have "f = FConnectEstablished cid \<and> j = i"
      using k c(2,3) by (cases f) (auto simp: task_fine_def)
    moreover have "FConnectEstablished cid \<notin> set (due (b(i := fs)) i w)"
      using servingD(6) [OF S i] due_run(1) [of b i, OF b] by (auto simp: tasks_fine_def)
    ultimately show False using f by simp
  qed
  show ?thesis
  proof (rule serving_step [OF S c(1) u(2,1) refl refl refl D(3)])
    show "others cid (due (b(i := fs)) j u) = others cid (due b j w)" for j
      using others_run [of b i, OF b] by (simp add: du)
    show "task_fine j f u" if "j \<in> all_loops w" "f \<in> set (due (b(i := fs)) j u)" "keeps f = Some cid" for j f
      using none that by (simp add: du)
    show "distinct (filter is_est (due (b(i := fs)) j u))" if "j \<in> all_loops w" for j
      using est_run [of b i, OF b servingD(6) [OF S that]] by (simp add: du)
    show "stage_ok (insert cid H) (b(i := fs)) cid u" using u(3,5) mp by (simp add: stage_ok_def)
  qed (use u(4) D(2) rung [OF S] in auto)
qed

text \<open>\<open>connectDestroyed\<close> of a closed connection.\<close>

lemma destroyed_serving:
  assumes m: "machine_ok env R" and S: "serving a R K H b act w" and i: "i \<in> all_loops w"
    and b: "b i = FConnectDestroyed cid # fs" and act: "act i = []"
    and u: "conn_ok env cid u" "conn_change cid w u" "conns u = conns w" "\<not> enlisted cid u"
  shows "serving a R K (insert cid H) (b(i := fs)) act u"
proof -
  have t: "task_fine i (FConnectDestroyed cid) w"
    using servingT [OF S i] b by (simp add: due_def)
  then have c: "alive w cid" "loopIx (conns w cid) = i" "connState (conns w cid) = KDisconnected"
    "\<not> mapped cid w"
    by (simp_all add: task_fine_def)
  note D = conn_changeD [OF u(2)]
  note eq = same_server [OF D(6)]
  have mp: "mapped cid u = mapped cid w" by (simp add: mapped_def D(4) eq)
  have du: "due b' j u = due b' j w" for b' j by (simp add: due_def D(2))
  show ?thesis
  proof (rule serving_step [OF S c(1) u(2,1) refl refl refl D(3)])
    show "others cid (due (b(i := fs)) j u) = others cid (due b j w)" for j
      using others_run [of b i, OF b] by (simp add: du)
    show "task_fine j f u"
      if j: "j \<in> all_loops w" and f: "f \<in> set (due (b(i := fs)) j u)" "keeps f = Some cid" for j f
    proof -
      have "task_fine j f w" using servingT [OF S j] f(1) due_subset [of b i, OF b, of j w] by (auto simp: du)
      then show ?thesis using f(2) by (cases f) (auto simp: task_fine_def u(3) eq mp)
    qed
    show "distinct (filter is_est (due (b(i := fs)) j u))" if "j \<in> all_loops w" for j
      using est_run [of b i, OF b servingD(6) [OF S that]] by (simp add: du)
    show "stage_ok (insert cid H) (b(i := fs)) cid u" using c(3,4) u(3,4) mp by (simp add: stage_ok_def)
  qed (use act c(2) D(2) rung [OF S] in auto)
qed

text \<open>\<open>removeConnectionInLoop\<close>.\<close>

lemma removed_serving:
  assumes m: "machine_ok env R" and S: "serving a R K H b act w"
    and b: "b i = FRemoveConnectionInLoop cid # fs" and i: "i \<in> all_loops w"
  shows "serving a R K (insert cid H) (b(i := fs)) act (removeConnectionInLoop i cid w)"
proof -
  define v where "v = w\<lparr>connections := (connections w)(connName (conns w cid) := None)\<rparr>"
  define w' where "w' = queue_on i (loopIx (conns w cid)) (FConnectDestroyed cid) v"
  have t: "task_fine i (FRemoveConnectionInLoop cid) w"
    using servingT [OF S i] b by (simp add: due_def)
  then have c: "alive w cid" "i = baseIx w" "connState (conns w cid) = KDisconnected"
    by (simp_all add: task_fine_def)
  have ne: "loopIx (conns w cid) \<noteq> i"
    using servingD(1) [OF S] servingD(8) [OF S c(1)] c(2) by (auto simp: pool_fine_def member_ok_def)
  have k: "kept cid w w'" "\<not> mapped cid w'"
    by (simp_all add: kept_def w'_def v_def queue_on_def mapped_def)
  have ws: "conns w' = conns w" "pol w' = pol w" "calls w' = calls w" "alive w' = alive w"
    "baseIx w' = baseIx w"
    by (simp_all add: w'_def v_def queue_on_def)
  have du: "due b' j w' = due b' j w @
      (if j = loopIx (conns w cid) then [FConnectDestroyed cid] else [])" for b' j
    by (simp add: due_def w'_def v_def)
  have en: "enlisted cid w' = enlisted cid w" by (simp add: enlisted_def chan_of_def ws)
  have "serving a R K (insert cid H) (b(i := fs)) act w'"
  proof (rule serving_step [OF S c(1) conn_change_refl serving_conn_ok [OF m S c(1)] ws(1-3) k(1)])
    show "others cid (due (b(i := fs)) j w') = others cid (due b j w)" for j
      using others_run [of b i, OF b, of cid j w] by (simp add: du others_def)
    show "task_fine j f w'"
      if j: "j \<in> all_loops w" and f: "f \<in> set (due (b(i := fs)) j w')" "keeps f = Some cid" for j f
    proof -
      have "f = FConnectDestroyed cid \<and> j = loopIx (conns w cid) \<or> task_fine j f w"
        using servingT [OF S j] f(1) due_subset [of b i, OF b, of j w] by (auto simp: du split: if_splits)
      then show ?thesis using f(2) c(1,3) k(2) by (cases f) (auto simp: task_fine_def ws)
    qed
    show "distinct (filter is_est (due (b(i := fs)) j w'))" if "j \<in> all_loops w" for j
      using est_run [of b i, OF b servingD(6) [OF S that]] by (simp add: du)
    show "stage_ok (insert cid H) (b(i := fs)) cid w'"
      by (simp add: stage_ok_def ws c(3) closing_due_def du)
    show "enlisted cid w'" if "ChConn cid \<in> set (act (loopIx (conns w cid)))"
      using servingD(7) [OF S serving_loop [OF S c(1)] that] serving_enlisted [OF S c(1)] en by simp
  next
    show "0 < counter (evl w' j)" if "j \<in> all_loops w" "j \<in> K" "pendingFunctors (evl w' j) \<noteq> []" for j
      by (rule rung [OF S that(1) _ that(2,3)]) (use ne in \<open>auto simp: w'_def v_def\<close>)
  qed auto
  then show ?thesis by (simp add: removeConnectionInLoop_def w'_def v_def)
qed

context connection_app
begin

lemma task_serving:
  assumes m: "machine_ok env R" and S: "serving a R K H b act w" and i: "i \<in> all_loops w"
    and b: "b i = f # fs" and act: "act i = []"
  shows "\<exists>w'. run_task env i f w = Some w' \<and> task_effect i w w' \<and>
    serving a R K (set_option (keeps f) \<union> H) (b(i := fs)) act w'"
proof -
  have t: "task_fine i f w" using servingT [OF S i] b by (simp add: due_def)
  show ?thesis
  proof (cases f)
    case (FConnectEstablished cid)
    have "alive w cid" and k: "connState (conns w cid) = KConnecting"
      using t FConnectEstablished by (simp_all add: task_fine_def)
    then have ok: "conn_ok (server_env env) cid w" using serving_conn_ok [OF m S] by simp
    obtain u where u: "on_chan (server_env env) cid enableReading
        (tie_channel cid (setState cid KConnected w)) = Some u" "conn_ok env cid u"
      "conn_change cid w u" "connState (conns u cid) = KConnected" "enlisted cid u" "attentive cid u"
      using establish_change [OF ok] by auto
    obtain v where v: "invoke (onConnection (server_env env)) cid u = Some v" "handler_ok env cid u v"
      using connection_law' [OF u(2)] by blast
    have "conn_change cid w v" using conn_change_trans [OF u(3)] v(2) by (simp add: handler_ok_def)
    moreover have "closed cid v = closed cid w" using u(4) v(2) k by (simp add: handler_ok_def closed_def)
    ultimately have "task_effect i w v" by (rule change_effect)
    moreover have "serving a R K (insert cid H) (b(i := fs)) act v"
      using established_serving [OF m S i, of cid fs v] b FConnectEstablished u(3-6) v(2)
      by (auto simp: handler_ok_def intro: conn_change_trans)
    ultimately show ?thesis
      using u(1) v(1) FConnectEstablished \<open>alive w cid\<close>
      by (simp add: run_task_def task_live_def connectEstablished_def)
  next
    case (FConnectDestroyed cid)
    have c: "alive w cid" "connState (conns w cid) = KDisconnected"
      using t FConnectDestroyed by (simp_all add: task_fine_def)
    then have ok: "conn_ok (server_env env) cid w" using serving_conn_ok [OF m S] by simp
    obtain u where u: "on_chan (server_env env) cid removeChannel w = Some u" "conn_ok env cid u"
      "conn_change cid w u" "conns u = conns w" "\<not> enlisted cid u"
      using remove_change [OF ok] by auto
    have "task_effect i w u" by (rule change_effect [OF u(3)]) (simp add: u(4) closed_def)
    moreover have "serving a R K (insert cid H) (b(i := fs)) act u"
      using destroyed_serving [OF m S i _ act u(2-5)] b FConnectDestroyed by simp
    ultimately show ?thesis
      using u(1) c FConnectDestroyed by (simp add: run_task_def task_live_def connectDestroyed_def)
  next
    case (FRemoveConnectionInLoop cid)
    have c: "alive w cid" "i = baseIx w" using t FRemoveConnectionInLoop by (simp_all add: task_fine_def)
    have "loopIx (conns w cid) \<noteq> i"
      using servingD(1) [OF S] servingD(8) [OF S c(1)] c(2) by (auto simp: pool_fine_def member_ok_def)
    then have "task_effect i w (removeConnectionInLoop i cid w)"
      using c(2) by (simp add: task_effect_def removeConnectionInLoop_def queue_on_def closed_def)
    then show ?thesis
      using FRemoveConnectionInLoop removed_serving [OF m S, of i cid fs] i b c(1)
      by (simp add: run_task_def task_live_def)
  qed (use t in \<open>simp_all add: task_fine_def\<close>)
qed

end

end
