(* ===== verification/ServerRuns.thy ===== *)
theory ServerRuns
  imports ServerTasks
begin

text \<open>
  The invariant of the running system, for any interleaving of the loops' threads: the
  preservation by every step of \<open>srv_step\<close>, and the absence of failures.
\<close>

subsection \<open>Release of a connection\<close>

lemma dtor_sel:
  fixes w :: server and cid :: nat
  defines "w' \<equiv> TcpConnection_dtor cid w"
  shows "conns w' = conns w" "pol w' = pol w" "evl w' = evl w" "connections w' = connections w"
    "alive w' = (alive w)(cid := False)" "calls w' = calls w @ [CClose (sockFd (conns w cid))]"
    "baseIx w' = baseIx w" "threadPool w' = threadPool w" "nextObj w' = nextObj w"
    "nextConnId w' = nextConnId w" "serverName w' = serverName w" "ipPort w' = ipPort w"
    "all_loops w' = all_loops w" "due b i w' = due b i w" "mapped d w' = mapped d w"
    "chan_of d w' = chan_of d w"
  by (simp_all add: w'_def TcpConnection_dtor_def Socket_dtor_def log_call_def all_loops_def due_def
      mapped_def chan_of_def)

text \<open>A connection that nobody holds is in no poller.\<close>

lemma unheld_unlisted:
  assumes S: "serving a R K H b act w" and al: "alive w cid" and nm: "\<not> mapped cid w"
    and nd: "\<And>i f. i \<in> all_loops w \<Longrightarrow> f \<in> set (due b i w) \<Longrightarrow> keeps f \<noteq> Some cid"
  shows "\<not> enlisted cid w" "i \<in> all_loops w \<Longrightarrow> channels (pol w i) d \<noteq> Some (ChConn cid)"
proof -
  have "\<not> closing_due b cid w"
    using nd [OF serving_loop [OF S al]] nd [of "baseIx w"] by (fastforce simp: closing_due_def all_loops_def)
  then show ne: "\<not> enlisted cid w"
    using servingD(8) [OF S al] nm by (auto simp: member_ok_def stage_ok_def split: StateE.splits)
  show "channels (pol w i) d \<noteq> Some (ChConn cid)" if i: "i \<in> all_loops w"
  proof
    assume x: "channels (pol w i) d = Some (ChConn cid)"
    have "chFd (chan (pol w i) (ChConn cid)) = d"
      using servingD(4) [OF S i] x by (auto simp: poller_ok_def keys_ok_def)
    then have "hasChannel (ChConn cid) (pol w i)" using x by (simp add: hasChannel_def)
    then show False using ne serving_enlisted [OF S al] serving_key(2) [OF S i x] by simp
  qed
qed

lemma released_descriptors:
  assumes "descriptors_ok w" "alive w cid"
  shows "descriptors_ok (TcpConnection_dtor cid w)"
proof -
  have inj: "inj_on (\<lambda>c. sockFd (conns w c)) {c. alive w c}" using assms(1) by (simp add: descriptors_ok_def)
  have "(\<lambda>c. sockFd (conns w c)) ` ({c. alive w c} - {cid}) =
      (\<lambda>c. sockFd (conns w c)) ` {c. alive w c} - {sockFd (conns w cid)}"
    using inj_on_image_set_diff [OF inj, of "{c. alive w c}" "{cid}"] assms(2) by auto
  moreover have "{c. alive (TcpConnection_dtor cid w) c} = {c. alive w c} - {cid}" by (auto simp: dtor_sel)
  ultimately show ?thesis
    using assms by (auto simp: descriptors_ok_def dtor_sel(1,6) intro: inj_on_subset)
qed

lemma released_serving:
  assumes S: "serving a R K H b act w" and al: "alive w cid" and nm: "\<not> mapped cid w"
    and nd: "\<And>i f. i \<in> all_loops w \<Longrightarrow> f \<in> set (due b i w) \<Longrightarrow> keeps f \<noteq> Some cid"
  shows "serving a R K H b act (TcpConnection_dtor cid w)"
proof -
  define w' where "w' = TcpConnection_dtor cid w"
  note ws = dtor_sel [where cid = cid and w = w, folded w'_def]
  have loop_ok: "poller_ok (pol w' i)" "channel_home R i w'" "tasks_fine b i w'" "heard K i w'"
    "\<forall>x \<in> set (act i). hasChannel x (pol w' i)" if i: "i \<in> all_loops w" for i
  proof -
    show "poller_ok (pol w' i)" "\<forall>x \<in> set (act i). hasChannel x (pol w' i)" "heard K i w'"
      using servingD(4,7,9) [OF S i] by (simp_all add: ws heard_def)
    have "home_ok R i w' d x" if x: "channels (pol w i) d = Some x" for d x
      using channel_homeD [OF servingD(5) [OF S i] x] unheld_unlisted(2) [OF S al nm nd i] x
      by (cases x) (auto simp: ws)
    then show "channel_home R i w'" by (simp add: channel_home_def ws)
    have "task_fine i f w'" if f: "f \<in> set (due b i w)" for f
    proof -
      note t = servingT [OF S i f]
      obtain d where d: "keeps f = Some d" using task_fine_keeps [OF t] by blast
      then have "d \<noteq> cid" using nd [OF i f] by auto
      then show ?thesis using t task_fine_cong [OF d, of w' w] by (simp add: ws)
    qed
    then show "tasks_fine b i w'" using servingD(6) [OF S i] by (simp add: tasks_fine_def ws)
  qed
  have mem: "member_ok R H b d w'" if "alive w' d" for d
  proof -
    have d: "alive w d" using that by (simp add: ws split: if_splits)
    have "stage_ok H b d w' = stage_ok H b d w"
      by (simp add: stage_ok_def ws enlisted_def attentive_def closing_due_def split: StateE.split)
    then show ?thesis using servingD(8) [OF S d] by (simp add: member_ok_def ws)
  qed
  have "descriptors_ok w'" unfolding w'_def by (rule released_descriptors [OF servingD(3) [OF S] al])
  moreover have "naming a w'" using servingD(2) [OF S] nm by (auto simp: naming_def ws mapped_def)
  moreover have "pool_fine w'" using servingD(1) [OF S] by (simp add: pool_fine_def ws)
  ultimately have "serving a R K H b act w'"
    using loop_ok mem unfolding serving_def ws(13) by blast
  then show ?thesis by (simp add: w'_def)
qed


subsection \<open>The connections in the hands of tasks already called\<close>

definition kept_by :: "task list \<Rightarrow> nat set" where
  "kept_by fs = {cid. Some cid \<in> keeps ` set fs}"

definition called :: "sys \<Rightarrow> nat set" where
  "called s = (\<Union>j \<in> all_loops (srv s). kept_by (finished s j))"

text \<open>The loops that wait in \<open>epoll_wait\<close>, are about to, or run tasks: none of their channels is active.\<close>

definition still :: "sys \<Rightarrow> nat set" where
  "still s = {i. phase s i \<noteq> Handling}"

definition sys_ok :: "sockaddr_in \<times> nat set \<Rightarrow> fd set \<Rightarrow> sys \<Rightarrow> bool" where
  "sys_ok a R s \<longleftrightarrow> serving a R (still s) (called s) (batch s) (active s) (srv s) \<and>
     (\<forall>i. phase s i \<noteq> Handling \<longrightarrow> active s i = []) \<and>
     (\<forall>i. phase s i \<noteq> Running \<longrightarrow> batch s i = [] \<and> finished s i = [])"

lemma kept_by_sel [simp]:
  "kept_by [] = {}" "kept_by (f # fs) = set_option (keeps f) \<union> kept_by fs"
  "kept_by (fs @ gs) = kept_by fs \<union> kept_by gs"
proof -
  show "kept_by (f # fs) = set_option (keeps f) \<union> kept_by fs"
    by (cases "keeps f") (auto simp: kept_by_def)
qed (auto simp: kept_by_def)

lemma serving_all_loops: "serving a R K H b act w \<Longrightarrow> all_loops w = snd a"
  using servingD(2) by (simp add: naming_def)

lemma serving_mono:
  assumes "serving a R K H b act w" "H \<subseteq> H'" "\<And>i. set (act' i) \<subseteq> set (act i)"
  shows "serving a R K H' b act' w"
proof -
  have "stage_ok H' b d w" if "stage_ok H b d w" for d
    by (rule stage_cong [OF refl refl refl _ _ that assms(2)])
  then show ?thesis using assms(1,3) by (fastforce simp: serving_def member_ok_def)
qed

text \<open>A hold can be given up when another one remains.\<close>

lemma serving_unhold:
  assumes S: "serving a R K (insert cid H) b act w"
    and h: "cid \<in> H \<or> \<not> alive w cid \<or> mapped cid w \<or>
      (\<exists>i \<in> all_loops w. \<exists>f \<in> set (due b i w). keeps f = Some cid)"
  shows "serving a R K H b act w"
proof -
  have "stage_ok H b d w" if d: "alive w d" for d
  proof -
    have st: "stage_ok (insert cid H) b d w" using servingD(8) [OF S d] by (simp add: member_ok_def)
    have "closing_due b cid w" if c: "connState (conns w cid) = KDisconnected" "alive w cid"
      "i \<in> all_loops w" "f \<in> set (due b i w)" "keeps f = Some cid" for i f
      using servingT [OF S c(3,4)] c by (cases f) (auto simp: task_fine_def closing_due_def)
    then show ?thesis using st h d
      by (cases "d = cid") (auto simp: stage_ok_def split: StateE.splits)
  qed
  then show ?thesis using S by (auto simp: serving_def member_ok_def)
qed

lemma drop_ref_sel [simp]:
  "phase (drop_ref f s) = phase s" "active (drop_ref f s) = active s"
  "batch (drop_ref f s) = batch s" "finished (drop_ref f s) = finished s"
  "all_loops (srv (drop_ref f s)) = all_loops (srv s)"
  by (simp_all add: drop_ref_def all_loops_def TcpConnection_dtor_def Socket_dtor_def log_call_def
      split: option.split)

lemma kept_by_iff: "cid \<in> kept_by fs \<longleftrightarrow> (\<exists>f \<in> set fs. keeps f = Some cid)"
  by (auto simp: kept_by_def) (metis image_eqI)

lemma held_iff:
  "held cid s \<longleftrightarrow> mapped cid (srv s) \<or> cid \<in> called s \<or>
     (\<exists>i \<in> all_loops (srv s). \<exists>f \<in> set (due (batch s) i (srv s)). keeps f = Some cid)"
proof -
  have "held cid s \<longleftrightarrow> mapped cid (srv s) \<or>
      (\<exists>i \<in> all_loops (srv s). cid \<in> kept_by (pendingFunctors (evl (srv s) i))) \<or>
      (\<exists>j \<in> all_loops (srv s). cid \<in> kept_by (batch s j @ finished s j))"
    by (simp add: held_def referenced_def mapped_def all_loops_def kept_by_def)
  moreover have "(\<exists>f \<in> set (due (batch s) i (srv s)). keeps f = Some cid) \<longleftrightarrow>
      cid \<in> kept_by (batch s i) \<or> cid \<in> kept_by (pendingFunctors (evl (srv s) i))" for i
    unfolding due_def kept_by_iff by auto
  moreover have "cid \<in> called s \<longleftrightarrow> (\<exists>j \<in> all_loops (srv s). cid \<in> kept_by (finished s j))"
    by (simp add: called_def)
  ultimately show ?thesis by (auto simp only: kept_by_sel Un_iff)
qed

lemma drop_ref_serving:
  assumes S: "serving a R K (called s \<union> kept_by (f # fs)) (batch s) (active s) (srv s)"
  shows "serving a R K (called (drop_ref f s) \<union> kept_by fs) (batch s) (active s) (srv (drop_ref f s))"
proof (cases "keeps f")
  case None
  then show ?thesis using S by (simp add: drop_ref_def)
next
  case (Some cid)
  define t where "t = drop_ref f s"
  have c: "called t = called s" by (simp add: called_def t_def)
  have S': "serving a R K (insert cid (called s \<union> kept_by fs)) (batch s) (active s) (srv s)"
    using S Some by simp
  show ?thesis
  proof (cases "alive (srv s) cid \<and> \<not> held cid s")
    case True
    then have t: "srv t = TcpConnection_dtor cid (srv s)" by (simp add: t_def drop_ref_def Some)
    have "serving a R K (insert cid (called s \<union> kept_by fs)) (batch s) (active s) (srv t)"
      unfolding t
    proof (rule released_serving [OF S'])
      show "alive (srv s) cid" "\<not> mapped cid (srv s)" using True by (simp_all add: held_iff)
      show "keeps f \<noteq> Some cid"
        if "i \<in> all_loops (srv s)" "f \<in> set (due (batch s) i (srv s))" for i f
        using True that unfolding held_iff by blast
    qed
    moreover have "\<not> alive (srv t) cid"
      by (simp add: t TcpConnection_dtor_def Socket_dtor_def log_call_def)
    ultimately have "serving a R K (called s \<union> kept_by fs) (batch s) (active s) (srv t)"
      by (blast intro: serving_unhold)
    then show ?thesis using c by (simp add: t_def)
  next
    case False
    then have t: "t = s" using Some by (auto simp: t_def drop_ref_def)
    have "serving a R K (called s \<union> kept_by fs) (batch s) (active s) (srv s)"
      by (rule serving_unhold [OF S']) (use False in \<open>unfold held_iff, blast\<close>)
    then show ?thesis using t by (simp add: t_def)
  qed
qed

lemma drop_refs_serving:
  assumes "serving a R K (called s \<union> kept_by fs) (batch s) (active s) (srv s)"
  shows "serving a R K (called (fold drop_ref fs s)) (batch s) (active s) (srv (fold drop_ref fs s)) \<and>
    phase (fold drop_ref fs s) = phase s \<and> active (fold drop_ref fs s) = active s \<and>
    batch (fold drop_ref fs s) = batch s \<and> finished (fold drop_ref fs s) = finished s"
  using assms
proof (induction fs arbitrary: s)
  case (Cons f fs)
  then show ?case using drop_ref_serving [OF Cons.prems] Cons.IH [of "drop_ref f s"] by simp
qed simp


subsection \<open>The steps of the loops\<close>

lemma poll_effect:
  assumes "events_ok r p" "poller_ok p" "poll r [] p = (cs, q)"
  shows "same_reg p q \<and> (\<forall>x \<in> set cs. hasChannel x q)"
proof (cases "\<exists>evs. r = Inr evs \<and> evs \<noteq> []")
  case False
  then have "cs = [] \<and> q = p" using assms(3) by (cases r) (auto simp: poll_def)
  then show ?thesis using same_reg_refl [OF assms(2)] by simp
next
  case True
  then obtain evs where r: "r = Inr evs" by blast
  have e: "distinct (map snd evs)" "\<And>x. x \<in> snd ` set evs \<Longrightarrow> \<exists>d m. interest (ctlTrace p) d = Some (m, x)"
    using assms(1) by (auto simp: events_ok_def r)
  note P = poll_delivers [OF e(1), of 0 "[]" p, unfolded r [symmetric] assms(3) fst_conv snd_conv append_Nil]
  have cs: "cs = map snd evs" and reg: "channels q = channels p" "ctlTrace q = ctlTrace p"
    and one: "\<And>ev c. (ev, c) \<in> set evs \<Longrightarrow> chan q c = (chan p c)\<lparr>revents := ev\<rparr>"
    and oth: "\<And>c. c \<notin> snd ` set evs \<Longrightarrow> chan q c = chan p c"
    using P by blast+
  have ch: "\<exists>v. chan q x = (chan p x)\<lparr>revents := v\<rparr>" for x
  proof (cases "x \<in> snd ` set evs")
    case True
    then show ?thesis using one by force
  next
    case False
    then show ?thesis using oth by (intro exI [of _ "revents (chan p x)"]) simp
  qed
  then have sel: "chFd (chan q x) = chFd (chan p x) \<and> events (chan q x) = events (chan p x) \<and>
      chIndex (chan q x) = chIndex (chan p x)" for x
    by (metis channel.select_convs(1,2,4) channel.surjective channel.update_convs(3))
  have has: "hasChannel x q = hasChannel x p" for x by (simp add: hasChannel_def reg(1) sel)
  have "wanted q = wanted p" by (simp add: wanted_def fun_eq_iff reg(1) sel split: option.split)
  then have "poller_ok q"
    using assms(2) has by (simp add: poller_ok_def keys_ok_def reg sel)
  then have "same_reg p q" using ch reg(1) by (simp add: same_reg_def)
  moreover have "hasChannel x q" if x: "x \<in> set cs" for x
  proof -
    obtain d m where d: "interest (ctlTrace p) d = Some (m, x)" using e(2) [of x] x cs by (metis set_map)
    then have "channels p d = Some x"
      using assms(2) by (auto simp: poller_ok_def wanted_def split: option.splits if_splits)
    moreover from this have "chFd (chan p x) = d" using assms(2) by (auto simp: poller_ok_def keys_ok_def)
    ultimately show ?thesis by (simp add: has) (simp add: hasChannel_def)
  qed
  ultimately show ?thesis by blast
qed

lemma still_sel [simp]:
  "still (s\<lparr>srv := w, active := act\<rparr>) = still s"
  "still (s\<lparr>srv := w, batch := b, finished := d\<rparr>) = still s"
  "still (s\<lparr>srv := w, phase := (phase s)(i := Running), batch := b\<rparr>) = insert i (still s)"
  "still (s\<lparr>srv := w, phase := (phase s)(i := Handling), active := act\<rparr>) = still s - {i}"
  "phase s i = Running \<Longrightarrow> still (s\<lparr>srv := w, phase := (phase s)(i := Waiting), finished := d\<rparr>) = still s"
  by (auto simp: still_def)

lemma sys_okD:
  assumes "sys_ok a R s"
  shows "serving a R (still s) (called s) (batch s) (active s) (srv s)"
    "phase s i \<noteq> Handling \<Longrightarrow> active s i = []" "phase s i \<noteq> Running \<Longrightarrow> batch s i = []"
    "phase s i \<noteq> Running \<Longrightarrow> finished s i = []"
  using assms by (simp_all add: sys_ok_def)

lemma poll_sys_ok:
  assumes S: "sys_ok a R s" and i: "i \<in> all_loops (srv s)" "phase s i = Waiting"
    and e: "events_ok r (pol (srv s) i)" "poll r [] (pol (srv s) i) = (cs, p)"
  shows "sys_ok a R (s\<lparr>srv := (srv s)\<lparr>pol := (pol (srv s))(i := p)\<rparr>,
    phase := (phase s)(i := Handling), active := (active s)(i := cs)\<rparr>)"
proof -
  define w' where "w' = (srv s)\<lparr>pol := (pol (srv s))(i := p)\<rparr>"
  note V = sys_okD(1) [OF S]
  note P = poll_effect [OF e(1) servingD(4) [OF V i(1)] e(2)]
  have "serving a R (still s - {i}) (called s) (batch s) ((active s)(i := cs)) w'"
  proof (rule serving_same [OF V])
    show "0 < counter (evl w' j)"
      if "j \<in> all_loops (srv s)" "j \<in> still s - {i}" "pendingFunctors (evl w' j) \<noteq> []" for j
      using servingD(9) [OF V that(1)] that by (simp add: heard_def w'_def)
    show "same_reg (pol (srv s) j) (pol w' j)" if "j \<in> all_loops (srv s)" for j
      using P same_reg_refl [OF servingD(4) [OF V that]] by (simp add: w'_def)
    show "hasChannel x (pol w' j)" if "j \<in> all_loops (srv s)" "x \<in> set (((active s)(i := cs)) j)" for j x
      using P servingD(7) [OF V] that by (simp add: w'_def split: if_splits)
  qed (simp_all add: w'_def due_def)
  moreover have "all_loops w' = all_loops (srv s)" by (simp add: w'_def all_loops_def)
  ultimately show ?thesis
    using S i(2) by (simp add: sys_ok_def called_def w'_def [symmetric])
qed

lemma swap_sys_ok:
  assumes S: "sys_ok a R s" and i: "i \<in> all_loops (srv s)" "phase s i = Handling" "active s i = []"
  shows "sys_ok a R (s\<lparr>srv := begin_functors i (srv s), phase := (phase s)(i := Running),
    batch := (batch s)(i := pendingFunctors (evl (srv s) i)), finished := (finished s)(i := [])\<rparr>)"
proof -
  define w' where "w' = begin_functors i (srv s)"
  note V = sys_okD(1) [OF S]
  have b: "batch s i = []" "finished s i = []" using sys_okD(3,4) [OF S, of i] i(2) by simp_all
  have w: "conns w' = conns (srv s)" "pol w' = pol (srv s)" "calls w' = calls (srv s)"
    "world.more w' = world.more (srv s)"
    by (simp_all add: w'_def begin_functors_def)
  have "serving a R (insert i (still s)) (called s) ((batch s)(i := pendingFunctors (evl (srv s) i)))
      (active s) w'"
    by (rule serving_same [OF V w(1,4)])
      (use servingD(4,7,9) [OF V] b(1) w in
        \<open>auto simp: due_def heard_def w'_def begin_functors_def intro: same_reg_refl split: if_splits\<close>)
  moreover have "(finished s)(i := []) = finished s" using b(2) by auto
  moreover have "all_loops w' = all_loops (srv s)" using same_server [OF w(4)] by (simp add: all_loops_def)
  ultimately show ?thesis
    using S i by (simp add: sys_ok_def called_def w'_def [symmetric])
qed

text \<open>The end of a turn: the functors called are held no longer, until their pointers are dropped.\<close>

lemma finished_serving:
  assumes S: "sys_ok a R s" and i: "i \<in> all_loops (srv s)" "phase s i = Running" "batch s i = []"
  defines "t \<equiv> s\<lparr>srv := end_functors i (srv s), phase := (phase s)(i := Waiting), finished := (finished s)(i := [])\<rparr>"
  shows "serving a R (still t) (called t \<union> kept_by (finished s i)) (batch t) (active t) (srv t)"
proof -
  define w' where "w' = end_functors i (srv s)"
  note V = sys_okD(1) [OF S]
  have w: "conns w' = conns (srv s)" "pol w' = pol (srv s)" "calls w' = calls (srv s)"
    "world.more w' = world.more (srv s)" "pendingFunctors (evl w' j) = pendingFunctors (evl (srv s) j)"
    "counter (evl w' j) = counter (evl (srv s) j)" for j
    by (simp_all add: w'_def end_functors_def)
  have al: "all_loops w' = all_loops (srv s)" using same_server [OF w(4)] by (simp add: all_loops_def)
  have V': "serving a R (still s) (called s) (batch s) (active s) w'"
    by (rule serving_quiet [OF V]) (simp_all add: w)
  have "called s \<subseteq> called t \<union> kept_by (finished s i)"
    using i(1) by (auto simp: called_def t_def al [unfolded w'_def] split: if_splits)
  moreover have "still t = still s" using i(2) by (simp add: t_def)
  ultimately show ?thesis using serving_mono [OF V', of _ "active s"] by (simp add: t_def w'_def)
qed

lemma finish_sys_ok:
  assumes S: "sys_ok a R s" and i: "i \<in> all_loops (srv s)" "phase s i = Running" "batch s i = []"
  shows "sys_ok a R (fold drop_ref (finished s i) (s\<lparr>srv := end_functors i (srv s),
    phase := (phase s)(i := Waiting), finished := (finished s)(i := [])\<rparr>))"
proof -
  define t where "t = s\<lparr>srv := end_functors i (srv s), phase := (phase s)(i := Waiting), finished := (finished s)(i := [])\<rparr>"
  note D = drop_refs_serving [OF finished_serving [OF S i], folded t_def]
  have "active t j = []" if "phase t j \<noteq> Handling" for j
    using that sys_okD(2) [OF S, of j] i(2) by (simp add: t_def split: if_splits)
  moreover have "batch t j = [] \<and> finished t j = []" if "phase t j \<noteq> Running" for j
    using that sys_okD(3,4) [OF S, of j] i(3) by (auto simp: t_def split: if_splits)
  ultimately have "sys_ok a R (fold drop_ref (finished s i) t)" using D by (simp add: sys_ok_def still_def)
  then show ?thesis by (simp add: t_def)
qed

context connection_app
begin

lemma handle_sys_ok:
  assumes m: "machine_ok env R" and S: "sys_ok a R s" and i: "i \<in> all_loops (srv s)"
    and c: "phase s i = Handling" "active s i = c # cs" and n: "nextConnId (srv s) < 2 ^ 31 - 1"
  shows "yields (no_sigpipe (os1 env)) (handle_active env i peer0 t c (srv s))
    (\<lambda>w. sys_ok a R (s\<lparr>srv := w, active := (active s)(i := cs)\<rparr>))"
proof -
  note V = sys_okD(1) [OF S]
  have moving: "i \<notin> still s" using c(1) by (simp add: still_def)
  have "hasChannel c (pol (srv s) i)" using servingD(7) [OF V i] c(2) by simp
  note A = active_serving [OF m V i this n moving, of peer0 t]
  show ?thesis
  proof (rule yields_mono [OF A])
    fix w
    assume w: "serving a R (still s) (called s) (batch s) (active s) w"
    have al: "all_loops w = all_loops (srv s)"
      using serving_all_loops [OF w] serving_all_loops [OF V] by simp
    have "serving a R (still s) (called s) (batch s) ((active s)(i := cs)) w"
      by (rule serving_mono [OF w]) (use c(2) in auto)
    then show "sys_ok a R (s\<lparr>srv := w, active := (active s)(i := cs)\<rparr>)"
      using S c(1) by (simp add: sys_ok_def called_def al)
  qed simp
qed

lemma run_sys_ok:
  assumes m: "machine_ok env R" and S: "sys_ok a R s" and i: "i \<in> all_loops (srv s)"
    and c: "phase s i = Running" "batch s i = f # fs"
  shows "\<exists>w. run_task env i f (srv s) = Some w \<and> task_effect i (srv s) w \<and>
    sys_ok a R (s\<lparr>srv := w, batch := (batch s)(i := fs), finished := (finished s)(i := finished s i @ [f])\<rparr>)"
proof -
  note V = sys_okD(1) [OF S]
  define s' where "s' w = s\<lparr>srv := w, batch := (batch s)(i := fs),
    finished := (finished s)(i := finished s i @ [f])\<rparr>" for w
  have act: "active s i = []" using sys_okD(2) [OF S, of i] c(1) by simp
  obtain w where w: "run_task env i f (srv s) = Some w"
    "serving a R (still s) (set_option (keeps f) \<union> called s) ((batch s)(i := fs)) (active s) w"
    and ef: "task_effect i (srv s) w"
    using task_serving [OF m V i c(2) act] by blast
  have al: "all_loops w = all_loops (srv s)"
    using serving_all_loops [OF w(2)] serving_all_loops [OF V] by simp
  have "called (s' w) = set_option (keeps f) \<union> called s"
    using i by (auto simp: called_def s'_def al split: if_splits)
  then have "sys_ok a R (s' w)" using w(2) S c by (simp add: sys_ok_def s'_def)
  then show ?thesis using w(1) ef by (auto simp: s'_def)
qed

lemma step_sys_ok:
  assumes "srv_step env peer0 s t" "machine_ok env R" "sys_ok a R s"
  shows "sys_ok a R t"
  using assms(1)
proof cases
  case (s_poll i r cs p)
  show ?thesis unfolding s_poll(1) by (rule poll_sys_ok [OF assms(3) s_poll(2-5)])
next
  case (s_handle i c cs u w)
  show ?thesis unfolding s_handle(1)
    by (rule yieldsD [OF handle_sys_ok [OF assms(2,3) s_handle(2-5)] s_handle(6)])
next
  case (s_swap i)
  show ?thesis unfolding s_swap(1) by (rule swap_sys_ok [OF assms(3) s_swap(2-4)])
next
  case (s_run i f fs w)
  from run_sys_ok [OF assms(2,3) s_run(2-4)] s_run(5)
  show ?thesis unfolding s_run(1) by auto
next
  case (s_finish i)
  show ?thesis unfolding s_finish(1) by (rule finish_sys_ok [OF assms(3) s_finish(2-4)])
qed

end

sublocale connection_app < running: invariant_system "sys_ok a R" "srv_step env peer0"
  "\<lambda>s. machine_ok env R \<longrightarrow> sys_ok a R s" for a R peer0
  by unfold_locales (auto dest: step_sys_ok)

end
