(* ===== verification/EchoMain.thy ===== *)
theory EchoMain
  imports ServerRuns
begin

text \<open>
  \<open>src/main.cc\<close>: the echo server as an application of the library, \<open>main\<close> from the base loop
  to the listening server, and the properties of the running server.
\<close>

subsection \<open>The echo server keeps the contract\<close>

lemma no_callbacks_sel [simp]:
  "os1 (no_callbacks o1 k d) = o1" "ker (no_callbacks o1 k d) = k" "deref (no_callbacks o1 k d) = d"
  "onConnection (no_callbacks o1 k d) = None" "onMessage (no_callbacks o1 k d) = None"
  "onClose (no_callbacks o1 k d) = None" "no_tasks (no_callbacks o1 k d)"
  "onWriteComplete (no_callbacks o1 k d) = None" "onHighWaterMark (no_callbacks o1 k d) = None"
  by (simp_all add: no_callbacks_def no_tasks_def)

definition echo_app ::
  "os \<Rightarrow> (nat \<Rightarrow> chan_id kernel_ctl) \<Rightarrow> (sys_call list \<Rightarrow> nat \<Rightarrow> nat \<Rightarrow> bytes option) \<Rightarrow> nat \<Rightarrow> senv" where
  "echo_app o1 k d ptr = echo_env (no_callbacks o1 k d) ptr"

lemma echo_app_sel [simp]:
  "os1 (echo_app o1 k d ptr) = o1" "ker (echo_app o1 k d ptr) = k" "no_tasks (echo_app o1 k d ptr)"
  "onConnection (echo_app o1 k d ptr) = Some echo_onConnection"
  "onMessage (echo_app o1 k d ptr) = Some (echo_onMessage (no_callbacks o1 k d :: senv) ptr)"
  by (simp_all add: echo_app_def no_tasks_def)

lemma echo_onMessage_handler:
  assumes "conn_ok env cid w" "no_tasks env"
  shows "yields (no_sigpipe (os1 env)) (echo_onMessage env ptr cid t w) (handler_ok env cid w)"
proof -
  define b where "b = inputBuffer (conns w cid)"
  have ok: "buf_ok b" using conn_okD(1) [OF assms(1)] by (simp add: b_def)
  define v where "v = set_conn cid (\<lambda>c. c\<lparr>inputBuffer := retrieveAll b\<rparr>) w"
  have h: "handler_ok env cid w v"
    using handler_ok_input [OF assms(1), of "retrieveAll b"] ok by (simp add: v_def)
  have "loopIx (conns w cid) = loopIx (conns v cid)" by (simp add: v_def)
  then have "yields (no_sigpipe (os1 env)) (send env (loopIx (conns w cid)) cid ptr (readable b) v)
      (handler_ok env cid w)"
    by (intro yields_mono [OF send_handler [OF handler_okD [OF h] assms(2)]] handler_ok_trans [OF h]) auto
  then show ?thesis
    using ok by (simp add: echo_onMessage_def retrieveAllAsString_eq b_def [symmetric] v_def [symmetric])
qed

lemma echo_message_law:
  assumes "conn_ok (echo_app o1 k d ptr) cid w"
  shows "yields (no_sigpipe o1) (echo_onMessage (no_callbacks o1 k d :: senv) ptr cid t w)
    (handler_ok (echo_app o1 k d ptr) cid w)"
proof -
  define e :: senv where "e = no_callbacks o1 k d"
  have k: "ker (echo_app o1 k d ptr) = ker e" by (simp add: e_def)
  have h: "handler_ok (echo_app o1 k d ptr) cid w v = handler_ok e cid w v" for v
    using conn_ok_env [OF k, of cid v] by (simp add: handler_ok_def)
  have "conn_ok e cid w" using assms conn_ok_env [OF k, of cid w] by simp
  from echo_onMessage_handler [OF this, of ptr t] show ?thesis
    by (simp add: e_def h [unfolded e_def, THEN ext])
qed

interpretation echo: connection_app "echo_app o1 k d ptr" for o1 k d ptr
proof (unfold_locales, goal_cases)
  case (2 cid w)
  then show ?case using handler_ok_refl by (auto simp: invoke_def echo_onConnection_def)
next
  case (3 cid w t)
  then show ?case using echo_message_law by (simp add: invoke_def)
qed simp


subsection \<open>Start-up\<close>

text \<open>
  \<open>main\<close> from the construction of the base loop to \<open>server.start()\<close>. The threads of the pool
  construct their loops inside \<open>start\<close>, before it returns; loop \<open>j + 1\<close> is that of the j-th
  thread. \<open>evfd i\<close> is what \<open>eventfd\<close> returned for loop \<open>i\<close>, \<open>mem i\<close> the memory of its channels.
\<close>

definition thread_loops ::
  "senv \<Rightarrow> (nat \<Rightarrow> errno + fd) \<Rightarrow> (nat \<Rightarrow> chan_id \<Rightarrow> channel) \<Rightarrow> nat \<Rightarrow> server \<Rightarrow> server option" where
  "thread_loops env evfd mem k w =
     fold_opt (\<lambda>j. EventLoop_ctor env (Suc j) (evfd (Suc j)) False (mem (Suc j))) [0..<k] w"

definition main_start ::
  "senv \<Rightarrow> (nat \<Rightarrow> errno + fd) \<Rightarrow> (nat \<Rightarrow> chan_id \<Rightarrow> channel) \<Rightarrow> nat \<Rightarrow> (string \<Rightarrow> ipv4 option) \<Rightarrow>
   server \<Rightarrow> server option" where
  "main_start env evfd mem junk pton w = do {
     w1 \<leftarrow> EventLoop_ctor env 0 (evfd 0) False (mem 0) w;
     w2 \<leftarrow> EchoServer env (Some 0) junk (InetAddress pton 8080 ''127.0.0.1'') ''EchoServer'' w1;
     w3 \<leftarrow> thread_loops env evfd mem (nat (numThreads (threadPool w2))) w2;
     EchoServer_start env 0 (\<lambda>j. nat j + 1) w3
   }"

text \<open>A poller that has only the wake-up channel of its loop registered.\<close>

definition fresh_loop :: "(chan_id \<Rightarrow> channel) \<Rightarrow> nat \<Rightarrow> fd \<Rightarrow> chan_id poller \<Rightarrow> bool" where
  "fresh_loop mem i d p \<longleftrightarrow> poller_ok p \<and> channels p = [d \<mapsto> ChWakeup i] \<and>
     interest (ctlTrace p) = [d \<mapsto> (ReadEvent, ChWakeup i)] \<and>
     (\<forall>x. x \<noteq> ChWakeup i \<longrightarrow> chan p x = mem x)"

lemma EventLoop_ctor_state:
  assumes "epoll_ok (ker env i)" "\<And>x. chIndex (mem x) = New"
  shows "\<exists>p. fresh_loop mem i d p \<and> EventLoop_ctor env i (Inr d) False mem w =
    Some (w\<lparr>evl := (evl w)(i := EventLoop), pol := (pol w)(i := p)\<rparr>)"
proof -
  define p where "p = set_chan (ChWakeup i) (\<lambda>_. Channel d) (EPollPoller mem)"
  have p: "poller_ok p" unfolding p_def
    by (rule poller_ok_new_channel [OF poller_ok_EPollPoller]) (simp_all add: assms(2) EPollPoller_def)
  have o: "owns_fd (ChWakeup i) p" by (simp add: p_def owns_fd_def EPollPoller_def)
  have c: "chan p (ChWakeup i) = Channel d" "interest (ctlTrace p) = Map.empty" "channels p = Map.empty"
    "\<And>x. x \<noteq> ChWakeup i \<Longrightarrow> chan p x = mem x"
    by (simp_all add: p_def EPollPoller_def)
  obtain q where q: "set_events (ker env i) (ChWakeup i) ReadEvent p = Some q" "poller_ok q"
    "channels q = (channels p)(chFd (chan p (ChWakeup i)) \<mapsto> ChWakeup i)"
    "chan q = (chan p)(ChWakeup i := (chan p (ChWakeup i))\<lparr>events := ReadEvent,
       chIndex := new_index (ChWakeup i) ReadEvent p\<rparr>)"
    "interest (ctlTrace q) = (interest (ctlTrace p))(chFd (chan p (ChWakeup i)) :=
       new_interest (ChWakeup i) ReadEvent p)"
    using set_events_ok [OF assms(1) p o, of ReadEvent] by blast
  have "enableReading (ker env i) (ChWakeup i) p = Some q"
    using q(1) c(1) by (simp add: enableReading_def Channel_def)
  then have "EventLoop_ctor env i (Inr d) False mem w =
      Some (w\<lparr>evl := (evl w)(i := EventLoop), pol := (pol w)(i := q)\<rparr>)"
    by (simp add: EventLoop_ctor_def newDefaultPoller_def p_def [symmetric])
  moreover have "fresh_loop mem i d q"
    using q(2-5) c by (simp add: fresh_loop_def Channel_def new_interest_def index_defs channel_masks)
  ultimately show ?thesis by blast
qed

lemma thread_loops_state:
  assumes "\<And>i. epoll_ok (ker env i)" "\<And>i x. chIndex (mem i x) = New" "\<And>i. i \<le> k \<Longrightarrow> evfd i = Inr (e i)"
  shows "\<exists>ev p. thread_loops env evfd mem k w = Some (w\<lparr>evl := ev, pol := p\<rparr>) \<and>
    (\<forall>j. if 1 \<le> j \<and> j \<le> k then ev j = EventLoop \<and> fresh_loop (mem j) j (e j) (p j)
         else ev j = evl w j \<and> p j = pol w j)"
  using assms(3)
proof (induction k)
  case 0
  show ?case by (intro exI [of _ "evl w"] exI [of _ "pol w"]) (simp add: thread_loops_def)
next
  case (Suc k)
  have IH: "\<exists>ev p. thread_loops env evfd mem k w = Some (w\<lparr>evl := ev, pol := p\<rparr>) \<and>
    (\<forall>j. if 1 \<le> j \<and> j \<le> k then ev j = EventLoop \<and> fresh_loop (mem j) j (e j) (p j)
         else ev j = evl w j \<and> p j = pol w j)"
    by (rule Suc.IH) (simp add: Suc.prems)
  then obtain ev p where v: "thread_loops env evfd mem k w = Some (w\<lparr>evl := ev, pol := p\<rparr>)"
    "\<forall>j. if 1 \<le> j \<and> j \<le> k then ev j = EventLoop \<and> fresh_loop (mem j) j (e j) (p j)
         else ev j = evl w j \<and> p j = pol w j"
    by blast
  define v1 where "v1 = w\<lparr>evl := ev, pol := p\<rparr>"
  obtain q where q: "fresh_loop (mem (Suc k)) (Suc k) (e (Suc k)) q"
    "EventLoop_ctor env (Suc k) (Inr (e (Suc k))) False (mem (Suc k)) v1 =
      Some (v1\<lparr>evl := (evl v1)(Suc k := EventLoop), pol := (pol v1)(Suc k := q)\<rparr>)"
    using EventLoop_ctor_state [of env "Suc k" "mem (Suc k)", OF assms(1) assms(2)] by blast
  have "thread_loops env evfd mem (Suc k) w =
      Some (w\<lparr>evl := ev(Suc k := EventLoop), pol := p(Suc k := q)\<rparr>)"
    using v(1) q(2) Suc.prems [of "Suc k"]
    by (simp add: thread_loops_def fold_opt_append fold_opt_Cons_fun fold_opt_Nil_fun v1_def)
  moreover have "if 1 \<le> j \<and> j \<le> Suc k
      then (ev(Suc k := EventLoop)) j = EventLoop \<and> fresh_loop (mem j) j (e j) ((p(Suc k := q)) j)
      else (ev(Suc k := EventLoop)) j = evl w j \<and> (p(Suc k := q)) j = pol w j" for j
  proof (cases "j = Suc k")
    case True
    then show ?thesis using q(1) by simp
  next
    case False
    then show ?thesis using v(2) [rule_format, of j] by (simp add: le_Suc_eq)
  qed
  ultimately show ?case by blast
qed

text \<open>The constructor of the echo server on a base loop \<open>0\<close>.\<close>

lemma EchoServer_state:
  assumes "os_socket (os1 env) (calls w) = Inr l" "\<And>tr a. os_bind (os1 env) tr l a = None"
  shows "\<exists>w' cs. EchoServer env (Some 0) junk la name w = Some w' \<and> baseIx w' = 0 \<and> acceptFd w' = l \<and>
    pol w' = (pol w)(0 := set_chan ChAcceptor (\<lambda>_. Channel l) (pol w 0)) \<and> evl w' = evl w \<and>
    conns w' = conns w \<and> ipPort w' = toIpPort la \<and> serverName w' = name \<and>
    threadPool w' = setThreadNum 3 (EventLoopThreadPool junk 0 name) \<and> srvStarted w' = 0 \<and>
    nextConnId w' = 1 \<and> connections w' = Map.empty \<and> alive w' = alive w \<and> nextObj w' = nextObj w \<and>
    calls w' = calls w @ cs \<and> list_all inner_call cs"
  using assms
  by (simp add: EchoServer_def TcpServer_def Acceptor_def Let_def bindAddress_def setReuseAddr_def
      setReusePort_def log_call_def TcpServer_setThreadNum_def)

text \<open>\<open>start\<close> in the base loop's thread.\<close>

lemma TcpServer_start_state:
  assumes "srvStarted w = 0" "baseIx w = 0" "epoll_ok (ker env 0)" "poller_ok (pol w 0)"
    and "owns_fd ChAcceptor (pol w 0)" "chan (pol w 0) ChAcceptor = Channel (acceptFd w)"
    and "os_listen (os1 env) (calls w) (acceptFd w) 1024 = None"
  shows "\<exists>w' q. TcpServer_start env 0 f w = Some w' \<and> listening w' \<and> pol w' = (pol w)(0 := q) \<and>
    poller_ok q \<and> channels q = (channels (pol w 0))(acceptFd w \<mapsto> ChAcceptor) \<and>
    chan q = (chan (pol w 0))(ChAcceptor := (chan (pol w 0) ChAcceptor)\<lparr>events := ReadEvent,
      chIndex := Added\<rparr>) \<and>
    interest (ctlTrace q) = (interest (ctlTrace (pol w 0)))(acceptFd w \<mapsto> (ReadEvent, ChAcceptor)) \<and>
    threadPool w' = fst (pool_start f (hasThreadInit w) (threadPool w)) \<and> baseIx w' = 0 \<and>
    evl w' = evl w \<and> conns w' = conns w \<and> alive w' = alive w \<and> nextObj w' = nextObj w \<and>
    nextConnId w' = nextConnId w \<and> connections w' = connections w \<and> ipPort w' = ipPort w \<and>
    serverName w' = serverName w \<and> calls w' = calls w @ [CListen (acceptFd w) 1024 None]"
proof -
  obtain q where q: "set_events (ker env 0) ChAcceptor ReadEvent (pol w 0) = Some q" "poller_ok q"
    "channels q = (channels (pol w 0))(chFd (chan (pol w 0) ChAcceptor) \<mapsto> ChAcceptor)"
    "chan q = (chan (pol w 0))(ChAcceptor := (chan (pol w 0) ChAcceptor)\<lparr>events := ReadEvent,
       chIndex := new_index ChAcceptor ReadEvent (pol w 0)\<rparr>)"
    "interest (ctlTrace q) = (interest (ctlTrace (pol w 0)))(chFd (chan (pol w 0) ChAcceptor) :=
       new_interest ChAcceptor ReadEvent (pol w 0))"
    using set_events_ok [OF assms(3-5), of ReadEvent] by blast
  have "events (chan (pol w 0) ChAcceptor) OR ReadEvent = ReadEvent"
    using assms(6) by (simp add: Channel_def)
  then have en: "enableReading (ker env 0) ChAcceptor (pol w 0) = Some q"
    using q(1) by (simp add: enableReading_def)
  have ix: "new_index ChAcceptor ReadEvent (pol w 0) = Added"
    "new_interest ChAcceptor ReadEvent (pol w 0) = Some (ReadEvent, ChAcceptor)"
    by (simp_all add: new_index_def new_interest_def channel_masks)
  show ?thesis
    using assms(1,2,6,7) en q(2-5) ix
    by (simp add: TcpServer_start_def Let_def Acceptor_listen_def Socket_listen_def on_acceptor_def
        log_call_def Channel_def) (rule exI [of _ q], simp)
qed

definition idle_sys :: "server \<Rightarrow> sys" where
  "idle_sys w = \<lparr>srv = w, phase = \<lambda>_. Waiting, active = \<lambda>_. [], batch = \<lambda>_. [], finished = \<lambda>_. []\<rparr>"

text \<open>The system calls of the start-up succeed, with new descriptors.\<close>

definition boot_ok ::
  "senv \<Rightarrow> (nat \<Rightarrow> errno + fd) \<Rightarrow> (nat \<Rightarrow> chan_id \<Rightarrow> channel) \<Rightarrow> (string \<Rightarrow> ipv4 option) \<Rightarrow>
   (nat \<Rightarrow> fd) \<Rightarrow> fd \<Rightarrow> server \<Rightarrow> bool" where
  "boot_ok env evfd mem pton e l w \<longleftrightarrow> (\<forall>i. epoll_ok (ker env i)) \<and> (\<forall>i x. chIndex (mem i x) = New) \<and>
     (\<forall>i \<le> 3. evfd i = Inr (e i)) \<and> os_socket (os1 env) [] = Inr l \<and> l \<noteq> e 0 \<and>
     (\<forall>tr d a. os_bind (os1 env) tr d a = None) \<and> (\<forall>tr d n. os_listen (os1 env) tr d n = None) \<and>
     pton ''127.0.0.1'' = Some (127, 0, 0, 1) \<and>
     calls w = [] \<and> nextObj w = 0 \<and> (\<forall>cid. \<not> alive w cid)"


lemma registered_channel:
  assumes "poller_ok p" "interest (ctlTrace p) d = Some (m, x)"
  shows "channels p d = Some x" "hasChannel x p" "chIndex (chan p x) = Added" "events (chan p x) = m"
proof -
  show c: "channels p d = Some x" and "chIndex (chan p x) = Added" "events (chan p x) = m"
    using assms by (auto simp: poller_ok_def wanted_def split: option.splits if_splits)
  then show "hasChannel x p" using keys_okD(1) [of p d x] assms(1) by (simp add: poller_ok_def hasChannel_def)
qed

text \<open>The invariant holds of a server that has just started: every queue is empty.\<close>

lemma started_serving:
  assumes "baseIx w = 0" "loops (threadPool w) = [1, 2, 3]" "nextIx (threadPool w) = 0" "nextConnId w = 1"
    and "connections w = Map.empty" "\<And>cid. \<not> alive w cid" "nextObj w = 0"
    and "ipv4_ok (sin_addr la)" "ipPort w = toIpPort la" "list_all inner_call (calls w)"
    and "insert l (e ` {0..3}) \<subseteq> R" "\<And>j. j \<in> {0, 1, 2, 3} \<Longrightarrow> poller_ok (pol w j) \<and> evl w j = EventLoop"
    and "channels (pol w 0) = [e 0 \<mapsto> ChWakeup 0, l \<mapsto> ChAcceptor]"
    and "\<And>j. j \<in> {1, 2, 3} \<Longrightarrow> channels (pol w j) = [e j \<mapsto> ChWakeup j]"
    and "\<And>j. j \<in> {0, 1, 2, 3} \<Longrightarrow> interest (ctlTrace (pol w j)) (e j) = Some (ReadEvent, ChWakeup j)"
  shows "serving (la, {0, 1, 2, 3}) R K {} (\<lambda>_. []) (\<lambda>_. []) w"
proof -
  have al: "all_loops w = {0, 1, 2, 3}" by (simp add: all_loops_def assms(1,2))
  have "pool_fine w" by (simp add: pool_fine_def assms(1-3) pool_ok_def)
  moreover have "naming (la, {0, 1, 2, 3}) w" by (simp add: naming_def al assms(4,5,7-9))
  moreover have "descriptors_ok w"
    using inner_calls_accepted [OF assms(10), of "[]"] by (simp add: descriptors_ok_def assms(6))
  moreover have "channel_home R j w" if j: "j \<in> {0, 1, 2, 3}" for j
  proof (cases "j = 0")
    case True
    then show ?thesis using assms(11,13) by (auto simp: channel_home_def split: if_splits)
  next
    case False
    then have "j \<in> {1, 2, 3}" "j \<in> {0..3}" using j by auto
    then show ?thesis using assms(11) assms(14) [of j] by (auto simp: channel_home_def split: if_splits)
  qed
  moreover have "poller_ok (pol w j)" "tasks_fine (\<lambda>_. []) j w" "heard K j w" if j: "j \<in> {0, 1, 2, 3}" for j
    using assms(12) [OF j] registered_channel [OF _ assms(15) [OF j]]
    by (simp_all add: tasks_fine_def due_def heard_def EventLoop_def)
  ultimately show ?thesis by (simp add: serving_def al assms(6))
qed

lemma boot_okD:
  assumes "boot_ok env evfd mem pton e l w"
  shows "epoll_ok (ker env i)" "chIndex (mem i x) = New" "i \<le> 3 \<Longrightarrow> evfd i = Inr (e i)"
    "os_socket (os1 env) [] = Inr l" "l \<noteq> e 0" "os_bind (os1 env) tr d a = None"
    "os_listen (os1 env) tr d n = None" "pton ''127.0.0.1'' = Some (127, 0, 0, 1)"
    "calls w = []" "nextObj w = 0" "\<not> alive w cid"
  using assms by (simp_all add: boot_ok_def)

text \<open>The base loop and the server on it are constructed: nothing is listening yet.\<close>

definition constructed :: "(nat \<Rightarrow> fd) \<Rightarrow> fd \<Rightarrow> sockaddr_in \<Rightarrow> nat \<Rightarrow> server \<Rightarrow> bool" where
  "constructed e l la junk w \<longleftrightarrow> baseIx w = 0 \<and> acceptFd w = l \<and> poller_ok (pol w 0) \<and>
     channels (pol w 0) = [e 0 \<mapsto> ChWakeup 0] \<and> chan (pol w 0) ChAcceptor = Channel l \<and>
     interest (ctlTrace (pol w 0)) = [e 0 \<mapsto> (ReadEvent, ChWakeup 0)] \<and> owns_fd ChAcceptor (pol w 0) \<and>
     evl w 0 = EventLoop \<and> ipPort w = toIpPort la \<and>
     threadPool w = setThreadNum 3 (EventLoopThreadPool junk 0 ''EchoServer'') \<and> srvStarted w = 0 \<and>
     nextConnId w = 1 \<and> connections w = Map.empty \<and> (\<forall>cid. \<not> alive w cid) \<and> nextObj w = 0 \<and>
     list_all inner_call (calls w)"

lemma main_constructs:
  assumes B: "boot_ok env evfd mem pton e l w"
  shows "\<exists>w1 w2. EventLoop_ctor env 0 (evfd 0) False (mem 0) w = Some w1 \<and>
    EchoServer env (Some 0) junk la ''EchoServer'' w1 = Some w2 \<and> constructed e l la junk w2"
proof -
  note b = boot_okD [OF B]
  obtain p0 where p0: "fresh_loop (mem 0) 0 (e 0) p0"
    "EventLoop_ctor env 0 (Inr (e 0)) False (mem 0) w =
      Some (w\<lparr>evl := (evl w)(0 := EventLoop), pol := (pol w)(0 := p0)\<rparr>)"
    using EventLoop_ctor_state [of env 0 "mem 0", OF b(1) b(2)] by blast
  define w1 where "w1 = w\<lparr>evl := (evl w)(0 := EventLoop), pol := (pol w)(0 := p0)\<rparr>"
  have w1: "os_socket (os1 env) (calls w1) = Inr l" using b(4,9) by (simp add: w1_def)
  obtain w2 cs where w2: "EchoServer env (Some 0) junk la ''EchoServer'' w1 = Some w2" "baseIx w2 = 0"
    "acceptFd w2 = l" "pol w2 = (pol w1)(0 := set_chan ChAcceptor (\<lambda>_. Channel l) (pol w1 0))"
    "evl w2 = evl w1" "ipPort w2 = toIpPort la"
    "threadPool w2 = setThreadNum 3 (EventLoopThreadPool junk 0 ''EchoServer'')" "srvStarted w2 = 0"
    "nextConnId w2 = 1" "connections w2 = Map.empty" "alive w2 = alive w1" "nextObj w2 = nextObj w1"
    "calls w2 = calls w1 @ cs" "list_all inner_call cs"
    using EchoServer_state [of env w1 l junk la "''EchoServer''", OF w1 b(6)] by blast
  have "constructed e l la junk w2"
    using p0(1) poller_ok_new_channel [of p0 ChAcceptor l] b(2,5,9-11)
    by (simp add: constructed_def w2 w1_def fresh_loop_def owns_fd_def Channel_def)
  then show ?thesis using p0(2) w2(1) b(3) [of 0] by (auto simp: w1_def)
qed

lemma constructedD:
  assumes "constructed e l la junk w"
  shows "baseIx w = 0" "acceptFd w = l" "poller_ok (pol w 0)" "channels (pol w 0) = [e 0 \<mapsto> ChWakeup 0]"
    "chan (pol w 0) ChAcceptor = Channel l" "interest (ctlTrace (pol w 0)) = [e 0 \<mapsto> (ReadEvent, ChWakeup 0)]"
    "owns_fd ChAcceptor (pol w 0)" "evl w 0 = EventLoop" "ipPort w = toIpPort la"
    "threadPool w = setThreadNum 3 (EventLoopThreadPool junk 0 ''EchoServer'')" "srvStarted w = 0"
    "nextConnId w = 1" "connections w = Map.empty" "\<not> alive w cid" "nextObj w = 0"
    "list_all inner_call (calls w)"
  using assms by (simp_all add: constructed_def)

text \<open>The threads are started and the listening socket is watched.\<close>

definition launched :: "(nat \<Rightarrow> fd) \<Rightarrow> fd \<Rightarrow> server \<Rightarrow> server \<Rightarrow> bool" where
  "launched e l w w' \<longleftrightarrow> listening w' \<and> baseIx w' = 0 \<and> loops (threadPool w') = [1, 2, 3] \<and>
     nextIx (threadPool w') = 0 \<and> alive w' = alive w \<and> nextObj w' = nextObj w \<and>
     nextConnId w' = nextConnId w \<and> connections w' = connections w \<and> ipPort w' = ipPort w \<and>
     calls w' = calls w @ [CListen l 1024 None] \<and>
     (\<forall>j \<in> {0, 1, 2, 3}. poller_ok (pol w' j) \<and> evl w' j = EventLoop) \<and>
     channels (pol w' 0) = [e 0 \<mapsto> ChWakeup 0, l \<mapsto> ChAcceptor] \<and>
     interest (ctlTrace (pol w' 0)) = [e 0 \<mapsto> (ReadEvent, ChWakeup 0), l \<mapsto> (ReadEvent, ChAcceptor)] \<and>
     (\<forall>j \<in> {1, 2, 3}. channels (pol w' j) = [e j \<mapsto> ChWakeup j] \<and>
        interest (ctlTrace (pol w' j)) = [e j \<mapsto> (ReadEvent, ChWakeup j)])"

lemma launchedD:
  assumes "launched e l w w'"
  shows "listening w'" "baseIx w' = 0" "loops (threadPool w') = [1, 2, 3]" "nextIx (threadPool w') = 0"
    "alive w' = alive w" "nextObj w' = nextObj w" "nextConnId w' = nextConnId w"
    "connections w' = connections w" "ipPort w' = ipPort w" "calls w' = calls w @ [CListen l 1024 None]"
    "j \<in> {0, 1, 2, 3} \<Longrightarrow> poller_ok (pol w' j) \<and> evl w' j = EventLoop"
    "channels (pol w' 0) = [e 0 \<mapsto> ChWakeup 0, l \<mapsto> ChAcceptor]"
    "interest (ctlTrace (pol w' 0)) = [e 0 \<mapsto> (ReadEvent, ChWakeup 0), l \<mapsto> (ReadEvent, ChAcceptor)]"
    "j \<in> {1, 2, 3} \<Longrightarrow> channels (pol w' j) = [e j \<mapsto> ChWakeup j]"
    "j \<in> {1, 2, 3} \<Longrightarrow> interest (ctlTrace (pol w' j)) = [e j \<mapsto> (ReadEvent, ChWakeup j)]"
  using assms unfolding launched_def by blast+

lemma main_launches:
  assumes B: "boot_ok env evfd mem pton e l w" and C: "constructed e l la junk w2"
  shows "\<exists>w3 w'. thread_loops env evfd mem 3 w2 = Some w3 \<and>
    TcpServer_start env 0 (\<lambda>j. nat j + 1) w3 = Some w' \<and> launched e l w2 w'"
proof -
  note b = boot_okD [OF B] and c = constructedD [OF C]
  obtain ev p where w3: "thread_loops env evfd mem 3 w2 = Some (w2\<lparr>evl := ev, pol := p\<rparr>)"
    "\<forall>j. if 1 \<le> j \<and> j \<le> 3 then ev j = EventLoop \<and> fresh_loop (mem j) j (e j) (p j)
         else ev j = evl w2 j \<and> p j = pol w2 j"
    using thread_loops_state [of env mem 3 evfd e w2, OF b(1) b(2) b(3)] by blast
  define w3 where "w3 = w2\<lparr>evl := ev, pol := p\<rparr>"
  have pe: "p 0 = pol w2 0" "ev 0 = EventLoop" using w3(2) c(8) by auto
  have pj: "fresh_loop (mem j) j (e j) (p j)" "ev j = EventLoop" if "j \<in> {1, 2, 3}" for j
    using w3(2) [rule_format, of j] that by auto
  obtain w' q where w': "TcpServer_start env 0 (\<lambda>j. nat j + 1) w3 = Some w'" "listening w'"
    "pol w' = (pol w3)(0 := q)" "poller_ok q" "channels q = (channels (pol w3 0))(acceptFd w3 \<mapsto> ChAcceptor)"
    "interest (ctlTrace q) = (interest (ctlTrace (pol w3 0)))(acceptFd w3 \<mapsto> (ReadEvent, ChAcceptor))"
    "threadPool w' = fst (pool_start (\<lambda>j. nat j + 1) (hasThreadInit w3) (threadPool w3))" "baseIx w' = 0"
    "evl w' = evl w3" "alive w' = alive w3" "nextObj w' = nextObj w3" "nextConnId w' = nextConnId w3"
    "connections w' = connections w3" "ipPort w' = ipPort w3"
    "calls w' = calls w3 @ [CListen (acceptFd w3) 1024 None]"
    using TcpServer_start_state [of w3 env "\<lambda>j. nat j + 1"] b(1,7) c(1-3,5,7,11) pe(1)
    by (auto simp: w3_def)
  have pool: "loops (threadPool w') = [1, 2, 3]" "nextIx (threadPool w') = 0"
    using pool_started [of 3 "\<lambda>j. nat j + 1" "hasThreadInit w3" junk 0 "''EchoServer''"]
    by (simp_all add: w'(7) w3_def c(10) Let_def numeral_3_eq_3)
  have one: "poller_ok (pol w' j) \<and> evl w' j = EventLoop \<and> channels (pol w' j) = [e j \<mapsto> ChWakeup j] \<and>
      interest (ctlTrace (pol w' j)) = [e j \<mapsto> (ReadEvent, ChWakeup j)]" if "j \<in> {1, 2, 3}" for j
    using that pj [OF that] by (auto simp: w'(3,9) w3_def fresh_loop_def)
  have "launched e l w2 w'"
    using w'(2-6,8-15) pe c(2,4,6) pool one unfolding launched_def by (simp add: w3_def)
  then show ?thesis using w3(1) w'(1) by (auto simp: w3_def)
qed

lemma main_start_state:
  assumes B: "boot_ok env evfd mem pton e l w" and R: "insert l (e ` {0..3}) \<subseteq> R"
  defines "la \<equiv> InetAddress pton 8080 ''127.0.0.1''"
  shows "\<exists>w'. main_start env evfd mem junk pton w = Some w' \<and> listening w' \<and>
    baseIx w' = 0 \<and> loops (threadPool w') = [1, 2, 3] \<and> nextConnId w' = 1 \<and> connections w' = Map.empty \<and>
    interest (ctlTrace (pol w' 0)) = [e 0 \<mapsto> (ReadEvent, ChWakeup 0), l \<mapsto> (ReadEvent, ChAcceptor)] \<and>
    (\<forall>j \<in> {1..3}. interest (ctlTrace (pol w' j)) = [e j \<mapsto> (ReadEvent, ChWakeup j)]) \<and>
    sys_ok (la, {0, 1, 2, 3}) R (idle_sys w')"
proof -
  note b = boot_okD [OF B]
  obtain w1 w2 where w2: "EventLoop_ctor env 0 (evfd 0) False (mem 0) w = Some w1"
    "EchoServer env (Some 0) junk la ''EchoServer'' w1 = Some w2" and C: "constructed e l la junk w2"
    using main_constructs [OF B] by blast
  note c = constructedD [OF C]
  obtain w3 w' where w3: "thread_loops env evfd mem 3 w2 = Some w3"
    "TcpServer_start env 0 (\<lambda>j. nat j + 1) w3 = Some w'" and L: "launched e l w2 w'"
    using main_launches [OF B C] by blast
  note l = launchedD [OF L]
  have "serving (la, {0, 1, 2, 3}) R UNIV {} (\<lambda>_. []) (\<lambda>_. []) w'"
  proof (rule started_serving [OF l(2-4)])
    show "ipv4_ok (sin_addr la)" using b(8)
      by (simp add: la_def InetAddress_def ipv4_ok_def Let_def c_str_def NUL_def)
    show "interest (ctlTrace (pol w' j)) (e j) = Some (ReadEvent, ChWakeup j)" if "j \<in> {0, 1, 2, 3}" for j
      using l(13) l(15) [of j] b(5) that by (cases "j = 0") auto
  qed (use R l(5-12,14) c(9,12-16) in simp_all)
  moreover have "main_start env evfd mem junk pton w = Some w'"
    using w2 w3 c(10) by (simp add: main_start_def la_def [symmetric] setThreadNum_def)
  moreover have "\<forall>j \<in> {1..3}. interest (ctlTrace (pol w' j)) = [e j \<mapsto> (ReadEvent, ChWakeup j)]"
  proof
    fix j :: nat
    assume "j \<in> {1..3}"
    then have "j \<in> {1, 2, 3}" by auto
    then show "interest (ctlTrace (pol w' j)) = [e j \<mapsto> (ReadEvent, ChWakeup j)]" by (rule l(15))
  qed
  ultimately show ?thesis using l(1-3,7,8,13) c(12,13)
    by (intro exI [of _ w']) (simp add: sys_ok_def idle_sys_def called_def still_def)
qed

end
