(* ===== verification/ServerLife.thy ===== *)
theory ServerLife
  imports ServerRuns
begin

text \<open>
  What the invariant of the running system says of the objects: the life of a connection, who
  holds it, and what the pollers have registered.
\<close>

lemma drop_refs_sel [simp]:
  "phase (fold drop_ref fs s) = phase s" "active (fold drop_ref fs s) = active s"
  "batch (fold drop_ref fs s) = batch s" "finished (fold drop_ref fs s) = finished s"
  "all_loops (srv (fold drop_ref fs s)) = all_loops (srv s)"
  by (induction fs arbitrary: s) simp_all


text \<open>
  A connection that lives is held by a shared pointer, and what the map, a queue or a running
  batch refers to lives.
\<close>

definition lifetimes_ok :: "sys \<Rightarrow> bool" where
  "lifetimes_ok s \<longleftrightarrow> (\<forall>cid. alive (srv s) cid \<longrightarrow> held cid s) \<and>
     (\<forall>n cid. connections (srv s) n = Some cid \<longrightarrow> alive (srv s) cid \<and> connName (conns (srv s) cid) = n) \<and>
     (\<forall>i \<in> all_loops (srv s). \<forall>f \<in> set (due (batch s) i (srv s)).
        \<exists>cid. keeps f = Some cid \<and> alive (srv s) cid)"

text \<open>
  The phases of a connection: in the map and about to be established on its loop, once;
  in the map and watched for reads; or closed, and then either a task on its way takes it out of
  the map and the poller, or it is already out of both.
\<close>

definition life_ok :: "sys \<Rightarrow> nat \<Rightarrow> bool" where
  "life_ok s cid \<longleftrightarrow> loopIx (conns (srv s) cid) \<in> all_loops (srv s) - {baseIx (srv s)} \<and>
     (case connState (conns (srv s) cid) of
        KConnecting \<Rightarrow> mapped cid (srv s) \<and> watched cid (srv s) = None \<and>
          count_list (due (batch s) (loopIx (conns (srv s) cid)) (srv s)) (FConnectEstablished cid) = 1
      | KConnected \<Rightarrow> mapped cid (srv s) \<and>
          (\<exists>m. watched cid (srv s) = Some (m, ChConn cid) \<and> m AND ReadEvent \<noteq> 0)
      | KDisconnecting \<Rightarrow> False
      | KDisconnected \<Rightarrow> closing_due (batch s) cid (srv s) \<or>
          \<not> mapped cid (srv s) \<and> watched cid (srv s) = None)"

text \<open>Every registration of a poller is one of the process's own descriptors or a live connection's.\<close>

definition registrations_ok :: "fd set \<Rightarrow> server \<Rightarrow> bool" where
  "registrations_ok R w \<longleftrightarrow> (\<forall>i \<in> all_loops w. \<forall>d m x.
     interest (ctlTrace (pol w i)) d = Some (m, x) \<longrightarrow>
       (case x of ChConn cid \<Rightarrow> alive w cid \<and> loopIx (conns w cid) = i \<and> sockFd (conns w cid) = d
        | _ \<Rightarrow> d \<in> R))"

text \<open>
  No task waits for a loop that sleeps: every loop's eventfd is watched, and the eventfd of a loop
  with tasks in its queue is readable, unless the loop is past \<open>epoll_wait\<close> and going through its
  active channels, after which it takes the queue.
\<close>

definition woken :: "sys \<Rightarrow> bool" where
  "woken s \<longleftrightarrow> (\<forall>i \<in> all_loops (srv s).
     interest (ctlTrace (pol (srv s) i)) (chFd (chan (pol (srv s) i) (ChWakeup i))) =
       Some (ReadEvent, ChWakeup i) \<and>
     events_ok (Inr [(EPOLLIN, ChWakeup i)]) (pol (srv s) i) \<and>
     (pendingFunctors (evl (srv s) i) \<noteq> [] \<and> phase s i \<noteq> Handling \<longrightarrow> 0 < counter (evl (srv s) i)))"

lemma serving_woken:
  assumes S: "serving a R (still s) H b act (srv s)"
  shows "woken s"
proof -
  have "interest (ctlTrace (pol (srv s) i)) (chFd (chan (pol (srv s) i) (ChWakeup i))) =
      Some (ReadEvent, ChWakeup i)" if i: "i \<in> all_loops (srv s)" for i
    using servingD(4,9) [OF S i] by (auto simp: poller_ok_def wanted_def heard_def hasChannel_def)
  then show ?thesis
    using servingD(9) [OF S] unfolding woken_def by (fastforce simp: heard_def still_def events_ok_def)
qed

lemma serving_held:
  assumes S: "serving a R (still s) (called s) (batch s) (active s) (srv s)" and al: "alive (srv s) cid"
  shows "held cid s"
proof -
  have i: "loopIx (conns (srv s) cid) \<in> all_loops (srv s)" by (rule serving_loop [OF S al])
  have b: "baseIx (srv s) \<in> all_loops (srv s)" by (simp add: all_loops_def)
  have "stage_ok (called s) (batch s) cid (srv s)" using servingD(8) [OF S al] by (simp add: member_ok_def)
  then show ?thesis
    using i b unfolding held_iff by (auto simp: stage_ok_def closing_due_def split: StateE.splits)
      (metis keeps.simps(6) keeps.simps(2))+
qed

lemma serving_lifetimes:
  assumes S: "serving a R (still s) (called s) (batch s) (active s) (srv s)"
  shows "lifetimes_ok s"
  using serving_held [OF S] servingD(2) [OF S] task_fine_keeps [OF servingT [OF S]]
  unfolding lifetimes_ok_def naming_def by blast

lemma serving_registered:
  assumes S: "serving a R K H b act w" and i: "i \<in> all_loops w"
    and d: "interest (ctlTrace (pol w i)) d = Some (m, x)"
  shows "channels (pol w i) d = Some x"
  using d servingD(4) [OF S i] by (auto simp: poller_ok_def wanted_def split: option.splits if_splits)

lemma serving_registrations: 
  assumes S: "serving a R K H b act w"
  shows "registrations_ok R w"
  unfolding registrations_ok_def
proof (intro ballI allI impI)
  fix i d m x
  assume i: "i \<in> all_loops w" and "interest (ctlTrace (pol w i)) d = Some (m, x)"
  then have c: "channels (pol w i) d = Some x" by (rule serving_registered [OF S])
  then show "case x of ChConn cid \<Rightarrow> alive w cid \<and> loopIx (conns w cid) = i \<and> sockFd (conns w cid) = d
      | _ \<Rightarrow> d \<in> R"
    using serving_key [OF S i] channel_homeD [OF servingD(5) [OF S i] c] by (cases x) auto
qed

lemma serving_watched:
  assumes S: "serving a R K H b act w" and al: "alive w cid"
  shows "\<not> enlisted cid w \<Longrightarrow> watched cid w = None"
    and "attentive cid w \<Longrightarrow> watched cid w = Some (events (chan_of cid w), ChConn cid)"
proof -
  define i where "i = loopIx (conns w cid)"
  have i: "i \<in> all_loops w" unfolding i_def by (rule serving_loop [OF S al])
  have fd: "chFd (chan (pol w i) (ChConn cid)) = sockFd (conns w cid)"
    using servingD(8) [OF S al] by (simp add: member_ok_def chan_of_def i_def)
  have p: "interest (ctlTrace (pol w i)) = wanted (pol w i)"
    using servingD(4) [OF S i] by (simp add: poller_ok_def)
  show "watched cid w = None" if "\<not> enlisted cid w"
  proof (rule ccontr)
    assume "watched cid w \<noteq> None"
    then obtain x where "channels (pol w i) (sockFd (conns w cid)) = Some x"
      using p by (auto simp: watched_def i_def [symmetric] wanted_def split: option.splits)
    then have "hasChannel (ChConn cid) (pol w i)"
      using serving_owns [OF S al] fd by (auto simp: owns_fd_def hasChannel_def i_def)
    then show False using that serving_enlisted [OF S al] by (simp add: i_def)
  qed
  show "watched cid w = Some (events (chan_of cid w), ChConn cid)" if a: "attentive cid w"
  proof -
    have "enlisted cid w" using a by (auto simp: attentive_def enlisted_def index_defs)
    then have "channels (pol w i) (sockFd (conns w cid)) = Some (ChConn cid)"
      using serving_enlisted [OF S al] fd by (simp add: hasChannel_def i_def)
    then show ?thesis using a p
      by (simp add: watched_def i_def [symmetric] wanted_def attentive_def chan_of_def)
  qed
qed

lemma count_one:
  assumes "distinct (filter is_est fs)" "FConnectEstablished cid \<in> set fs"
  shows "count_list fs (FConnectEstablished cid) = 1"
  using assms
proof (induction fs)
  case (Cons f fs)
  have none: "count_list fs f = 0" if "f \<notin> set fs" using that by (simp add: count_list_0_iff)
  show ?case using Cons none by (cases "f = FConnectEstablished cid") (auto split: if_splits)
qed simp

lemma serving_life:
  assumes S: "serving a R (still s) (called s) (batch s) (active s) (srv s)" and al: "alive (srv s) cid"
  shows "life_ok s cid"
proof -
  note M = servingD(8) [OF S al]
  have i: "loopIx (conns (srv s) cid) \<in> all_loops (srv s)" by (rule serving_loop [OF S al])
  then have l: "loopIx (conns (srv s) cid) \<in> all_loops (srv s) - {baseIx (srv s)}"
    using M servingD(1) [OF S] by (auto simp: member_ok_def pool_fine_def)
  have "distinct (filter is_est (due (batch s) (loopIx (conns (srv s) cid)) (srv s)))"
    using servingD(6) [OF S i] by (simp add: tasks_fine_def)
  note one = count_one [OF this]
  have st: "stage_ok (called s) (batch s) cid (srv s)" using M by (simp add: member_ok_def)
  show ?thesis using M st l one serving_watched [OF S al]
    by (auto simp: life_ok_def member_ok_def stage_ok_def attentive_def split: StateE.splits)
qed

end
