(* ===== verification/SystemTurns.thy ===== *)
theory SystemTurns
  imports EchoMain
begin

text \<open>
  Whole turns of a loop as runs of the interleaved system: \<open>loop_once\<close> and \<open>doPendingFunctors\<close> of
  \<open>Servers\<close> against the steps of \<open>srv_step\<close>, for any application that keeps \<open>connection_app\<close>.
\<close>

subsection \<open>States in which one loop is under way\<close>

lemma idle_sys_sel [simp]:
  "srv (idle_sys w) = w" "phase (idle_sys w) i = Waiting" "active (idle_sys w) i = []"
  "batch (idle_sys w) i = []" "finished (idle_sys w) i = []"
  by (simp_all add: idle_sys_def)

definition idle_but :: "nat \<Rightarrow> phase \<Rightarrow> chan_id list \<Rightarrow> task list \<Rightarrow> task list \<Rightarrow> server \<Rightarrow> sys" where
  "idle_but i ph cs fs gs w = (idle_sys w)\<lparr>phase := (\<lambda>_. Waiting)(i := ph), active := (\<lambda>_. [])(i := cs),
     batch := (\<lambda>_. [])(i := fs), finished := (\<lambda>_. [])(i := gs)\<rparr>"

lemma idle_but_sel [simp]:
  "srv (idle_but i ph cs fs gs w) = w" "phase (idle_but i ph cs fs gs w) i = ph"
  "active (idle_but i ph cs fs gs w) i = cs" "batch (idle_but i ph cs fs gs w) i = fs"
  "finished (idle_but i ph cs fs gs w) i = gs"
  by (simp_all add: idle_but_def)

lemma idle_but_idle: "idle_but i Waiting [] [] [] w = idle_sys w"
  by (simp add: idle_but_def idle_sys_def fun_eq_iff)

subsection \<open>A turn of a loop\<close>

text \<open>The connection counter does not overflow while the channels are handled.\<close>

fun counter_fits ::
  "senv \<Rightarrow> nat \<Rightarrow> sockaddr_in \<Rightarrow> int \<Rightarrow> chan_id list \<Rightarrow> server \<Rightarrow> bool" where
  "counter_fits env i peer0 t [] w = True"
| "counter_fits env i peer0 t (c # cs) w = (nextConnId w < 2 ^ 31 - 1 \<and>
     (case handle_active env i peer0 t c w of None \<Rightarrow> True | Some u \<Rightarrow> counter_fits env i peer0 t cs u))"

text \<open>No connection is made or closed, and those that are not closed survive.\<close>

definition survive :: "server \<Rightarrow> server \<Rightarrow> bool" where
  "survive w w' \<longleftrightarrow> (\<forall>c. closed c w' = closed c w \<and> (alive w' c \<longrightarrow> alive w c) \<and>
     (alive w c \<and> \<not> closed c w \<longrightarrow> alive w' c))"

lemma survive_refl: "survive w w"
  by (simp add: survive_def)

lemma survive_trans: "survive u v \<Longrightarrow> survive v w \<Longrightarrow> survive u w"
  unfolding survive_def by metis

text \<open>The tasks of loop \<open>i\<close> have been run; off the base loop no other queue is touched.\<close>

definition drained :: "nat \<Rightarrow> server \<Rightarrow> server \<Rightarrow> bool" where
  "drained i w w' \<longleftrightarrow> baseIx w' = baseIx w \<and> pendingFunctors (evl w' i) = [] \<and> survive w w' \<and>
     (i \<noteq> baseIx w \<longrightarrow> (\<forall>j. j \<noteq> i \<longrightarrow> pendingFunctors (evl w' j) = pendingFunctors (evl w j)))"

lemma release_task_sel [simp]:
  fixes w :: server
  shows "evl (release_task f w) = evl w" "baseIx (release_task f w) = baseIx w"
    "conns (release_task f w) = conns w" "connections (release_task f w) = connections w"
  by (simp_all add: release_task_def release_def TcpConnection_dtor_def Socket_dtor_def log_call_def
      split: option.split)

lemma releases_sel [simp]:
  fixes w :: server
  shows "evl (fold release_task fs w) = evl w" "baseIx (fold release_task fs w) = baseIx w"
    "conns (fold release_task fs w) = conns w"
  by (induction fs arbitrary: w) simp_all

lemma release_task_alive:
  fixes w :: server
  shows "alive (release_task f w) c \<longrightarrow> alive w c" "mapped c w \<and> alive w c \<longrightarrow> alive (release_task f w) c"
proof -
  have "mapped d w \<longrightarrow> referenced d w" for d by (simp add: mapped_def referenced_def)
  then show "alive (release_task f w) c \<longrightarrow> alive w c" "mapped c w \<and> alive w c \<longrightarrow> alive (release_task f w) c"
    by (auto simp: release_task_def release_def TcpConnection_dtor_def Socket_dtor_def log_call_def
        split: option.split)
qed

lemma releases_alive:
  fixes w :: server
  shows "(alive (fold release_task fs w) c \<longrightarrow> alive w c) \<and>
    (mapped c w \<and> alive w c \<longrightarrow> alive (fold release_task fs w) c)"
proof (induction fs arbitrary: w)
  case (Cons f fs)
  have "mapped c (release_task f w) = mapped c w" by (simp add: mapped_def)
  with Cons.IH [where w = "release_task f w"] release_task_alive [where f = f and w = w and c = c]
  show ?case unfolding fold_Cons o_apply by blast
qed simp

text \<open>With no batch under way the tasks of the queues and the map are all that hold a connection.\<close>

lemma idle_release: "fold drop_ref fs (idle_sys w) = idle_sys (fold release_task fs w)"
proof (induction fs arbitrary: w)
  case (Cons f fs)
  have "held cid (idle_sys w) = referenced cid w" for cid by (simp add: held_def idle_sys_def)
  then have "drop_ref f (idle_sys w) = idle_sys (release_task f w)"
    by (simp add: drop_ref_def release_task_def release_def split: option.split) (simp add: idle_sys_def)
  then show ?case using Cons.IH by simp
qed simp

text \<open>The end of a turn: the tasks are run, their shared pointers dropped.\<close>

lemma tasks_drained:
  assumes ef: "task_effect i (begin_functors i w) u"
    and m: "\<And>c. alive u c \<Longrightarrow> \<not> closed c u \<Longrightarrow> mapped c u"
  shows "drained i w (fold release_task fs (end_functors i u))"
proof -
  define w' where "w' = fold release_task fs (end_functors i u)"
  have e: "alive u = alive w" "closed c u = closed c w" "baseIx u = baseIx w"
    "pendingFunctors (evl u i) = []" "i \<noteq> baseIx w \<longrightarrow> evl u = evl (begin_functors i w)" for c
    using ef by (simp_all add: task_effect_def begin_functors_def closed_def)
  have f: "alive (end_functors i u) = alive u" "mapped c (end_functors i u) = mapped c u"
    "conns (end_functors i u) = conns u" for c
    by (simp_all add: end_functors_def mapped_def)
  have "closed c w' = closed c w" for c using e(2) f(3) by (simp only: w'_def closed_def releases_sel)
  moreover have "alive w' c \<longrightarrow> alive w c" "alive w c \<and> \<not> closed c w \<longrightarrow> alive w' c" for c
    using releases_alive [where fs = fs and w = "end_functors i u" and c = c] m [of c]
    unfolding f w'_def e(1,2) by blast+
  ultimately have "survive w w'" unfolding survive_def by blast
  moreover have "baseIx w' = baseIx w" "pendingFunctors (evl w' i) = []"
    "i \<noteq> baseIx w \<longrightarrow> (\<forall>j. j \<noteq> i \<longrightarrow> pendingFunctors (evl w' j) = pendingFunctors (evl w j))"
    using e(3-5) by (simp_all add: w'_def end_functors_def begin_functors_def)
  ultimately show ?thesis unfolding drained_def w'_def by blast
qed

text \<open>
  A step that reports no new event: the active channels are at most those before it.
\<close>

definition calm :: "senv \<Rightarrow> sockaddr_in \<Rightarrow> sys \<Rightarrow> sys \<Rightarrow> bool" where
  "calm env peer0 s t \<longleftrightarrow> srv_step env peer0 s t \<and> (\<forall>i. set (active t i) \<subseteq> set (active s i))"

lemma calmI: "srv_step env peer0 s t \<Longrightarrow> (\<And>i. set (active t i) \<subseteq> set (active s i)) \<Longrightarrow> calm env peer0 s t"
  by (simp add: calm_def)

lemma calm_runs: "(calm env peer0)\<^sup>*\<^sup>* s t \<Longrightarrow> (srv_step env peer0)\<^sup>*\<^sup>* s t"
  by (induction rule: rtranclp_induct) (auto simp: calm_def intro: rtranclp.rtrancl_into_rtrancl)

lemma idle_but_active: "active (idle_but i ph [] fs gs w) j = []"
  by (simp add: idle_but_def)

context connection_app
begin

lemma handle_run:
  assumes m: "machine_ok env R" and np: "no_sigpipe (os1 env)"
    and S: "sys_ok a R (idle_but i Handling cs [] [] w)"
    and i: "i \<in> snd a" and n: "counter_fits env i peer0 t cs w"
  shows "\<exists>w'. fold_opt (handle_active env i peer0 t) cs w = Some w' \<and>
    sys_ok a R (idle_but i Handling [] [] [] w') \<and>
    (srv_step env peer0)\<^sup>*\<^sup>* (idle_but i Handling cs [] [] w) (idle_but i Handling [] [] [] w')"
  using S n
proof (induction cs arbitrary: w)
  case Nil
  then show ?case by simp
next
  case (Cons c cs)
  let ?s = "idle_but i Handling (c # cs) [] [] w"
  have i': "i \<in> all_loops (srv ?s)" using serving_all_loops [OF sys_okD(1) [OF Cons.prems(1)]] i by simp
  have n: "nextConnId (srv ?s) < 2 ^ 31 - 1" using Cons.prems(2) by simp
  obtain u where u: "handle_active env i peer0 t c (srv ?s) = Some u"
    "sys_ok a R (?s\<lparr>srv := u, active := (active ?s)(i := cs)\<rparr>)"
    using yields_total [OF handle_sys_ok [OF m Cons.prems(1) i' idle_but_sel(2,3) n] np] by blast
  have t: "?s\<lparr>srv := u, active := (active ?s)(i := cs)\<rparr> = idle_but i Handling cs [] [] u"
    by (simp add: idle_but_def idle_sys_def)
  have st: "srv_step env peer0 ?s (idle_but i Handling cs [] [] u)"
    using s_handle [OF i' idle_but_sel(2,3) n u(1)] unfolding t .
  have "counter_fits env i peer0 t cs u" using Cons.prems(2) u(1) by simp
  from Cons.IH [OF u(2) [unfolded t] this] show ?case
    using u(1) st by (auto intro: converse_rtranclp_into_rtranclp)
qed

lemma run_run:
  assumes m: "machine_ok env R" and S: "sys_ok a R (idle_but i Running [] fs gs w)" and i: "i \<in> snd a"
  shows "\<exists>w'. fold_opt (run_task env i) fs w = Some w' \<and>
    sys_ok a R (idle_but i Running [] [] (gs @ fs) w') \<and>
    (calm env peer0)\<^sup>*\<^sup>* (idle_but i Running [] fs gs w) (idle_but i Running [] [] (gs @ fs) w') \<and>
    task_effect i w w'"
  using S
proof (induction fs arbitrary: w gs)
  case Nil
  then show ?case by (simp add: task_effect_refl)
next
  case (Cons f fs)
  let ?s = "idle_but i Running [] (f # fs) gs w"
  have i': "i \<in> all_loops (srv ?s)" using serving_all_loops [OF sys_okD(1) [OF Cons.prems(1)]] i by simp
  obtain u where u: "run_task env i f (srv ?s) = Some u"
    "task_effect i (srv ?s) u"
    "sys_ok a R (?s\<lparr>srv := u, batch := (batch ?s)(i := fs), finished := (finished ?s)(i := finished ?s i @ [f])\<rparr>)"
    using run_sys_ok [OF m Cons.prems(1) i' idle_but_sel(2,4)] by blast
  have t: "?s\<lparr>srv := u, batch := (batch ?s)(i := fs), finished := (finished ?s)(i := finished ?s i @ [f])\<rparr> =
      idle_but i Running [] fs (gs @ [f]) u"
    by (simp add: idle_but_def idle_sys_def)
  have st: "calm env peer0 ?s (idle_but i Running [] fs (gs @ [f]) u)"
    using s_run [OF i' idle_but_sel(2,4) u(1)] unfolding t by (rule calmI) (simp add: idle_but_active)
  from Cons.IH [OF u(3) [unfolded t]] show ?case
    using u(1,2) st by (auto intro: converse_rtranclp_into_rtranclp task_effect_trans)
qed

lemma step_runs_ok:
  assumes "(srv_step env peer0)\<^sup>*\<^sup>* s t" "machine_ok env R" "sys_ok a R s"
  shows "sys_ok a R t"
  using running.run_inv [OF assms(1)] assms(2,3) by blast

lemma calm_runs_ok:
  "(calm env peer0)\<^sup>*\<^sup>* s t \<Longrightarrow> machine_ok env R \<Longrightarrow> sys_ok a R s \<Longrightarrow> sys_ok a R t"
  by (rule step_runs_ok [OF calm_runs])

lemma poll_run:
  assumes S: "sys_ok a R (idle_sys w)" and i: "i \<in> snd a" and e: "events_ok r (pol w i)"
    and p: "poll r [] (pol w i) = (cs, q)"
  shows "srv_step env peer0 (idle_sys w) (idle_but i Handling cs [] [] (w\<lparr>pol := (pol w)(i := q)\<rparr>))"
proof -
  have i': "i \<in> all_loops (srv (idle_sys w))" using serving_all_loops [OF sys_okD(1) [OF S]] i by simp
  have "idle_but i Handling cs [] [] (w\<lparr>pol := (pol w)(i := q)\<rparr>) =
      (idle_sys w)\<lparr>srv := (srv (idle_sys w))\<lparr>pol := (pol (srv (idle_sys w)))(i := q)\<rparr>,
        phase := (phase (idle_sys w))(i := Handling), active := (active (idle_sys w))(i := cs)\<rparr>"
    by (simp add: idle_but_def idle_sys_def fun_eq_iff)
  then show ?thesis using s_poll [OF i' idle_sys_sel(2), of r cs q] e p by simp
qed

lemma tasks_run:
  assumes m: "machine_ok env R" and S: "sys_ok a R (idle_but i Handling [] [] [] w)" and i: "i \<in> snd a"
  shows "\<exists>w'. doPendingFunctors env i w = Some w' \<and>
    (calm env peer0)\<^sup>*\<^sup>* (idle_but i Handling [] [] [] w) (idle_sys w') \<and> drained i w w'"
proof -
  define fs where "fs = pendingFunctors (evl w i)"
  let ?s = "idle_but i Handling [] [] [] w" and ?t = "idle_but i Running [] fs [] (begin_functors i w)"
  have i': "i \<in> all_loops (srv ?s)" using serving_all_loops [OF sys_okD(1) [OF S]] i by simp
  have "?t = ?s\<lparr>srv := begin_functors i (srv ?s), phase := (phase ?s)(i := Running),
      batch := (batch ?s)(i := pendingFunctors (evl (srv ?s) i)), finished := (finished ?s)(i := [])\<rparr>"
    by (simp add: idle_but_def idle_sys_def fs_def fun_eq_iff)
  then have st0: "srv_step env peer0 ?s ?t" using s_swap [OF i' idle_but_sel(2,3)] by simp
  then have st: "calm env peer0 ?s ?t" by (rule calmI) (simp add: idle_but_active)
  have St: "sys_ok a R ?t" by (rule step_sys_ok [OF st0 m S])
  obtain u where u: "fold_opt (run_task env i) fs (begin_functors i w) = Some u"
    "sys_ok a R (idle_but i Running [] [] fs u)"
    "(calm env peer0)\<^sup>*\<^sup>* ?t (idle_but i Running [] [] fs u)"
    "task_effect i (begin_functors i w) u"
    using run_run [OF m St i, of peer0] by auto
  define w' where "w' = fold release_task fs (end_functors i u)"
  let ?u = "idle_but i Running [] [] fs u"
  have iu: "i \<in> all_loops (srv ?u)" using serving_all_loops [OF sys_okD(1) [OF u(2)]] i by simp
  have "?u\<lparr>srv := end_functors i (srv ?u), phase := (phase ?u)(i := Waiting), finished := (finished ?u)(i := [])\<rparr> =
      idle_sys (end_functors i u)"
    by (simp add: idle_but_def idle_sys_def fun_eq_iff)
  then have "srv_step env peer0 ?u (idle_sys w')"
    using s_finish [OF iu idle_but_sel(2,4)] by (simp add: idle_release w'_def)
  then have "calm env peer0 ?u (idle_sys w')" by (rule calmI) simp
  then have "(calm env peer0)\<^sup>*\<^sup>* ?s (idle_sys w')"
    using st u(3) by (meson converse_rtranclp_into_rtranclp rtranclp.rtrancl_into_rtrancl)
  moreover have "doPendingFunctors env i w = Some w'"
    using u(1) by (simp add: doPendingFunctors_def Let_def fs_def [symmetric] begin_functors_def
        end_functors_def w'_def)
  moreover have "mapped c u" if "alive u c" "\<not> closed c u" for c
    using servingD(8) [OF sys_okD(1) [OF u(2)], of c] that
    by (auto simp: member_ok_def stage_ok_def closed_def split: StateE.splits)
  from tasks_drained [OF u(4) this] have "drained i w w'" unfolding w'_def .
  ultimately show ?thesis by blast
qed

lemma turn_run:
  assumes m: "machine_ok env R" and np: "no_sigpipe (os1 env)"
    and S: "sys_ok a R (idle_sys w)" and i: "i \<in> snd a"
    and e: "events_ok r (pol w i)" and p: "poll r [] (pol w i) = (cs, q)"
    and n: "counter_fits env i peer0 t cs (w\<lparr>pol := (pol w)(i := q)\<rparr>)"
  shows "\<exists>w'. loop_once env i peer0 r t w = Some w' \<and>
    (srv_step env peer0)\<^sup>*\<^sup>* (idle_sys w) (idle_sys w')"
proof -
  define w1 where "w1 = w\<lparr>pol := (pol w)(i := q)\<rparr>"
  have st: "srv_step env peer0 (idle_sys w) (idle_but i Handling cs [] [] w1)"
    unfolding w1_def by (rule poll_run [OF S i e p])
  obtain w2 where w2: "fold_opt (handle_active env i peer0 t) cs w1 = Some w2"
    "sys_ok a R (idle_but i Handling [] [] [] w2)"
    "(srv_step env peer0)\<^sup>*\<^sup>* (idle_but i Handling cs [] [] w1) (idle_but i Handling [] [] [] w2)"
    using handle_run [OF m np step_sys_ok [OF st m S] i] n unfolding w1_def by blast
  obtain w' where w': "doPendingFunctors env i w2 = Some w'"
    "(srv_step env peer0)\<^sup>*\<^sup>* (idle_but i Handling [] [] [] w2) (idle_sys w')"
    using tasks_run [OF m w2(2) i, of peer0] calm_runs by blast
  have "loop_once env i peer0 r t w = Some w'"
    using p w2(1) w'(1) by (simp add: loop_once_def w1_def del: handle_active.simps)
  then show ?thesis using st w2(3) w'(2)
    by (meson converse_rtranclp_into_rtranclp rtranclp_trans)
qed

text \<open>A turn without events.\<close>

lemma quiet_turn:
  assumes m: "machine_ok env R" and S: "sys_ok a R (idle_sys w)" and i: "i \<in> snd a"
  shows "\<exists>w'. loop_once env i peer0 (Inr []) t w = Some w' \<and> drained i w w' \<and>
    (calm env peer0)\<^sup>*\<^sup>* (idle_sys w) (idle_sys w')"
proof -
  have e: "events_ok (Inr []) (pol w i)" by (simp add: events_ok_def)
  have p: "poll (Inr []) [] (pol w i) = ([], pol w i)" by (simp add: poll_def)
  have st0: "srv_step env peer0 (idle_sys w) (idle_but i Handling [] [] [] w)"
    using poll_run [OF S i e p] by simp
  then have st: "calm env peer0 (idle_sys w) (idle_but i Handling [] [] [] w)"
    by (rule calmI) (simp add: idle_but_active)
  obtain w' where w': "doPendingFunctors env i w = Some w'" "drained i w w'"
    "(calm env peer0)\<^sup>*\<^sup>* (idle_but i Handling [] [] [] w) (idle_sys w')"
    using tasks_run [OF m step_sys_ok [OF st0 m S] i] by blast
  then show ?thesis using st
    by (intro exI [of _ w']) (auto simp: loop_once_def p intro: converse_rtranclp_into_rtranclp)
qed

lemma quiet_turns:
  assumes m: "machine_ok env R" and "sys_ok a R (idle_sys w)" "set ls \<subseteq> snd a - {baseIx w}"
    and "\<forall>j \<in> D. pendingFunctors (evl w j) = []"
  shows "\<exists>w'. fold_opt (\<lambda>i. loop_once env i peer0 (Inr []) t) ls w = Some w' \<and>
    (calm env peer0)\<^sup>*\<^sup>* (idle_sys w) (idle_sys w') \<and>
    (\<forall>j \<in> D \<union> set ls. pendingFunctors (evl w' j) = []) \<and> survive w w'"
  using assms(2-4)
proof (induction ls arbitrary: w D)
  case Nil
  then show ?case by (simp add: survive_refl)
next
  case (Cons i ls)
  have i: "i \<in> snd a" "i \<noteq> baseIx w" using Cons.prems(2) by auto
  obtain u where u: "loop_once env i peer0 (Inr []) t w = Some u" "drained i w u"
    "(calm env peer0)\<^sup>*\<^sup>* (idle_sys w) (idle_sys u)"
    using quiet_turn [OF m Cons.prems(1) i(1)] by blast
  have "set ls \<subseteq> snd a - {baseIx u}" "\<forall>j \<in> insert i D. pendingFunctors (evl u j) = []"
    using Cons.prems(2,3) u(2) i(2) by (auto simp: drained_def)
  from Cons.IH [OF calm_runs_ok [OF u(3) m Cons.prems(1)] this] show ?case
    using u(1,3) survive_trans [of w u] u(2) by (auto simp: drained_def intro: rtranclp_trans)
qed

end

end
