(* ===== verification/EchoStream.thy ===== *)
theory EchoStream
  imports EchoMain "HOL-Library.Sublist"
begin

text \<open>
  The bytes of a conversation in the running echo server: what was read from a connection since
  it was accepted against what was written to it, for any interleaving of the loops' threads.

  The descriptor numbers are reused, so the history of a connection is that part of the
  trace that follows the last \<open>accept\<close> of its descriptor (\<open>since\<close>). \<open>echo_ok\<close> is the invariant:
  as long as every \<open>write\<close> of the conversation took all it was given and every \<open>readv\<close> stayed
  within the input buffer (\<open>smooth\<close>), what was sent is what was received.
\<close>

subsection \<open>The history of a connection\<close>

fun since_step :: "fd \<Rightarrow> sys_call \<Rightarrow> sys_call list \<Rightarrow> sys_call list" where
  "since_step d (CAccept l (Inr (c, a))) tr = (if c = d then [] else tr @ [CAccept l (Inr (c, a))])"
| "since_step d x tr = tr @ [x]"

definition since :: "fd \<Rightarrow> sys_call list \<Rightarrow> sys_call list" where
  "since d tr = fold (since_step d) tr []"

fun smooth_call :: "fd \<Rightarrow> sys_call \<Rightarrow> bool" where
  "smooth_call d (CWrite d' bs r) \<longleftrightarrow> (d' = d \<longrightarrow> r = Inr (length bs))"
| "smooth_call d (CRead d' (Inr bs)) \<longleftrightarrow> (d' = d \<longrightarrow> length bs < InitialSize)"
| "smooth_call d x \<longleftrightarrow> True"

definition smooth :: "fd \<Rightarrow> sys_call list \<Rightarrow> bool" where
  "smooth d tr \<longleftrightarrow> list_all (smooth_call d) (since d tr)"

definition received :: "fd \<Rightarrow> sys_call list \<Rightarrow> bytes" where
  "received d tr = received_on d (since d tr)"

definition sent :: "fd \<Rightarrow> sys_call list \<Rightarrow> bytes" where
  "sent d tr = sent_on d (since d tr)"

definition echo_ok :: "nat \<Rightarrow> server \<Rightarrow> bool" where
  "echo_ok cid w \<longleftrightarrow> (let d = sockFd (conns w cid) in smooth d (calls w) \<longrightarrow>
     idle (inputBuffer (conns w cid)) \<and> readable (outputBuffer (conns w cid)) = [] \<and>
     \<not> isWriting (chan_of cid w) \<and> prefix (sent d (calls w)) (received d (calls w)) \<and>
     (connState (conns w cid) \<noteq> KDisconnected \<longrightarrow> sent d (calls w) = received d (calls w)) \<and>
     (connState (conns w cid) = KConnecting \<longrightarrow> received d (calls w) = []))"

lemma since_snoc [simp]: "since d (tr @ [x]) = since_step d x (since d tr)"
  by (simp add: since_def)

lemma since_inner: "list_all inner_call cs \<Longrightarrow> since d (tr @ cs) = since d tr @ cs"
proof (induction cs rule: rev_induct)
  case (snoc x cs)
  have "since_step d x (since d (tr @ cs)) = since d (tr @ cs) @ [x]" using snoc.prems by (cases x) auto
  then show ?case using snoc since_snoc [of d "tr @ cs" x] by simp
qed simp

text \<open>A call of \<open>x\<close> that does not accept \<open>d\<close> again and is no transfer on \<open>d\<close>.\<close>

definition foreign :: "fd \<Rightarrow> sys_call \<Rightarrow> bool" where
  "foreign d x \<longleftrightarrow> (\<forall>tr. since_step d x tr = tr @ [x]) \<and> sent_on d [x] = [] \<and> received_on d [x] = [] \<and>
     smooth_call d x"

lemma foreign_simps [simp]:
  "foreign d (CClose e)" "foreign d (CAccept l (Inl r))" "e \<noteq> d \<Longrightarrow> foreign d (CAccept l (Inr (e, a)))"
  "foreign d (CSoError e v)" "foreign d (CGetsockname e n)" "foreign d (CSetopt e opt on)"
  by (simp_all add: foreign_def)

lemma own_foreign: "own_call e x \<Longrightarrow> e \<noteq> d \<Longrightarrow> foreign d x"
proof (cases x)
  case (CRead d' r)
  assume "own_call e x" "e \<noteq> d"
  then show ?thesis using CRead by (cases r) (auto simp: foreign_def)
next
  case (CWrite d' bs r)
  assume "own_call e x" "e \<noteq> d"
  then show ?thesis using CWrite by (cases r) (auto simp: foreign_def)
qed (auto simp: foreign_def)

lemma foreign_history:
  assumes "list_all (foreign d) cs"
  shows "sent d (tr @ cs) = sent d tr" "received d (tr @ cs) = received d tr" "smooth d (tr @ cs) = smooth d tr"
proof -
  have "since d (tr @ cs) = since d tr @ cs \<and> sent_on d cs = [] \<and> received_on d cs = [] \<and>
      list_all (smooth_call d) cs"
    using assms
  proof (induction cs rule: rev_induct)
    case (snoc x cs)
    then show ?case using since_snoc [of d "tr @ cs" x] by (auto simp: foreign_def)
  qed simp
  then show "sent d (tr @ cs) = sent d tr" "received d (tr @ cs) = received d tr"
    "smooth d (tr @ cs) = smooth d tr"
    by (simp_all add: sent_def received_def smooth_def)
qed

lemma own_history:
  assumes "list_all (own_call d) cs"
  shows "sent d (tr @ cs) = sent d tr @ sent_on d cs" "received d (tr @ cs) = received d tr @ received_on d cs"
    "smooth d (tr @ cs) \<longleftrightarrow> smooth d tr \<and> list_all (smooth_call d) cs"
  using since_inner [OF own_inner_all [OF assms], of d tr] by (auto simp: sent_def received_def smooth_def)

lemma accept_history:
  "sent d (tr @ [CAccept l (Inr (d, a))]) = []" "received d (tr @ [CAccept l (Inr (d, a))]) = []"
  by (simp_all add: sent_def received_def)

text \<open>The invariant depends on the connection, its channel and its history.\<close>

lemma echo_ok_cong:
  assumes "conns w' cid = conns w cid" "events (chan_of cid w') = events (chan_of cid w)"
    and "calls w' = calls w @ cs" "list_all (foreign (sockFd (conns w cid))) cs"
  shows "echo_ok cid w' = echo_ok cid w"
  using foreign_history [OF assms(4), of "calls w"] assms(1-3)
  by (simp add: echo_ok_def isWriting_def)

lemma echo_ok_within:
  assumes "within cid w w'" "d \<noteq> cid" "sockFd (conns w d) \<noteq> sockFd (conns w cid)" "echo_ok d w"
  shows "echo_ok d w'"
proof -
  obtain cs where cs: "calls w' = calls w @ cs" "list_all (own_call (sockFd (conns w cid))) cs"
    using assms(1) by (auto simp: within_def)
  have "list_all (foreign (sockFd (conns w d))) cs"
    using cs(2) own_foreign [OF _ assms(3) [symmetric]] by (auto simp: list_all_iff)
  moreover have "conns w' d = conns w d" "chan_of d w' = chan_of d w"
    using assms(1,2) by (simp_all add: within_def)
  ultimately show ?thesis using echo_ok_cong [OF _ _ cs(1)] assms(4) by metis
qed

text \<open>Once impaired, a conversation stays so.\<close>

lemma within_smooth:
  assumes "within cid w w'" "smooth (sockFd (conns w' cid)) (calls w')"
  shows "smooth (sockFd (conns w cid)) (calls w)"
  using assms own_history(3) by (auto simp: within_def)


subsection \<open>The callbacks of a connection\<close>

lemma echo_okD:
  assumes "echo_ok cid w" "smooth (sockFd (conns w cid)) (calls w)"
  shows "idle (inputBuffer (conns w cid))" "readable (outputBuffer (conns w cid)) = []"
    "\<not> isWriting (chan_of cid w)"
    "prefix (sent (sockFd (conns w cid)) (calls w)) (received (sockFd (conns w cid)) (calls w))"
    "connState (conns w cid) \<noteq> KDisconnected \<Longrightarrow>
       sent (sockFd (conns w cid)) (calls w) = received (sockFd (conns w cid)) (calls w)"
    "connState (conns w cid) = KConnecting \<Longrightarrow> received (sockFd (conns w cid)) (calls w) = []"
  using assms by (simp_all add: echo_ok_def Let_def)

lemma removeConnection_world:
  "removeConnection me cid w = Some w' \<Longrightarrow> conns w' = conns w \<and> calls w' = calls w \<and> pol w' = pol w"
  by (auto simp: removeConnection_def removeConnectionInLoop_def queue_on_def split: if_splits)

text \<open>What \<open>handleClose\<close> of the echo server leaves: its handlers touch neither the connection nor its channel.\<close>

lemma echo_closed:
  assumes env: "env = server_env (echo_app o1 k d ptr)"
    and ok: "conn_ok env cid w" and c: "handleClose env cid w = Some w'"
  obtains w1 where "closed_for env cid w w1" "conns w' = conns w1" "calls w' = calls w1"
    "chan_of cid w' = chan_of cid w1"
proof -
  obtain w1 where w1: "closed_for env cid w w1"
    "handleClose env cid w = invoke (onConnection env) cid w1 \<bind> invoke (onClose env) cid"
    using handleClose_ok [OF ok] by blast
  then have "removeConnection (loopIx (conns w1 cid)) cid w1 = Some w'"
    using c by (simp add: env invoke_def echo_onConnection_def) (simp add: server_env_def setter_defs)
  then have "conns w' = conns w1" "calls w' = calls w1" "chan_of cid w' = chan_of cid w1"
    using removeConnection_world by (fastforce simp: chan_of_def)+
  then show ?thesis using that [OF w1(1)] by simp
qed

lemma echo_close:
  assumes env: "env = server_env (echo_app o1 k d ptr)"
    and ok: "conn_ok env cid w" and e: "echo_ok cid w" and c: "handleClose env cid w = Some w'"
  shows "echo_ok cid w'"
proof -
  obtain w1 where w1: "closed_for env cid w w1" and w': "conns w' = conns w1" "calls w' = calls w1"
    "chan_of cid w' = chan_of cid w1"
    by (rule echo_closed [OF env ok c])
  have "\<not> isWriting (chan_of cid w1)" using w1 by (simp add: closed_for_def)
  then show ?thesis using e w1 unfolding echo_ok_def Let_def w' by (simp add: closed_for_def)
qed

lemma echo_error:
  assumes env: "env = server_env (echo_app o1 k d ptr)"
    and ok: "conn_ok env cid w" and e: "echo_ok cid w" and c: "handleError env cid w = Some w'"
  shows "echo_ok cid w'"
proof -
  define x where "x = CSoError (sockFd (conns w cid)) (os_soerror (os1 env) (calls w) (sockFd (conns w cid)))"
  have "echo_ok cid (log_call x w) = echo_ok cid w"
    by (rule echo_ok_cong [where cs = "[x]"]) (simp_all add: x_def)
  then show ?thesis
    using echo_close [OF env, of cid "log_call x w" w'] ok e c
    by (simp add: handleError_def Let_def x_def)
qed

lemma send_rest_calls: "send_rest env me cid data n m w = Some w' \<Longrightarrow> calls w' = calls w"
  by (auto simp: send_rest_def Let_def on_chan_def split: if_splits Option.bind_splits)

lemma send_smooth:
  assumes ok: "conn_ok env cid v" and q: "no_tasks env" and d: "direct cid v"
    and s: "sendInLoop env me cid data v = Some w'" and sm: "smooth (sockFd (conns v cid)) (calls w')"
  shows "w' = log_call (CWrite (sockFd (conns v cid)) data (Inr (length data))) v"
proof -
  define fd where "fd = sockFd (conns v cid)"
  define r where "r = os_write (os1 env) (calls v) fd data"
  have dd: "\<not> isWriting (chan_of cid v)" "readableBytes (outputBuffer (conns v cid)) = 0"
    using d direct_iff [OF ok] by simp_all
  have "calls w' = calls v @ [CWrite fd data r]"
    using s dd q by (cases r) (auto simp: sendInLoop_def send_direct_def Let_def no_tasks_def fd_def r_def
        opt_simps sock_write_Some dest!: send_rest_calls split: if_splits)
  then have "r = Inr (length data)"
    using sm own_history(3) [of fd "[CWrite fd data r]" "calls v"] by (simp add: fd_def)
  then show ?thesis
    using s dd q by (simp add: sendInLoop_def send_direct_def Let_def no_tasks_def fd_def r_def usub_def
        sock_write_def)
qed


lemma idle_read_nothing: "idle b \<Longrightarrow> idle (snd (snd (readFd (Inr []) b)))"
  using idle_facts [of b] by (simp add: idle_def readFd_def Let_def mem_simps InitialSize_def)

text \<open>The message callback after a \<open>readv\<close> that stayed within the input buffer.\<close>

lemma message_sends:
  assumes ok: "conn_ok env cid w" and os: "os_ok (os1 env)" and r: "read_result env cid w = Inr bs"
    and id: "idle (inputBuffer (conns w cid))" and len: "length bs < InitialSize"
  shows "\<exists>v b. conn_ok env cid v \<and> calls v = calls w @ [CRead (sockFd (conns w cid)) (Inr bs)] \<and>
    chan_of cid v = chan_of cid w \<and> conns v cid = (conns w cid)\<lparr>inputBuffer := b\<rparr> \<and> idle b \<and> world.more v = world.more w \<and>
    evl v = evl w \<and> echo_onMessage env ptr cid t (after_read env cid w) = send env (loopIx (conns w cid)) cid ptr bs v"
proof -
  define u where "u = after_read env cid w"
  define b where "b = snd (snd (readFd (Inr bs) (inputBuffer (conns w cid))))"
  define v where "v = set_conn cid (\<lambda>c. c\<lparr>inputBuffer := retrieveAll b\<rparr>) u"
  have u: "conn_ok env cid u" "chan_of cid u = chan_of cid w" "readable b = bs"
    "calls u = calls w @ [CRead (sockFd (conns w cid)) (Inr bs)]" "conns u cid = (conns w cid)\<lparr>inputBuffer := b\<rparr>"
    "world.more u = world.more w" "evl u = evl w"
    using after_read_ok [OF ok os] r len idle_facts [OF id] by (simp_all add: u_def after_read_def b_def)
  have bok: "buf_ok b" using conn_okD(1) [OF u(1)] by (simp add: u(5))
  have "conn_ok env cid v" unfolding v_def
    by (rule conn_ok_set_conn) (use u(1) bok conn_okD [OF u(1)] in \<open>simp_all add: u(5)\<close>)
  moreover have "idle (retrieveAll b)" using idle_after_read [OF id len] by (simp add: b_def)
  moreover have "echo_onMessage env ptr cid t u = send env (loopIx (conns w cid)) cid ptr bs v"
    using bok by (simp add: echo_onMessage_def retrieveAllAsString_eq u(3,5) v_def)
  ultimately show ?thesis
    by (intro exI [of _ v] exI [of _ "retrieveAll b"]) (simp add: v_def u(2,4-7) flip: u_def)
qed

lemma echo_message:
  assumes ok: "conn_ok env cid w" and os: "os_ok (os1 env)" and q: "no_tasks env"
    and e: "echo_ok cid w" and r: "read_result env cid w = Inr bs"
    and m: "echo_onMessage env ptr cid t (after_read env cid w) = Some w'"
    and st: "connState (conns w cid) = KConnected \<or> connState (conns w cid) = KDisconnected"
    and sm: "smooth (sockFd (conns w cid)) (calls w')"
    and wi: "within cid w w'"
  shows "echo_ok cid w'"
proof -
  define fd where "fd = sockFd (conns w cid)"
  have sw: "smooth fd (calls w)" using within_smooth [OF wi] sm wi by (simp add: fd_def within_def)
  note E = echo_okD [OF e, folded fd_def, OF sw]
  have "conn_ok env cid (after_read env cid w)" using after_read_ok [OF ok os] by simp
  note yieldsD [OF echo_onMessage_handler [OF this q] m]
  then obtain cs where "calls w' = calls w @ CRead fd (Inr bs) # cs" "list_all (own_call fd) cs"
    by (auto simp: handler_ok_def conn_change_def after_read_def r fd_def)
  then have len: "length bs < InitialSize"
    using sm own_history(3) [of fd "CRead fd (Inr bs) # cs" "calls w"] by (simp add: fd_def)
  obtain v b where okv: "conn_ok env cid v"
    and v: "calls v = calls w @ [CRead fd (Inr bs)]" "chan_of cid v = chan_of cid w"
      "conns v cid = (conns w cid)\<lparr>inputBuffer := b\<rparr>" "idle b"
    and snd: "send env (loopIx (conns w cid)) cid ptr bs v = Some w'"
    using message_sends [OF ok os r E(1) len, of ptr t] m unfolding fd_def by auto
  show ?thesis
  proof (cases "connState (conns w cid) = KConnected")
    case False
    then have "w' = v" using snd by (simp add: send_def v(3))
    then show ?thesis using False st E v(4) by (simp add: echo_ok_def Let_def v own_history fd_def)
  next
    case True
    then have s: "sendInLoop env (loopIx (conns w cid)) cid bs v = Some w'"
      using snd by (simp add: send_def v(3))
    have "direct cid v" using E(2,3) by (simp add: direct_def v(2,3))
    then have "w' = log_call (CWrite fd bs (Inr (length bs))) v"
      using send_smooth [OF okv q _ s] sm by (simp add: v(3) fd_def)
    then show ?thesis using E v(4) True by (simp add: echo_ok_def Let_def v own_history fd_def)
  qed
qed

text \<open>A delivery on an established connection that the kernel takes back whole.\<close>

lemma delivery_sends:
  assumes env: "env = server_env (echo_app o1 k d ptr)" and ok: "conn_ok env cid w" and os: "os_ok o1"
    and e: "echo_ok cid w"
  defines "fd \<equiv> sockFd (conns w cid)" and "e0 \<equiv> (no_callbacks o1 k d :: senv)"
  assumes sm: "smooth fd (calls w)" and r: "read_result env cid w = Inr bs" "bs \<noteq> []" "length bs < InitialSize"
  obtains v b where "conn_ok e0 cid v" "calls v = calls w @ [CRead fd (Inr bs)]"
    "conns v cid = (conns w cid)\<lparr>inputBuffer := b\<rparr>" "world.more v = world.more w" "evl v = evl w" "direct cid v"
    "conn_handleRead env cid t w = send e0 (loopIx (conns w cid)) cid ptr bs v"
proof -
  have e0: "os1 env = os1 e0" "ker e0 = ker env" "os1 e0 = o1" "onMessage env = Some (echo_onMessage e0 ptr)"
    by (simp_all add: env e0_def)
  have ok0: "conn_ok e0 cid w" using ok conn_ok_env [OF e0(2), of cid w] by simp
  note E = echo_okD [OF e, folded fd_def, OF sm]
  have r0: "read_result e0 cid w = Inr bs" using read_result_env [OF e0(1), of cid w] r(1) by simp
  obtain v b where v: "conn_ok e0 cid v" "calls v = calls w @ [CRead fd (Inr bs)]" "chan_of cid v = chan_of cid w"
      "conns v cid = (conns w cid)\<lparr>inputBuffer := b\<rparr>" "world.more v = world.more w" "evl v = evl w"
    and m: "echo_onMessage e0 ptr cid t (after_read e0 cid w) = send e0 (loopIx (conns w cid)) cid ptr bs v"
    using message_sends [OF ok0 _ r0 E(1) r(3), of ptr t] os e0(3) unfolding fd_def by auto
  have "direct cid v" using E(2,3) by (simp add: direct_def v(3,4))
  moreover have "conn_handleRead env cid t w = send e0 (loopIx (conns w cid)) cid ptr bs v"
    using conn_handleRead_eq [OF ok, of t] os e0(1,3,4) r(1,2) m after_read_env [OF e0(1), of cid w]
    by (simp add: invoke_def)
  ultimately show ?thesis using that v by blast
qed

lemma echo_whole:
  assumes env: "env = server_env (echo_app o1 k d ptr)" and ok: "conn_ok env cid w" and os: "os_ok o1"
    and e: "echo_ok cid w" and up: "connected cid w"
  defines "fd \<equiv> sockFd (conns w cid)"
  assumes sm: "smooth fd (calls w)" and r: "read_result env cid w = Inr bs" "bs \<noteq> []" "length bs < InitialSize"
    and wr: "os_write o1 (calls w @ [CRead fd (Inr bs)]) fd bs = Inr (length bs)"
  shows "\<exists>w'. conn_handleRead env cid t w = Some w' \<and> connected cid w' \<and> sockFd (conns w' cid) = fd \<and>
    world.more w' = world.more w \<and> calls w' = calls w @ [CRead fd (Inr bs), CWrite fd bs (Inr (length bs))]"
proof (rule delivery_sends [OF env ok os e sm [unfolded fd_def] r, folded fd_def])
  let ?e0 = "no_callbacks o1 k d :: senv"
  fix v b
  assume v: "conn_ok ?e0 cid v" "calls v = calls w @ [CRead fd (Inr bs)]" "conns v cid = (conns w cid)\<lparr>inputBuffer := b\<rparr>"
    "world.more v = world.more w" "direct cid v"
    and h: "conn_handleRead env cid t w = send ?e0 (loopIx (conns w cid)) cid ptr bs v"
  have "send ?e0 (loopIx (conns w cid)) cid ptr bs v = Some (log_call (CWrite fd bs (Inr (length bs))) v)"
    using direct_iff [OF v(1)] v(5) wr up
    by (simp add: send_def v(2,3) connected_def sendInLoop_def send_direct_def sock_write_def Let_def fd_def)
  then show ?thesis using h up by (simp add: v(2-4) connected_def fd_def)
qed

text \<open>A read event.\<close>

lemma echo_readable:
  assumes env: "env = server_env (echo_app o1 k d ptr)" and ok: "conn_ok env cid w" and os: "os_ok o1"
    and e: "echo_ok cid w" and g: "within cid w w'"
    and st: "connState (conns w cid) = KConnected \<or> connState (conns w cid) = KDisconnected"
    and sm: "smooth (sockFd (conns w cid)) (calls w')" and c: "conn_handleRead env cid t w = Some w'"
  shows "echo_ok cid w'"
proof -
  define e0 where "e0 = (no_callbacks o1 k d :: senv)"
  have e0: "os1 env = os1 e0" "ker e0 = ker env" "os1 e0 = o1" "no_tasks e0"
    "onMessage env = Some (echo_onMessage e0 ptr)"
    by (simp_all add: env e0_def)
  define u where "u = after_read env cid w"
  have au: "u = after_read e0 cid w" unfolding u_def by (rule after_read_env [OF e0(1)])
  note hr = c
  note eq = conn_handleRead_eq [OF ok, of t, folded u_def]
  have ok0: "conn_ok e0 cid w" using ok conn_ok_env [OF e0(2), of cid w] by simp
  have quiet: "echo_ok cid u" "conn_ok env cid u" if "\<nexists>bs. read_result env cid w = Inr bs \<and> bs \<noteq> []"
  proof -
    define x where "x = CRead (sockFd (conns w cid)) (read_result env cid w)"
    define b where "b = snd (snd (readFd (read_result env cid w) (inputBuffer (conns w cid))))"
    have u: "calls u = calls w @ [x]" "conns u cid = (conns w cid)\<lparr>inputBuffer := b\<rparr>"
      "chan_of cid u = chan_of cid w"
      by (simp_all add: u_def after_read_def x_def b_def)
    have x: "own_call (sockFd (conns w cid)) x" "smooth_call (sockFd (conns w cid)) x"
      "sent_on (sockFd (conns w cid)) [x] = []" "received_on (sockFd (conns w cid)) [x] = []"
      using that by (cases "read_result env cid w"; simp add: x_def InitialSize_def)+
    have "idle (inputBuffer (conns w cid)) \<Longrightarrow> idle b"
      using that idle_read_nothing by (cases "read_result env cid w") (auto simp: b_def readFd_def)
    then show "echo_ok cid u" using e x by (auto simp: echo_ok_def Let_def u own_history)
    show "conn_ok env cid u" using after_read_ok [OF ok] os e0(1,3) by (simp add: u_def)
  qed
  show ?thesis
  proof (cases "read_result env cid w")
    case (Inl er)
    then show ?thesis using hr eq quiet echo_error [OF env] os e0(1,3) by auto
  next
    case (Inr bs)
    show ?thesis
    proof (cases "bs = []")
      case True
      then show ?thesis using hr eq quiet echo_close [OF env] os e0(1,3) Inr by auto
    next
      case ne: False
      have "echo_onMessage e0 ptr cid t u = Some w'"
        using hr eq os e0 Inr ne by (simp add: invoke_def)
      then show ?thesis
        using echo_message [OF ok0 _ e0(4) e _ _ st _ g, of bs ptr t] sm Inr os e0(3)
          read_result_env [OF e0(1), of cid w]
        by (simp add: au)
    qed
  qed
qed

text \<open>Any callback of a registered connection.\<close>

lemma echo_callback:
  assumes env: "env = server_env (echo_app o1 k d ptr)" and ok: "conn_ok env cid w" and os: "os_ok o1"
    and e: "echo_ok cid w" and g: "within cid w w'"
    and st: "connState (conns w cid) = KConnected \<or> connState (conns w cid) = KDisconnected"
    and c: "run_cb (conn_callbacks env me cid) t kd w = Some w'"
  shows "echo_ok cid w'"
proof (cases "smooth (sockFd (conns w cid)) (calls w')")
  case False
  then show ?thesis using g by (simp add: echo_ok_def within_def)
next
  case True
  note sw = within_smooth [OF g] and E = echo_okD [OF e]
  have fd: "sockFd (conns w' cid) = sockFd (conns w cid)" using g by (simp add: within_def)
  show ?thesis
  proof (cases kd)
    case CbClose
    then show ?thesis using c echo_close [OF env ok e] by (simp add: conn_callbacks_def call_def)
  next
    case CbError
    then show ?thesis using c echo_error [OF env ok e] by (simp add: conn_callbacks_def call_def)
  next
    case CbWrite
    have "\<not> isWriting (chan_of cid w)" using E(3) sw True fd by simp
    then have "handleWrite env me cid w = Some w" by (simp only: handleWrite_def if_False)
    then show ?thesis using c e CbWrite by (simp add: conn_callbacks_def call_def)
  next
    case CbRead
    then show ?thesis using c echo_readable [OF env ok os e g st True, of t]
      by (simp add: conn_callbacks_def call_def)
  qed
qed


subsection \<open>The steps of the server\<close>

definition all_echo :: "server \<Rightarrow> bool" where
  "all_echo w \<longleftrightarrow> (\<forall>cid. alive w cid \<longrightarrow> echo_ok cid w)"

lemma all_echo_same:
  assumes "all_echo w" "\<And>c. alive w' c \<Longrightarrow> alive w c" "conns w' = conns w"
    and "\<And>c. alive w' c \<Longrightarrow> events (chan_of c w') = events (chan_of c w)"
    and "calls w' = calls w @ cs" "\<And>c. alive w' c \<Longrightarrow> list_all (foreign (sockFd (conns w c))) cs"
  shows "all_echo w'"
  using assms echo_ok_cong [OF _ _ assms(5)] unfolding all_echo_def by metis

lemma serving_socket_inj:
  assumes "serving a R K H b act w" "alive w c" "alive w d" "sockFd (conns w c) = sockFd (conns w d)"
  shows "c = d"
  using servingD(3) [OF assms(1)] assms(2-4) by (auto simp: descriptors_ok_def inj_on_def)

lemma all_echo_within:
  assumes S: "serving a R K H b act w" and al: "alive w cid" and e: "all_echo w"
    and g: "within cid w w'" "echo_ok cid w'"
  shows "all_echo w'"
  unfolding all_echo_def
proof (intro allI impI)
  fix c
  assume "alive w' c"
  then have c: "alive w c" using g(1) by (simp add: within_def)
  show "echo_ok c w'"
  proof (cases "c = cid")
    case False
    then have "sockFd (conns w c) \<noteq> sockFd (conns w cid)" using serving_socket_inj [OF S c al] by blast
    then show ?thesis using echo_ok_within [OF g(1) False] e c by (simp add: all_echo_def)
  qed (use g(2) in simp)
qed

text \<open>The dispatch of an event.\<close>

lemma serving_state:
  assumes S: "serving a R K H b act w" and c: "alive w cid" "enlisted cid w"
  shows "connState (conns w cid) = KConnected \<or> connState (conns w cid) = KDisconnected"
proof -
  have "stage_ok H b cid w" using servingD(8) [OF S c(1)] by (simp add: member_ok_def)
  then show ?thesis using c(2) by (auto simp: stage_ok_def split: StateE.splits)
qed

lemma conn_echo:
  assumes m: "machine_ok (echo_app o1 k d ptr) R" and S: "serving a R K H b act w"
    and c: "alive w cid" "enlisted cid w" and e: "all_echo w"
    and r: "conn_event (server_env (echo_app o1 k d ptr)) me cid True t w = Some w'"
  shows "all_echo w'"
proof -
  define env where "env = server_env (echo_app o1 k d ptr)"
  have os: "os_ok o1" using machine_okD(2) [OF m] by simp
  have J: "echo_ok cid v"
    if "goes a R K H b act cid w u" "echo_ok cid u"
      "run_cb (conn_callbacks env me cid) t kd u = Some v" "goes a R K H b act cid u v" for kd u v
  proof -
    have "conn_ok env cid u" using serving_conn_ok [OF m goesD(1,2) [OF that(1)]] by (simp add: env_def)
    then show ?thesis
      using echo_callback [OF env_def _ os that(2) goesD(4) [OF that(4)] serving_state that(3)] goesD(1-3) [OF that(1)]
      by blast
  qed
  have "echo_ok cid w" using e c(1) by (simp add: all_echo_def)
  then have "goes a R K H b act cid w w' \<and> echo_ok cid w'"
    by (rule yieldsD [OF echo.conn_event_goes [OF m S c] r]) (rule J [unfolded env_def])
  then show ?thesis using all_echo_within [OF S c(1) e] goesD(4) by blast
qed

text \<open>A new connection starts with an empty history.\<close>

lemma joins_history:
  assumes "joins i fd w w'"
  shows "smooth fd (calls w')" "received fd (calls w') = []" "sent fd (calls w') = []"
proof -
  obtain l p q where cs: "calls w' = calls w @ [CAccept l (Inr (fd, p)), CGetsockname fd q, CSetopt fd SO_KEEPALIVE True]"
    using joins_calls [OF assms] by blast
  have "since fd (calls w') = [CGetsockname fd q, CSetopt fd SO_KEEPALIVE True]"
    using since_inner [of "[CGetsockname fd q, CSetopt fd SO_KEEPALIVE True]" fd "calls w @ [CAccept l (Inr (fd, p))]"]
    by (simp add: cs)
  then show "smooth fd (calls w')" "received fd (calls w') = []" "sent fd (calls w') = []"
    by (simp_all add: smooth_def received_def sent_def)
qed

text \<open>To the other connections an \<open>accept\<close> is foreign.\<close>

lemma joins_others:
  assumes "serving a R K H b act w" "fd \<notin> accepted (calls w)" "joins i fd w w'"
  obtains cs where "calls w' = calls w @ cs"
    "\<And>c. alive w c \<Longrightarrow> list_all (foreign (sockFd (conns w c))) cs"
proof -
  obtain l p q where "calls w' = calls w @ [CAccept l (Inr (fd, p)), CGetsockname fd q, CSetopt fd SO_KEEPALIVE True]"
    using joins_calls [OF assms(3)] by blast
  moreover have "fd \<noteq> sockFd (conns w c)" if "alive w c" for c
    using assms(2) servingD(3) [OF assms(1)] that by (auto simp: descriptors_ok_def)
  ultimately show ?thesis by (intro that) auto
qed

lemma joins_echo:
  assumes S: "serving a R K H b act w" and e: "all_echo w" and fd: "fd \<notin> accepted (calls w)" and J: "joins i fd w w'"
  shows "all_echo w'"
  unfolding all_echo_def
proof (intro allI impI)
  fix c
  assume c: "alive w' c"
  show "echo_ok c w'"
  proof (cases "c = nextObj w")
    case True
    then show ?thesis using idle_new joins_history [OF J]
      by (simp add: echo_ok_def Let_def joinsD(4,6-8,22) [OF J] Channel_def InitialSize_def)
  next
    case False
    then have al: "alive w c" using c by (simp add: joinsD(12) [OF J])
    obtain cs where cs: "calls w' = calls w @ cs" "list_all (foreign (sockFd (conns w c))) cs"
      using joins_others [OF S fd J] al by blast
    have "echo_ok c w' = echo_ok c w"
      using joinsD(2,22) [OF J] False cs(2) by (intro echo_ok_cong [OF _ _ cs(1)]) simp_all
    then show ?thesis using e al by (simp add: all_echo_def)
  qed
qed

lemma active_echo:
  assumes m: "machine_ok (echo_app o1 k d ptr) R" and S: "serving a R K H b act w" and i: "i \<in> all_loops w"
    and x: "hasChannel x (pol w i)" and e: "all_echo w"
    and r: "handle_active (echo_app o1 k d ptr) i peer0 t x w = Some w'"
  shows "all_echo w'"
proof (cases x)
  case (ChConn cid)
  have c: "alive w cid" "loopIx (conns w cid) = i"
    using serving_key [OF S i] x ChConn by (auto simp: hasChannel_def)
  then have "enlisted cid w" using serving_enlisted [OF S c(1)] x ChConn by simp
  then show ?thesis using conn_echo [OF m S c(1) _ e] r ChConn c(1) by simp
next
  case ChAcceptor
  have "handle_active (echo_app o1 k d ptr) i peer0 t ChAcceptor w = Some w'" using r ChAcceptor by simp
  then show ?thesis
  proof (rule acceptor_cases [OF _ servingD(1) [OF S]])
    fix er
    assume "w' = log_call (CAccept (acceptFd w) (Inl er)) w"
    then show ?thesis using all_echo_same [OF e, of w' "[CAccept (acceptFd w) (Inl er)]"]
      by (simp add: log_call_def chan_of_def)
  next
    fix j fd p
    assume x: "os_accept (os1 (echo_app o1 k d ptr)) (calls w) (acceptFd w) = Inr (fd, p)" and J: "joins j fd w w'"
    show ?thesis by (rule joins_echo [OF S e conjunct2 [OF machine_okD(3) [OF m x]] J])
  qed (use e in simp)
next
  case (ChWakeup j)
  have "\<exists>v. handleEvent (wakeup_callbacks j) (chan (pol w i) x) True t w = Some v \<and> all_echo v"
  proof (rule handleEvent_total [where I = all_echo, OF e])
    fix kd u
    assume u: "all_echo u"
    have "all_echo (u\<lparr>evl := (evl u)(j := handleRead (evl u j))\<rparr>)"
      by (rule all_echo_same [OF u, where cs = "[]"]) (simp_all add: chan_of_def)
    then show "\<exists>v. run_cb (wakeup_callbacks j) t kd u = Some v \<and> all_echo v"
      using u by (cases kd) (auto simp: wakeup_callbacks_def call_def)
  qed
  then show ?thesis using r ChWakeup by auto
qed

text \<open>What a task does to the connections.\<close>

lemma task_conns:
  assumes m: "machine_ok (echo_app o1 k d ptr) R" and S: "serving a R K H b act w" and i: "i \<in> all_loops w"
    and f: "f \<in> set (due b i w)" and r: "run_task (echo_app o1 k d ptr) i f w = Some w'"
  shows "calls w' = calls w \<and> alive w' = alive w \<and> nextObj w' = nextObj w \<and>
    (\<forall>c. isWriting (chan_of c w') = isWriting (chan_of c w)) \<and>
    (conns w' = conns w \<or> (\<exists>cid. alive w cid \<and> connState (conns w cid) = KConnecting \<and>
       conns w' = (conns w)(cid := (conns w cid)\<lparr>connState := KConnected\<rparr>)))"
proof -
  define env where "env = server_env (echo_app o1 k d ptr)"
  note t = servingT [OF S i f]
  obtain cid where cid: "keeps f = Some cid" "alive w cid" using task_fine_keeps [OF t] by blast
  have ok: "conn_ok env cid w" using serving_conn_ok [OF m S cid(2)] by (simp add: env_def)
  show ?thesis
  proof (cases f)
    case (FConnectEstablished c)
    then have c: "c = cid" "connState (conns w cid) = KConnecting" using t cid(1) by (simp_all add: task_fine_def)
    obtain u where u: "on_chan env cid enableReading (tie_channel cid (setState cid KConnected w)) = Some u"
      "conn_change cid w u"
      using establish_change [OF ok] by blast
    obtain w1 where w1: "connectEstablished env cid w = invoke (onConnection env) cid w1"
      "calls w1 = calls w" "conns w1 = (conns w)(cid := (conns w cid)\<lparr>connState := KConnected\<rparr>)"
      "events (chan_of cid w1) = events (chan_of cid w) OR ReadEvent" "world.more w1 = world.more w"
      using connectEstablished_ok [OF ok] by blast
    have cb: "onConnection env = Some echo_onConnection" by (simp add: env_def)
    have w': "w1 = w'" "u = w1" using r w1(1) u(1) FConnectEstablished c(1) cb
      by (simp_all add: run_task_def connectEstablished_def env_def invoke_def echo_onConnection_def
          split: if_splits)
    have "isWriting (chan_of x w1) = isWriting (chan_of x w)" for x
      using change_within [OF u(2)] by (cases "x = cid")
        (simp_all add: isWriting_def within_def w1(4) w'(2) bit.conj_disj_distrib2 channel_masks)
    then show ?thesis using w1 w'(1) c(2) cid(2) same_server(2,8) [OF w1(5)] by blast
  next
    case (FConnectDestroyed c)
    then have c: "c = cid" "connState (conns w cid) = KDisconnected" using t cid(1) by (simp_all add: task_fine_def)
    have r': "on_chan env cid removeChannel w = Some w'"
      using r c FConnectDestroyed by (simp add: run_task_def env_def connectDestroyed_def split: if_splits)
    have h: "conn_change cid w w'" "conns w' = conns w" "calls w' = calls w"
      "events (chan_of x w') = events (chan_of x w)" for x
      using remove_change [OF ok, of x] r' by auto
    then show ?thesis using same_server(2,8) [OF conn_changeD(6) [OF h(1)]] by (simp add: isWriting_def)
  next
    case (FRemoveConnectionInLoop c)
    then have "w' = removeConnectionInLoop i c w" using r by (simp add: run_task_def split: if_splits)
    then show ?thesis by (simp add: removeConnectionInLoop_def queue_on_def chan_of_def)
  qed (use t in \<open>simp_all add: task_fine_def\<close>)
qed

lemma task_echo:
  assumes m: "machine_ok (echo_app o1 k d ptr) R" and S: "serving a R K H b act w" and i: "i \<in> all_loops w"
    and f: "f \<in> set (due b i w)" and e: "all_echo w"
    and r: "run_task (echo_app o1 k d ptr) i f w = Some w'"
  shows "all_echo w'"
  unfolding all_echo_def
proof (intro allI impI)
  fix c
  note T = task_conns [OF m S i f r]
  assume "alive w' c"
  then have ec: "echo_ok c w" using e T by (simp add: all_echo_def)
  have "conns w' c = conns w c \<or> connState (conns w c) = KConnecting \<and>
      conns w' c = (conns w c)\<lparr>connState := KConnected\<rparr>"
    using T by (auto split: if_splits)
  then show "echo_ok c w'" using ec T by (auto simp: echo_ok_def Let_def)
qed


text \<open>The release of a connection: its own conversation ends with it.\<close>

lemma drop_ref_echo: "all_echo (srv s) \<Longrightarrow> all_echo (srv (drop_ref f s))"
proof -
  assume e: "all_echo (srv s)"
  have "all_echo (TcpConnection_dtor cid (srv s))" for cid
    by (rule all_echo_same [OF e, where cs = "[CClose (sockFd (conns (srv s) cid))]"])
      (auto simp: TcpConnection_dtor_def Socket_dtor_def log_call_def chan_of_def split: if_splits)
  then show ?thesis using e by (simp add: drop_ref_def split: option.split)
qed

lemma drop_refs_echo: "all_echo (srv s) \<Longrightarrow> all_echo (srv (fold drop_ref fs s))"
  by (induction fs arbitrary: s) (simp_all add: drop_ref_echo)

lemma step_echo:
  assumes st: "srv_step (echo_app o1 k d ptr) peer0 s t" and m: "machine_ok (echo_app o1 k d ptr) R"
    and S: "sys_ok a R s" and e: "all_echo (srv s)"
  shows "all_echo (srv t)"
  using st
proof cases
  case (s_poll i r cs p)
  note V = sys_okD(1) [OF S]
  have P: "same_reg (pol (srv s) i) p" using poll_effect [OF s_poll(4) servingD(4) [OF V s_poll(2)] s_poll(5)] by simp
  have "events (chan p x) = events (chan (pol (srv s) i) x)" for x by (rule same_reg_sel(2) [OF P])
  then have "all_echo ((srv s)\<lparr>pol := (pol (srv s))(i := p)\<rparr>)"
    by (intro all_echo_same [OF e, where cs = "[]"]) (simp_all add: chan_of_def)
  then show ?thesis by (simp add: s_poll(1))
next
  case (s_handle i c cs u w)
  note V = sys_okD(1) [OF S]
  have "hasChannel c (pol (srv s) i)" using servingD(7) [OF V s_handle(2)] s_handle(4) by simp
  from active_echo [OF m V s_handle(2) this e s_handle(6)] show ?thesis by (simp add: s_handle(1))
next
  case (s_swap i)
  have "all_echo (begin_functors i (srv s))"
    by (rule all_echo_same [OF e, where cs = "[]"]) (simp_all add: begin_functors_def chan_of_def)
  then show ?thesis by (simp add: s_swap(1))
next
  case (s_run i f fs w)
  have "f \<in> set (due (batch s) i (srv s))" using s_run(4) by (simp add: due_def)
  from task_echo [OF m sys_okD(1) [OF S] s_run(2) this e s_run(5)] show ?thesis by (simp add: s_run(1))
next
  case (s_finish i)
  have "all_echo (end_functors i (srv s))"
    by (rule all_echo_same [OF e, where cs = "[]"]) (simp_all add: end_functors_def chan_of_def)
  then show ?thesis by (simp add: s_finish(1) drop_refs_echo)
qed


text \<open>The handler of a readable connection whose answer the kernel takes whole.\<close>

lemma delivery_answered:
  assumes m: "machine_ok (echo_app o1 k d ptr) R" and S: "serving a R K H b act w" and i: "i \<in> all_loops w"
    and x: "hasChannel (ChConn cid) (pol w i)" and e: "all_echo w"
    and rv: "revents (chan_of cid w) = EPOLLIN" and up: "connState (conns w cid) = KConnected"
  defines "c \<equiv> sockFd (conns w cid)"
  assumes sm: "smooth c (calls w)" and r: "read_result (echo_app o1 k d ptr) cid w = Inr bs"
    and bs: "bs \<noteq> []" "length bs < InitialSize"
    and wr: "os_write o1 (calls w @ [CRead c (Inr bs)]) c bs = Inr (length bs)"
  shows "\<exists>w'. handle_active (echo_app o1 k d ptr) i peer0 t (ChConn cid) w = Some w' \<and>
    calls w' = calls w @ [CRead c (Inr bs), CWrite c bs (Inr (length bs))] \<and>
    sent c (calls w) = received c (calls w) \<and>
    alive w' cid \<and> connState (conns w' cid) = KConnected \<and> sockFd (conns w' cid) = c"
proof -
  define env where "env = server_env (echo_app o1 k d ptr)"
  have al: "alive w cid" using serving_key(1) [OF S i] x by (auto simp: hasChannel_def)
  have ok: "conn_ok env cid w" using serving_conn_ok [OF m S al] by (simp add: env_def)
  have os: "os_ok o1" using machine_okD(2) [OF m] by simp
  have ec: "echo_ok cid w" using e al by (simp add: all_echo_def)
  have r': "read_result env cid w = Inr bs" using r by (simp add: env_def)
  obtain w' where w': "conn_handleRead env cid t w = Some w'"
    "calls w' = calls w @ [CRead c (Inr bs), CWrite c bs (Inr (length bs))]" "connected cid w'"
    "sockFd (conns w' cid) = c" "world.more w' = world.more w"
    using echo_whole [OF env_def ok os ec _ _ r' bs, of t] up sm wr by (auto simp: connected_def c_def)
  have "handle_active (echo_app o1 k d ptr) i peer0 t (ChConn cid) w = Some w'"
    using w'(1) al conn_event_read [OF rv] by (simp add: env_def)
  then show ?thesis
    using w'(2-4) echo_okD(5) [OF ec] sm up al same_server(2) [OF w'(5)] by (simp add: c_def connected_def)
qed

end
