(* ===== verification/ReachableServer.thy ===== *)
theory ReachableServer
  imports ServerLife SystemTurns EchoStream
begin

text \<open>
  The states the echo server reaches from \<open>main\<close>, with the invariants that hold in all of them: they
  rest on the interpretation \<open>echo\<close> of \<open>connection_app\<close>.
\<close>

subsection \<open>From \<open>main\<close> to every reachable state\<close>

definition from_main :: "senv \<Rightarrow> fd set \<Rightarrow> sys \<Rightarrow> bool" where
  "from_main env R s \<longleftrightarrow> (\<exists>evfd mem junk pton e l w0 w. boot_ok env evfd mem pton e l w0 \<and>
     insert l (e ` {0..3}) \<subseteq> R \<and> main_start env evfd mem junk pton w0 = Some w \<and> s = idle_sys w)"

text \<open>The address the server listens on, with its loops.\<close>

definition listens_on :: "sockaddr_in \<Rightarrow> sockaddr_in \<times> nat set" where
  "listens_on la = (la, {0, 1, 2, 3})"

lemma from_mainI:
  assumes "boot_ok env evfd mem pton e l w0" "insert l (e ` {0..3}) \<subseteq> R"
    and "main_start env evfd mem junk pton w0 = Some w"
  shows "from_main env R (idle_sys w)"
  using assms unfolding from_main_def by blast

lemma from_main_ok:
  assumes "from_main env R s"
  shows "\<exists>la. sys_ok (listens_on la) R s"
proof -
  obtain evfd mem junk pton e l w0 w where b: "boot_ok env evfd mem pton e l w0"
    "insert l (e ` {0..3}) \<subseteq> R" "main_start env evfd mem junk pton w0 = Some w" "s = idle_sys w"
    using assms unfolding from_main_def by blast
  obtain w' where "main_start env evfd mem junk pton w0 = Some w'"
    "sys_ok (listens_on (InetAddress pton 8080 ''127.0.0.1'')) R (idle_sys w')"
    using main_start_state [OF b(1,2), of junk] unfolding listens_on_def by blast
  then show ?thesis using b(3,4) by auto
qed

lemma echo_reach_ok:
  assumes "machine_ok (echo_app o1 k d ptr) R"
    and "reach (from_main (echo_app o1 k d ptr) R) (srv_step (echo_app o1 k d ptr) peer0) s"
  shows "\<exists>la. sys_ok (listens_on la) R s"
  using assms(2)
proof induction
  case (reach_init s)
  then show ?case by (rule from_main_ok)
next
  case (reach_step s t)
  then show ?case using echo.step_sys_ok [OF reach_step(2) assms(1)] by blast
qed

lemma echo_reach_serving:
  assumes "machine_ok (echo_app o1 k d ptr) R"
    and "reach (from_main (echo_app o1 k d ptr) R) (srv_step (echo_app o1 k d ptr) peer0) s"
  shows "\<exists>la. serving (listens_on la) R (still s) (called s) (batch s) (active s) (srv s)"
    and "all_loops (srv s) = {0, 1, 2, 3}"
proof -
  obtain la where "sys_ok (listens_on la) R s" using echo_reach_ok [OF assms] by blast
  note S = sys_okD(1) [OF this]
  then show "\<exists>la. serving (listens_on la) R (still s) (called s) (batch s) (active s) (srv s)" by blast
  show "all_loops (srv s) = {0, 1, 2, 3}" using serving_all_loops [OF S] by (simp add: listens_on_def)
qed

text \<open>No connection yet: nothing is accepted and nothing is queued.\<close>

lemma serving_fresh:
  assumes S: "serving a R K H b act w" and n: "nextConnId w = 1"
  shows "\<not> alive w cid" "nextObj w = 0" "accepted (calls w) = {}" "i \<in> all_loops w \<Longrightarrow> pendingFunctors (evl w i) = []"
proof -
  show o: "nextObj w = 0" using servingD(2) [OF S] n by (simp add: naming_def)
  show al: "\<not> alive w cid" for cid using servingD(8) [OF S, of cid] by (auto simp: member_ok_def o)
  show "accepted (calls w) = {}" using servingD(3) [OF S] al by (simp add: descriptors_ok_def)
  show "pendingFunctors (evl w i) = []" if i: "i \<in> all_loops w"
  proof (rule ccontr)
    assume "pendingFunctors (evl w i) \<noteq> []"
    then obtain f where f: "f \<in> set (due b i w)" by (cases "pendingFunctors (evl w i)") (auto simp: due_def)
    obtain cid where "alive w cid" using task_fine_keeps [OF servingT [OF S i f]] by blast
    then show False using al by blast
  qed
qed

lemma echo_reach_echo:
  assumes m: "machine_ok (echo_app o1 k d ptr) R"
    and "reach (from_main (echo_app o1 k d ptr) R) (srv_step (echo_app o1 k d ptr) peer0) s"
  shows "all_echo (srv s)"
  using assms(2)
proof induction
  case (reach_init s)
  obtain evfd mem junk pton e l w0 w where b: "boot_ok (echo_app o1 k d ptr) evfd mem pton e l w0"
    "insert l (e ` {0..3}) \<subseteq> R" "main_start (echo_app o1 k d ptr) evfd mem junk pton w0 = Some w" "s = idle_sys w"
    using reach_init unfolding from_main_def by blast
  obtain la where S: "sys_ok la R (idle_sys w)" and n: "nextConnId w = 1"
    using main_start_state [OF b(1,2), of junk] b(3) by auto
  then show ?case using serving_fresh(1) [OF sys_okD(1) [OF S]] by (simp add: all_echo_def b(4))
next
  case (reach_step s t)
  obtain la where "sys_ok la R s" using echo_reach_ok [OF m reach_step(1)] by blast
  then show ?case by (rule step_echo [OF reach_step(2) m _ reach_step(3)])
qed

subsection \<open>Type soundness\<close>

text \<open>
  \<open>no_failure\<close>: whatever handler or task a loop's thread has before it, it returns. The model of
  a handler or task gives \<open>None\<close> where the code would end the process or misbehave: a FATAL log
  line, an empty \<open>std::function\<close> called, a SIGPIPE, an event for the channel of a connection that
  has been destroyed, a task on such a connection.
\<close>

definition no_failure :: "senv \<Rightarrow> sockaddr_in \<Rightarrow> sys \<Rightarrow> bool" where
  "no_failure env peer0 s \<longleftrightarrow> (\<forall>i \<in> all_loops (srv s).
     (\<forall>c cs t. phase s i = Handling \<and> active s i = c # cs \<and> nextConnId (srv s) < 2 ^ 31 - 1 \<longrightarrow>
        handle_active env i peer0 t c (srv s) \<noteq> None) \<and>
     (\<forall>f fs. phase s i = Running \<and> batch s i = f # fs \<longrightarrow> run_task env i f (srv s) \<noteq> None))"

text \<open>The thread of loop \<open>i\<close> can go on.\<close>

definition moves :: "senv \<Rightarrow> sockaddr_in \<Rightarrow> nat \<Rightarrow> sys \<Rightarrow> bool" where
  "moves env peer0 i s \<longleftrightarrow> (\<exists>t. srv_step env peer0 s t \<and>
     (phase t i \<noteq> phase s i \<or> active t i \<noteq> active s i \<or> batch t i \<noteq> batch s i))"

lemma echo_no_failure:
  assumes "machine_ok (echo_app o1 k d ptr) R" "no_sigpipe o1" "sys_ok a R s"
  shows "no_failure (echo_app o1 k d ptr) peer0 s"
  using yields_total [OF echo.handle_sys_ok [OF assms(1,3)]] echo.run_sys_ok [OF assms(1,3)] assms(2)
  unfolding no_failure_def echo_app_sel by blast

lemma movesI:
  assumes "srv_step env peer0 s t"
    and "phase t i \<noteq> phase s i \<or> active t i \<noteq> active s i \<or> batch t i \<noteq> batch s i"
  shows "moves env peer0 i s"
  using assms unfolding moves_def by blast

lemma echo_moves:
  assumes m: "machine_ok (echo_app o1 k d ptr) R" and np: "no_sigpipe o1"
    and S: "sys_ok a R s" and i: "i \<in> all_loops (srv s)"
    and n: "nextConnId (srv s) < 2 ^ 31 - 1"
  shows "moves (echo_app o1 k d ptr) peer0 i s"
proof (cases "phase s i")
  case Waiting
  have "poll (Inr []) [] (pol (srv s) i) = ([], pol (srv s) i)" by (simp add: poll_def)
  moreover have "events_ok (Inr []) (pol (srv s) i)" by (simp add: events_ok_def)
  ultimately show ?thesis by (intro movesI [OF s_poll [OF i Waiting]]) (simp_all add: Waiting)
next
  case Handling
  show ?thesis
  proof (cases "active s i")
    case Nil
    show ?thesis by (rule movesI [OF s_swap [OF i Handling Nil]]) (simp add: Handling)
  next
    case (Cons c cs)
    obtain w where "handle_active (echo_app o1 k d ptr) i peer0 0 c (srv s) = Some w"
      using yields_total [OF echo.handle_sys_ok [OF m S i Handling Cons n, of peer0 0]] np by auto
    from s_handle [OF i Handling Cons n this] show ?thesis by (rule movesI) (simp add: Cons)
  qed
next
  case Running
  show ?thesis
  proof (cases "batch s i")
    case Nil
    show ?thesis by (rule movesI [OF s_finish [OF i Running Nil]]) (simp add: Running)
  next
    case (Cons f fs)
    obtain w where "run_task (echo_app o1 k d ptr) i f (srv s) = Some w"
      using echo.run_sys_ok [OF m S i Running Cons] by blast
    from s_run [OF i Running Cons this] show ?thesis by (rule movesI) (simp add: Cons)
  qed
qed

end
