(* ===== verification/EchoService.thy ===== *)
theory EchoService
  imports ReachableServer
begin

text \<open>
  What the echo server promises its clients, as an abstract service, and the server as a
  refinement of it.

  To the service a client is only a stage of its life (\<open>client\<close>) with what it has sent and what
  came back; \<open>service_step\<close> lets one client at a time move on. \<open>view\<close> reads the clients off a
  state of the server: its connection objects, their states and the history of their descriptors.
  Every step of the server's threads is a sequence of moves of the service on the views.
\<close>

subsection \<open>The service\<close>

text \<open>
  \<open>Open r\<close>: all of \<open>r\<close>, and nothing else, has come back. \<open>Closed r s\<close>: \<open>r\<close> was read, \<open>s\<close> was sent
  back. \<open>Impaired\<close>: the kernel refused a part of an answer, or delivered more at once than the input
  buffer holds.
\<close>

datatype client = Unborn | Opening | Open bytes | Closed bytes bytes | Impaired | Gone

inductive client_step :: "client \<Rightarrow> client \<Rightarrow> bool" where
  arrive: "client_step Unborn Opening"
| establish: "client_step Opening (Open [])"
| exchange: "client_step (Open r) (Open (r @ bs))"
| shut: "client_step (Open r) (Closed r r)"
| unanswered: "client_step (Closed r s) (Closed (r @ bs) s)"
| impair_open: "client_step (Open r) Impaired"
| impair_closed: "client_step (Closed r s) Impaired"
| release: "client_step (Closed r s) Gone"
| release_impaired: "client_step Impaired Gone"

inductive service_step :: "(nat \<Rightarrow> client) \<Rightarrow> (nat \<Rightarrow> client) \<Rightarrow> bool" where
  one_client: "client_step (v c) x \<Longrightarrow> service_step v (v(c := x))"

text \<open>What a client may rely on: an answer is a prefix of what it said, and its life has one direction.\<close>

fun client_ok :: "client \<Rightarrow> bool" where
  "client_ok (Closed r s) = prefix s r"
| "client_ok c = True"

fun stage :: "client \<Rightarrow> nat" where
  "stage Unborn = 0"
| "stage Opening = 1"
| "stage (Open r) = 2"
| "stage (Closed r s) = 3"
| "stage Impaired = 4"
| "stage Gone = 5"

lemma client_step_ok: "client_step c c' \<Longrightarrow> client_ok c \<Longrightarrow> client_ok c'"
  by (induction rule: client_step.induct) (auto simp: prefix_def)

lemma client_step_stage: "client_step c c' \<Longrightarrow> stage c \<le> stage c'"
  by (induction rule: client_step.induct) simp_all

lemma service_ok:
  assumes "service_step\<^sup>*\<^sup>* v v'" "\<And>c. client_ok (v c)"
  shows "client_ok (v' c)"
  using assms
proof (induction arbitrary: c)
  case (step v' v'')
  then show ?case using client_step_ok by (auto elim!: service_step.cases)
qed

lemma service_stage:
  assumes "service_step\<^sup>*\<^sup>* v v'"
  shows "stage (v c) \<le> stage (v' c)"
  using assms
proof induction
  case (step v' v'')
  have "stage (v' c) \<le> stage (v'' c)" using step(2) client_step_stage by (auto elim!: service_step.cases)
  then show ?case using step.IH by simp
qed simp

text \<open>The moves of one client are moves of the service.\<close>

lemma service_client: "client_step\<^sup>*\<^sup>* (v c) x \<Longrightarrow> service_step\<^sup>*\<^sup>* v (v(c := x))"
proof (induction rule: rtranclp_induct)
  case (step y z)
  have "service_step (v(c := y)) ((v(c := y))(c := z))" by (rule one_client) (simp add: step(2))
  then have "service_step (v(c := y)) (v(c := z))" by (simp only: fun_upd_upd)
  then show ?case by (rule rtranclp.rtrancl_into_rtrancl [OF step.IH])
qed simp

lemma one_moves:
  assumes "client_step\<^sup>*\<^sup>* (v c) (v' c)" "\<And>d. d \<noteq> c \<Longrightarrow> v' d = v d"
  shows "service_step\<^sup>*\<^sup>* v v'"
proof -
  have "v' = v(c := v' c)" using assms(2) by auto
  then show ?thesis using service_client [of v c, OF assms(1)] by metis
qed


subsection \<open>The clients of the server\<close>

definition view :: "server \<Rightarrow> nat \<Rightarrow> client" where
  "view w cid = (if nextObj w \<le> cid then Unborn else if \<not> alive w cid then Gone
     else let d = sockFd (conns w cid) in
       if \<not> smooth d (calls w) then Impaired
       else case connState (conns w cid) of
         KConnecting \<Rightarrow> Opening
       | KDisconnected \<Rightarrow> Closed (received d (calls w)) (sent d (calls w))
       | _ \<Rightarrow> Open (received d (calls w)))"

lemma view_cong:
  assumes "alive w' c = alive w c" "nextObj w' \<le> c \<longleftrightarrow> nextObj w \<le> c"
    and "sockFd (conns w' c) = sockFd (conns w c)" "connState (conns w' c) = connState (conns w c)"
    and "calls w' = calls w @ cs" "alive w c \<Longrightarrow> list_all (foreign (sockFd (conns w c))) cs"
  shows "view w' c = view w c"
  using assms foreign_history [of "sockFd (conns w c)" cs "calls w"] by (cases "alive w c") (simp_all add: view_def Let_def split: StateE.split)

lemma view_within:
  assumes "within cid w w'" "c \<noteq> cid" "alive w c \<Longrightarrow> sockFd (conns w c) \<noteq> sockFd (conns w cid)"
  shows "view w' c = view w c"
proof -
  obtain cs where cs: "calls w' = calls w @ cs" "list_all (own_call (sockFd (conns w cid))) cs"
    using assms(1) by (auto simp: within_def)
  have "alive w c \<Longrightarrow> list_all (foreign (sockFd (conns w c))) cs"
    using cs(2) own_foreign [OF _ assms(3) [symmetric]] by (auto simp: list_all_iff)
  then show ?thesis
    using assms(1,2) by (intro view_cong [OF _ _ _ _ cs(1)]) (simp_all add: within_def)
qed

lemma views_within:
  assumes S: "serving a R K H b act w" and al: "alive w cid" and g: "within cid w w'"
    and v: "client_step\<^sup>*\<^sup>* (view w cid) (view w' cid)"
  shows "service_step\<^sup>*\<^sup>* (view w) (view w')"
proof (rule one_moves [where v = "view w" and v' = "view w'", OF v])
  fix c assume c: "c \<noteq> cid"
  show "view w' c = view w c"
    by (rule view_within [OF g c]) (use serving_socket_inj [OF S _ al] c in blast)
qed

text \<open>The view of a connection that exists.\<close>

lemma view_alive:
  assumes S: "serving a R K H b act w" and al: "alive w cid"
  defines "d \<equiv> sockFd (conns w cid)"
  shows "\<not> smooth d (calls w) \<Longrightarrow> view w cid = Impaired"
    "smooth d (calls w) \<Longrightarrow> connState (conns w cid) = KConnecting \<Longrightarrow> view w cid = Opening"
    "smooth d (calls w) \<Longrightarrow> connState (conns w cid) = KConnected \<Longrightarrow> view w cid = Open (received d (calls w))"
    "smooth d (calls w) \<Longrightarrow> connState (conns w cid) = KDisconnected \<Longrightarrow>
       view w cid = Closed (received d (calls w)) (sent d (calls w))"
  using serving_new_object(2) [OF S al] al by (simp_all add: view_def d_def Let_def)


subsection \<open>The callbacks of a connection\<close>

lemma close_calls:
  assumes "conn_ok env cid w" "env = server_env (echo_app o1 k d ptr)" "handleClose env cid w = Some w'"
  shows "calls w' = calls w"
  by (rule echo_closed [OF assms(2,1,3)]) (simp add: closed_for_def)

lemma error_calls:
  assumes "conn_ok env cid w" "env = server_env (echo_app o1 k d ptr)" "handleError env cid w = Some w'"
  shows "sent e (calls w') = sent e (calls w)"
proof -
  define x where "x = CSoError (sockFd (conns w cid)) (os_soerror (os1 env) (calls w) (sockFd (conns w cid)))"
  have "handleClose env cid (log_call x w) = Some w'" using assms(3) by (simp add: handleError_def Let_def x_def)
  from close_calls [OF _ assms(2) this] assms(1) have "calls w' = calls (log_call x w)" by simp
  then show ?thesis using foreign_history(1) [of e "[x]" "calls w"] by (simp add: x_def)
qed

text \<open>A closed connection is not written to.\<close>

lemma closed_silent:
  assumes env: "env = server_env (echo_app o1 k d ptr)" and ok: "conn_ok env cid w" and os: "os_ok o1"
    and e: "echo_ok cid w" and sm: "smooth (sockFd (conns w cid)) (calls w)" and cl: "closed cid w"
    and c: "run_cb (conn_callbacks env me cid) t kd w = Some w'"
  shows "sent (sockFd (conns w cid)) (calls w') = sent (sockFd (conns w cid)) (calls w)"
proof (cases kd)
  case CbClose
  then have "handleClose env cid w = Some w'" using c by (simp add: conn_callbacks_def call_def)
  from close_calls [OF ok env this] show ?thesis by simp
next
  case CbError
  then have "handleError env cid w = Some w'" using c by (simp add: conn_callbacks_def call_def)
  from error_calls [OF ok env this] show ?thesis .
next
  case CbWrite
  have "\<not> isWriting (chan_of cid w)" using echo_okD(3) [OF e sm] .
  then have "handleWrite env me cid w = Some w" by (simp only: handleWrite_def if_False)
  then show ?thesis using c CbWrite by (simp add: conn_callbacks_def call_def)
next
  case CbRead
  define u where "u = after_read env cid w"
  have hr: "conn_handleRead env cid t w = Some w'" using c CbRead by (simp add: conn_callbacks_def call_def)
  have oku: "conn_ok env cid u" using after_read_ok [OF ok] os by (simp add: u_def env)
  have u: "calls u = calls w @ [CRead (sockFd (conns w cid)) (read_result env cid w)]"
    "connState (conns u cid) = KDisconnected"
    using cl by (simp_all add: u_def after_read_def closed_def)
  have su: "sent (sockFd (conns w cid)) (calls u) = sent (sockFd (conns w cid)) (calls w)"
    using own_history(1) [of "sockFd (conns w cid)" "[CRead (sockFd (conns w cid)) (read_result env cid w)]" "calls w"]
    by (cases "read_result env cid w") (simp_all add: u)
  note eq = conn_handleRead_eq [OF ok, of t, folded u_def]
  show ?thesis
  proof (cases "read_result env cid w")
    case (Inl er)
    then have "handleError env cid u = Some w'" using hr eq os by (simp add: env)
    from error_calls [OF oku env this] show ?thesis using su by simp
  next
    case (Inr bs)
    show ?thesis
    proof (cases "bs = []")
      case True
      then have "handleClose env cid u = Some w'" using hr eq os Inr by (simp add: env)
      from close_calls [OF oku env this] show ?thesis using su by simp
    next
      case False
      then have "echo_onMessage (no_callbacks o1 k d :: senv) ptr cid t u = Some w'"
        using hr eq os Inr by (simp add: env invoke_def)
      then have "calls w' = calls u"
        using u(2) by (cases "retrieveAllAsString (inputBuffer (conns u cid))") (auto simp: echo_onMessage_def send_def)
      then show ?thesis using su by simp
    qed
  qed
qed

lemma open_moves: "prefix (r @ y) (r @ x) \<Longrightarrow> client_step\<^sup>*\<^sup>* (Open r) (Closed (r @ x) (r @ y))"
proof -
  assume "prefix (r @ y) (r @ x)"
  then obtain z where z: "x = y @ z" by (auto simp: prefix_def)
  have "client_step\<^sup>*\<^sup>* (Open r) (Open (r @ y))" using exchange by blast
  also have "client_step\<^sup>*\<^sup>* (Open (r @ y)) (Closed (r @ y) (r @ y))" using shut by blast
  also have "client_step\<^sup>*\<^sup>* (Closed (r @ y) (r @ y)) (Closed ((r @ y) @ z) (r @ y))" using unanswered by blast
  finally show ?thesis by (simp add: z)
qed

text \<open>A callback is a sequence of moves of its own client.\<close>

lemma callback_moves:
  assumes g: "serving a R K H b act u" "alive u cid" "enlisted cid u" "goes a R K H b act cid u v"
    and e: "echo_ok cid u" "echo_ok cid v"
    and q: "smooth (sockFd (conns u cid)) (calls v) \<Longrightarrow> closed cid u \<Longrightarrow>
      sent (sockFd (conns u cid)) (calls v) = sent (sockFd (conns u cid)) (calls u)"
  shows "client_step\<^sup>*\<^sup>* (view u cid) (view v cid)"
proof -
  define d where "d = sockFd (conns u cid)"
  note G = goesD [OF g(4)]
  have dv: "sockFd (conns v cid) = d" using G(4) by (simp add: within_def d_def)
  note U = view_alive [OF g(1,2), folded d_def] and V = view_alive [OF G(1,2), unfolded dv]
  obtain cs where cs: "calls v = calls u @ cs" "list_all (own_call d) cs"
    using G(4) by (auto simp: within_def d_def)
  note h = own_history [OF cs(2), of "calls u", folded cs(1)]
  have st: "connState (conns u cid) = KConnected \<or> connState (conns u cid) = KDisconnected"
    by (rule serving_state [OF g(1-3)])
  show ?thesis
  proof (cases "smooth d (calls v)")
    case False
    then have "view v cid = Impaired" by (rule V(1))
    moreover have "client_step\<^sup>*\<^sup>* (view u cid) Impaired"
      using U(1,3,4) st impair_open impair_closed by (cases "smooth d (calls u)") auto
    ultimately show ?thesis by simp
  next
    case sv: True
    then have su: "smooth d (calls u)" by (simp add: h)
    note EU = echo_okD [OF e(1), folded d_def, OF su] and EV = echo_okD [OF e(2), unfolded dv, OF sv]
    show ?thesis
    proof (cases "connState (conns u cid) = KConnected")
      case up: True
      then have s: "sent d (calls u) = received d (calls u)" using EU(5) by simp
      show ?thesis
      proof (cases "closed cid v")
        case True
        then show ?thesis
          using U(3) [OF su up] V(4) [OF sv] EV(4) open_moves unfolding closed_def h(1,2) s by simp
      next
        case False
        then have "connState (conns v cid) = KConnected" using goes_state [OF g(4)] up by (simp add: closed_def)
        then show ?thesis using U(3) [OF su up] V(3) [OF sv] exchange unfolding h(1,2) by auto
      qed
    next
      case False
      then have c: "closed cid u" using st by (simp add: closed_def)
      then have "connState (conns v cid) = KDisconnected" using goes_state [OF g(4)] by (auto simp: closed_def)
      then have "view v cid = Closed (received d (calls u) @ received_on d cs) (sent d (calls u))"
        using V(4) [OF sv] q [folded d_def, OF sv c] h(2) by simp
      then show ?thesis using U(4) [OF su] c unanswered by (auto simp: closed_def)
    qed
  qed
qed

lemma event_moves:
  assumes m: "machine_ok (echo_app o1 k d ptr) R" and S: "serving a R K H b act w"
    and c: "alive w cid" "enlisted cid w" and e: "all_echo w"
    and r: "conn_event (server_env (echo_app o1 k d ptr)) me cid True t w = Some w'"
  shows "service_step\<^sup>*\<^sup>* (view w) (view w')"
proof -
  define env where "env = server_env (echo_app o1 k d ptr)"
  define J where "J u \<longleftrightarrow> echo_ok cid u \<and> client_step\<^sup>*\<^sup>* (view w cid) (view u cid)" for u
  have os: "os_ok o1" using machine_okD(2) [OF m] by simp
  have J: "J v"
    if "goes a R K H b act cid w u" "J u"
      "run_cb (conn_callbacks env me cid) t kd u = Some v" "goes a R K H b act cid u v" for kd u v
  proof -
    note G = goesD [OF that(1)] and G' = goesD [OF that(4)]
    have ok: "conn_ok env cid u" using serving_conn_ok [OF m G(1,2)] by (simp add: env_def)
    have u: "echo_ok cid u" "client_step\<^sup>*\<^sup>* (view w cid) (view u cid)" using that(2) by (simp_all add: J_def)
    have v: "echo_ok cid v"
      by (rule echo_callback [OF env_def ok os u(1) G'(4) serving_state [OF G(1-3)] that(3)])
    have "sent (sockFd (conns u cid)) (calls v) = sent (sockFd (conns u cid)) (calls u)"
      if "smooth (sockFd (conns u cid)) (calls v)" "closed cid u"
      using closed_silent [OF env_def ok os u(1) _ that(2)] within_smooth [OF G'(4)] G'(4)
        \<open>run_cb _ _ _ _ = Some v\<close> that(1) by (simp add: within_def)
    then have "client_step\<^sup>*\<^sup>* (view u cid) (view v cid)"
      by (rule callback_moves [OF G(1-3) that(4) u(1) v])
    then show ?thesis using u(2) v by (simp add: J_def)
  qed
  have "J w" using e c(1) by (simp add: J_def all_echo_def)
  then have "goes a R K H b act cid w w' \<and> J w'"
    by (rule yieldsD [OF echo.conn_event_goes [OF m S c] r]) (rule J [unfolded env_def])
  then have "goes a R K H b act cid w w'" "J w'" by blast+
  then show ?thesis using views_within [OF S c(1) goesD(4)] by (simp add: J_def)
qed


subsection \<open>The steps of the server\<close>

lemma joins_view:
  assumes S: "serving a R K H b act w" and fd: "fd \<notin> accepted (calls w)" and J: "joins i fd w w'"
  shows "view w' = (view w)(nextObj w := Opening)"
proof
  fix c
  show "view w' c = ((view w)(nextObj w := Opening)) c"
  proof (cases "c = nextObj w")
    case True
    then show ?thesis using joins_history(1) [OF J] by (simp add: view_def joinsD(4,6,12,14) [OF J])
  next
    case False
    obtain cs where cs: "calls w' = calls w @ cs" "\<And>c. alive w c \<Longrightarrow> list_all (foreign (sockFd (conns w c))) cs"
      using joins_others [OF S fd J] by blast
    have "view w' c = view w c"
      using joinsD(2,12,14) [OF J] False cs(2) by (intro view_cong [OF _ _ _ _ cs(1)]) auto
    then show ?thesis using False by simp
  qed
qed

lemma active_moves:
  assumes m: "machine_ok (echo_app o1 k d ptr) R" and S: "serving a R K H b act w" and i: "i \<in> all_loops w"
    and x: "hasChannel x (pol w i)" and e: "all_echo w"
    and r: "handle_active (echo_app o1 k d ptr) i peer0 t x w = Some w'"
  shows "service_step\<^sup>*\<^sup>* (view w) (view w')"
proof (cases x)
  case (ChConn cid)
  have c: "alive w cid" "loopIx (conns w cid) = i"
    using serving_key [OF S i] x ChConn by (auto simp: hasChannel_def)
  then have "enlisted cid w" using serving_enlisted [OF S c(1)] x ChConn by simp
  then show ?thesis using event_moves [OF m S c(1) _ e] r ChConn c(1) by simp
next
  case ChAcceptor
  have "handle_active (echo_app o1 k d ptr) i peer0 t ChAcceptor w = Some w'" using r ChAcceptor by simp
  then show ?thesis
  proof (rule acceptor_cases [OF _ servingD(1) [OF S]])
    fix er
    assume "w' = log_call (CAccept (acceptFd w) (Inl er)) w"
    then have "view w' = view w"
      by (intro ext view_cong [where cs = "[CAccept (acceptFd w) (Inl er)]"]) (simp_all add: log_call_def)
    then show ?thesis by simp
  next
    fix j fd p
    assume x: "os_accept (os1 (echo_app o1 k d ptr)) (calls w) (acceptFd w) = Inr (fd, p)" and J: "joins j fd w w'"
    have "client_step\<^sup>*\<^sup>* (view w (nextObj w)) Opening" using arrive by (auto simp: view_def)
    from service_client [where v = "view w", OF this] show ?thesis
      by (simp add: joins_view [OF S conjunct2 [OF machine_okD(3) [OF m x]] J])
  qed simp
next
  case (ChWakeup j)
  have "\<exists>v. handleEvent (wakeup_callbacks j) (chan (pol w i) x) True t w = Some v \<and> view v = view w"
  proof (rule handleEvent_total [where I = "\<lambda>v. view v = view w"])
    fix kd u
    assume u: "view u = view w"
    have "view (u\<lparr>evl := (evl u)(j := handleRead (evl u j))\<rparr>) = view u"
      by (intro ext view_cong [where cs = "[]"]) simp_all
    then show "\<exists>v. run_cb (wakeup_callbacks j) t kd u = Some v \<and> view v = view w"
      using u by (cases kd) (auto simp: wakeup_callbacks_def call_def)
  qed simp
  then show ?thesis using r ChWakeup by auto
qed

text \<open>A task.\<close>

lemma task_view:
  assumes m: "machine_ok (echo_app o1 k d ptr) R" and S: "serving a R K H b act w" and i: "i \<in> all_loops w"
    and f: "f \<in> set (due b i w)" and e: "all_echo w"
    and r: "run_task (echo_app o1 k d ptr) i f w = Some w'"
  shows "view w' c = view w c \<or> view w c = Opening \<and> view w' c = Open []"
proof (cases "conns w' c = conns w c")
  case True
  have "view w' c = view w c"
    by (rule view_cong [where cs = "[]"]) (use task_conns [OF m S i f r] True in simp_all)
  then show ?thesis ..
next
  case False
  note T = task_conns [OF m S i f r]
  have c: "alive w c" "connState (conns w c) = KConnecting"
    "conns w' c = (conns w c)\<lparr>connState := KConnected\<rparr>"
    using T False by (auto split: if_splits)
  define fd where "fd = sockFd (conns w c)"
  have lt: "c < nextObj w" by (rule serving_new_object(2) [OF S c(1)])
  show ?thesis
  proof (cases "smooth fd (calls w)")
    case True
    have "echo_ok c w" using e c(1) by (simp add: all_echo_def)
    from echo_okD(6) [OF this True [unfolded fd_def] c(2)] have "view w' c = Open []"
      using T lt c True by (simp add: view_def Let_def fd_def)
    then show ?thesis using view_alive(2) [OF S c(1)] True c(2) by (simp add: fd_def)
  qed (use T lt c in \<open>simp add: view_def Let_def fd_def\<close>)
qed

lemma task_moves:
  assumes m: "machine_ok (echo_app o1 k d ptr) R" and S: "serving a R K H b act w" and i: "i \<in> all_loops w"
    and f: "f \<in> set (due b i w)" and e: "all_echo w"
    and r: "run_task (echo_app o1 k d ptr) i f w = Some w'"
  shows "service_step\<^sup>*\<^sup>* (view w) (view w')"
proof -
  note T = task_conns [OF m S i f r]
  have "\<exists>cid. \<forall>c. c \<noteq> cid \<longrightarrow> conns w' c = conns w c"
    using T by (elim conjE disjE exE) simp_all
  then obtain cid where o: "\<And>c. c \<noteq> cid \<Longrightarrow> conns w' c = conns w c" by blast
  have "client_step\<^sup>*\<^sup>* (view w cid) (view w' cid)"
    using task_view [OF m S i f e r, of cid] establish by auto
  moreover have "view w' c = view w c" if "c \<noteq> cid" for c
    by (rule view_cong [where cs = "[]"]) (use T o [OF that] in simp_all)
  ultimately show ?thesis by (rule one_moves [where v = "view w" and v' = "view w'"])
qed

text \<open>The release of a connection.\<close>

lemma drop_ref_moves:
  assumes S: "serving a R K (called s \<union> kept_by (f # fs)) (batch s) (active s) (srv s)"
  shows "service_step\<^sup>*\<^sup>* (view (srv s)) (view (srv (drop_ref f s)))"
proof (cases "\<exists>cid. keeps f = Some cid \<and> alive (srv s) cid \<and> \<not> held cid s")
  case False
  then have "drop_ref f s = s" by (auto simp: drop_ref_def split: option.split)
  then show ?thesis by simp
next
  case True
  then obtain cid where c: "keeps f = Some cid" "alive (srv s) cid" "\<not> held cid s" by blast
  define w where "w = srv s"
  define w' where "w' = TcpConnection_dtor cid w"
  have w': "srv (drop_ref f s) = w'" using c by (simp add: drop_ref_def w_def w'_def)
  note D = dtor_sel [where w = w and cid = cid, folded w'_def]
  have S': "serving a R K (called s \<union> kept_by (f # fs)) (batch s) (active s) w" using S by (simp add: w_def)
  have al: "alive w cid" using c(2) by (simp add: w_def)
  have "\<not> mapped cid w" using c(3) by (simp add: held_iff w_def)
  then have cl: "connState (conns w cid) = KDisconnected"
    using servingD(8) [OF S' al] by (auto simp: member_ok_def stage_ok_def split: StateE.splits)
  have "cid < nextObj w" by (rule serving_new_object(2) [OF S' al])
  then have "view w' cid = Gone" by (simp add: view_def D)
  then have g: "client_step\<^sup>*\<^sup>* (view w cid) (view w' cid)"
    using view_alive(1,4) [OF S' al] cl release release_impaired
    by (cases "smooth (sockFd (conns w cid)) (calls w)") auto
  have "view w' x = view w x" if "x \<noteq> cid" for x
    by (rule view_cong [OF _ _ _ _ D(6)]) (use that in \<open>simp_all add: D\<close>)
  then have "service_step\<^sup>*\<^sup>* (view w) (view w')" by (rule one_moves [where v = "view w" and v' = "view w'", OF g])
  then show ?thesis by (simp add: w' w_def)
qed

lemma drop_refs_moves:
  assumes "serving a R K (called s \<union> kept_by fs) (batch s) (active s) (srv s)"
  shows "service_step\<^sup>*\<^sup>* (view (srv s)) (view (srv (fold drop_ref fs s)))"
  using assms
proof (induction fs arbitrary: s)
  case (Cons f fs)
  have "serving a R K (called (drop_ref f s) \<union> kept_by fs) (batch (drop_ref f s)) (active (drop_ref f s))
      (srv (drop_ref f s))"
    using drop_ref_serving [OF Cons.prems] by simp
  from Cons.IH [OF this] drop_ref_moves [OF Cons.prems] show ?case by simp
qed simp

lemma step_moves:
  assumes st: "srv_step (echo_app o1 k d ptr) peer0 s t" and m: "machine_ok (echo_app o1 k d ptr) R"
    and S: "sys_ok a R s" and e: "all_echo (srv s)"
  shows "service_step\<^sup>*\<^sup>* (view (srv s)) (view (srv t))"
  using st
proof cases
  case (s_poll i r cs p)
  have "view ((srv s)\<lparr>pol := (pol (srv s))(i := p)\<rparr>) = view (srv s)"
    by (intro ext view_cong [where cs = "[]"]) simp_all
  then show ?thesis by (simp add: s_poll(1))
next
  case (s_handle i c cs u w)
  note V = sys_okD(1) [OF S]
  have "hasChannel c (pol (srv s) i)" using servingD(7) [OF V s_handle(2)] s_handle(4) by simp
  from active_moves [OF m V s_handle(2) this e s_handle(6)] show ?thesis by (simp add: s_handle(1))
next
  case (s_swap i)
  have "view (begin_functors i (srv s)) = view (srv s)"
    by (intro ext view_cong [where cs = "[]"]) (simp_all add: begin_functors_def)
  then show ?thesis by (simp add: s_swap(1))
next
  case (s_run i f fs w)
  have "f \<in> set (due (batch s) i (srv s))" using s_run(4) by (simp add: due_def)
  from task_moves [OF m sys_okD(1) [OF S] s_run(2) this e s_run(5)] show ?thesis by (simp add: s_run(1))
next
  case (s_finish i)
  have "view (end_functors i (srv s)) = view (srv s)"
    by (intro ext view_cong [where cs = "[]"]) (simp_all add: end_functors_def)
  then show ?thesis using drop_refs_moves [OF finished_serving [OF S s_finish(2-4)]] by (simp add: s_finish(1))
qed

text \<open>Before anyone has connected every client is \<open>Unborn\<close>.\<close>

lemma main_view: "from_main (echo_app o1 k d ptr) R s \<Longrightarrow> view (srv s) = (\<lambda>_. Unborn)"
proof -
  assume "from_main (echo_app o1 k d ptr) R s"
  then obtain evfd mem junk pton e l w0 w where b: "boot_ok (echo_app o1 k d ptr) evfd mem pton e l w0"
    "insert l (e ` {0..3}) \<subseteq> R" "main_start (echo_app o1 k d ptr) evfd mem junk pton w0 = Some w" "s = idle_sys w"
    unfolding from_main_def by blast
  obtain la where S: "sys_ok la R (idle_sys w)" and n: "nextConnId w = 1"
    using main_start_state [OF b(1,2), of junk] b(3) by auto
  then show ?thesis using serving_fresh(2) [OF sys_okD(1) [OF S]] by (simp add: b(4) view_def fun_eq_iff)
qed

lemma reach_moves:
  assumes m: "machine_ok (echo_app o1 k d ptr) R"
    and "reach (from_main (echo_app o1 k d ptr) R) (srv_step (echo_app o1 k d ptr) peer0) s"
  shows "service_step\<^sup>*\<^sup>* (\<lambda>_. Unborn) (view (srv s))"
  using assms(2)
proof induction
  case (reach_init s)
  then show ?case using main_view by simp
next
  case (reach_step s t)
  obtain la where S: "sys_ok la R s" using echo_reach_ok [OF m reach_step(1)] by blast
  show ?case
    using reach_step(3) step_moves [OF reach_step(2) m S echo_reach_echo [OF m reach_step(1)]]
    by (rule rtranclp_trans)
qed

end
