(* ===== verification/ServerProgress.thy ===== *)
theory ServerProgress
  imports ReachableServer
begin

text \<open>
  The server can always complete what it is doing: from every reachable state its threads can reach,
  by their own steps and without anything from the network, a state in which every loop waits and
  no work is left.
\<close>

subsection \<open>Every loop can return to \<open>epoll_wait\<close>\<close>

text \<open>
  The connection counter, an \<open>int\<close>, has room for the connections that the active channels still
  to be handled may make.
\<close>

definition room :: "sys \<Rightarrow> bool" where
  "room s \<longleftrightarrow> nextConnId (srv s) + int (\<Sum>i \<in> all_loops (srv s). length (active s i)) < 2 ^ 31"

lemma finite_loops: "finite (all_loops w)"
  by (simp add: all_loops_def)

lemma next_id: "sys_ok a R s \<Longrightarrow> nextConnId (srv s) = int (nextObj (srv s)) + 1"
  using servingD(2) [OF sys_okD(1)] by (auto simp: naming_def)

lemma room_cong:
  assumes "room s" "sys_ok a R s" "sys_ok a R t" "nextObj (srv t) = nextObj (srv s)" "active t = active s"
  shows "room t"
proof -
  have "all_loops (srv t) = all_loops (srv s)"
    using serving_all_loops [OF sys_okD(1) [OF assms(2)]] serving_all_loops [OF sys_okD(1) [OF assms(3)]] by simp
  then show ?thesis using assms(1,4,5) next_id [OF assms(2)] next_id [OF assms(3)] by (simp add: room_def)
qed

lemma room_sum:
  assumes "i \<in> all_loops (srv s)"
  shows "(\<Sum>j \<in> all_loops (srv s). length (active u j)) =
    length (active u i) + (\<Sum>j \<in> all_loops (srv s) - {i}. length (active u j))"
  by (rule sum.remove [OF finite_loops assms])

lemma room_left:
  assumes "room s" "i \<in> all_loops (srv s)" "active s i = c # cs"
  shows "nextConnId (srv s) < 2 ^ 31 - 1"
  using assms(1,3) by (simp add: room_def room_sum [OF assms(2)] del: of_nat_sum)

lemma room_pop:
  assumes "room s" "sys_ok a R s" "sys_ok a R t" "nextObj (srv t) \<le> nextObj (srv s) + 1"
    and i: "i \<in> all_loops (srv s)" and "active s i = c # cs" "active t = (active s)(i := cs)"
  shows "room t"
proof -
  have "all_loops (srv t) = all_loops (srv s)"
    using serving_all_loops [OF sys_okD(1) [OF assms(2)]] serving_all_loops [OF sys_okD(1) [OF assms(3)]] by simp
  moreover have "(\<Sum>j \<in> all_loops (srv s). length (active t j)) =
      length cs + (\<Sum>j \<in> all_loops (srv s) - {i}. length (active s j))"
    using room_sum [OF i, of t] by (simp add: assms(7))
  ultimately show ?thesis
    using assms(1,4,6) next_id [OF assms(2)] next_id [OF assms(3)] room_sum [OF i, of s]
    by (simp add: room_def del: of_nat_sum)
qed

text \<open>An event of a connection that returned.\<close>

lemma event_goes:
  assumes "machine_ok (echo_app o1 k d ptr) R" "serving a R K H b act w" "alive w cid" "enlisted cid w"
    and "conn_event (server_env (echo_app o1 k d ptr)) me cid True t w = Some w'"
  shows "goes a R K H b act cid w w'"
  using yieldsD [OF echo.conn_event_goes [where J = "\<lambda>_. True", OF assms(1-4)] assms(5)] by blast

text \<open>A channel makes one connection at most.\<close>

lemma active_objects:
  assumes m: "machine_ok (echo_app o1 k d ptr) R" and S: "serving a R K H b act w" and i: "i \<in> all_loops w"
    and x: "hasChannel x (pol w i)" and r: "handle_active (echo_app o1 k d ptr) i peer0 t x w = Some w'"
  shows "nextObj w' \<le> nextObj w + 1"
proof (cases x)
  case (ChConn cid)
  have c: "alive w cid" "loopIx (conns w cid) = i"
    using serving_key [OF S i] x ChConn by (auto simp: hasChannel_def)
  have "enlisted cid w" using serving_enlisted [OF S c(1)] x ChConn c(2) by simp
  moreover have "conn_event (server_env (echo_app o1 k d ptr)) i cid True t w = Some w'" using r ChConn c(1) by simp
  ultimately have "goes a R K H b act cid w w'" by (rule event_goes [OF m S c(1)])
  then show ?thesis by (simp add: goes_def within_def)
next
  case ChAcceptor
  have "handle_active (echo_app o1 k d ptr) i peer0 t ChAcceptor w = Some w'" using r ChAcceptor by simp
  then show ?thesis by (rule acceptor_cases [OF _ servingD(1) [OF S]]) (auto simp: log_call_def dest: joinsD(14))
next
  case (ChWakeup j)
  have "\<exists>v. handleEvent (wakeup_callbacks j) (chan (pol w i) x) True t w = Some v \<and> nextObj v = nextObj w"
  proof (rule handleEvent_total [where I = "\<lambda>v :: server. nextObj v = nextObj w"])
    fix kd and u :: server
    assume "nextObj u = nextObj w"
    then show "\<exists>v. run_cb (wakeup_callbacks j) t kd u = Some v \<and> nextObj v = nextObj w"
      by (cases kd) (auto simp: wakeup_callbacks_def call_def)
  qed simp
  then show ?thesis using r ChWakeup by auto
qed

lemma drop_refs_objects: "nextObj (srv (fold drop_ref fs s)) = nextObj (srv s)"
proof (induction fs arbitrary: s)
  case (Cons f fs)
  have "nextObj (srv (drop_ref f s)) = nextObj (srv s)" by (simp add: drop_ref_def dtor_sel split: option.split)
  then show ?case using Cons.IH [of "drop_ref f s"] by simp
qed simp

text \<open>The active channels are handled, the tasks run.\<close>

lemma handles_all:
  assumes m: "machine_ok (echo_app o1 k d ptr) R" and np: "no_sigpipe o1" and "sys_ok a R s" "i \<in> all_loops (srv s)"
    and "phase s i = Handling" "room s"
  shows "\<exists>t. (calm (echo_app o1 k d ptr) peer0)\<^sup>*\<^sup>* s t \<and> sys_ok a R t \<and> room t \<and> phase t = phase s \<and>
    active t i = []"
  using assms(3-6)
proof (induction "active s i" arbitrary: s)
  case Nil
  then show ?case by (intro exI [of _ s]) simp
next
  case (Cons c cs)
  note S = Cons.prems(1) and i = Cons.prems(2) and ph = Cons.prems(3) and ac = Cons.hyps(2) [symmetric]
  note V = sys_okD(1) [OF S]
  have n: "nextConnId (srv s) < 2 ^ 31 - 1" by (rule room_left [OF Cons.prems(4) i ac])
  obtain w where w: "handle_active (echo_app o1 k d ptr) i peer0 0 c (srv s) = Some w"
    "sys_ok a R (s\<lparr>srv := w, active := (active s)(i := cs)\<rparr>)" (is "sys_ok a R ?t")
    using yields_total [OF echo.handle_sys_ok [OF m S i ph ac n]] np by auto
  have "hasChannel c (pol (srv s) i)" using servingD(7) [OF V i] ac by simp
  then have "nextObj w \<le> nextObj (srv s) + 1" by (rule active_objects [OF m V i _ w(1)])
  then have "room ?t" by (intro room_pop [OF Cons.prems(4) S w(2) _ i ac]) simp_all
  moreover have "i \<in> all_loops (srv ?t)"
    using i serving_all_loops [OF V] serving_all_loops [OF sys_okD(1) [OF w(2)]] by simp
  ultimately obtain t where "(calm (echo_app o1 k d ptr) peer0)\<^sup>*\<^sup>* ?t t" "sys_ok a R t" "room t"
    "phase t = phase s" "active t i = []"
    using Cons.hyps(1) [of ?t] w(2) ph by auto
  moreover have "calm (echo_app o1 k d ptr) peer0 s ?t"
    by (rule calmI [OF s_handle [OF i ph ac n w(1)]]) (auto simp: ac)
  ultimately show ?case by (intro exI [of _ t]) (simp add: converse_rtranclp_into_rtranclp)
qed

lemma runs_all:
  assumes m: "machine_ok (echo_app o1 k d ptr) R" and "sys_ok a R s" "i \<in> all_loops (srv s)"
    and "phase s i = Running" "room s"
  shows "\<exists>t. (calm (echo_app o1 k d ptr) peer0)\<^sup>*\<^sup>* s t \<and> sys_ok a R t \<and> room t \<and> phase t = phase s \<and>
    batch t i = []"
  using assms(2-5)
proof (induction "batch s i" arbitrary: s)
  case Nil
  then show ?case by (intro exI [of _ s]) simp
next
  case (Cons f fs)
  note S = Cons.prems(1) and i = Cons.prems(2) and ph = Cons.prems(3) and ba = Cons.hyps(2) [symmetric]
  note V = sys_okD(1) [OF S]
  obtain w where w: "run_task (echo_app o1 k d ptr) i f (srv s) = Some w"
    "sys_ok a R (s\<lparr>srv := w, batch := (batch s)(i := fs), finished := (finished s)(i := finished s i @ [f])\<rparr>)"
    (is "sys_ok a R ?t")
    using echo.run_sys_ok [OF m S i ph ba] by blast
  have "f \<in> set (due (batch s) i (srv s))" using ba by (simp add: due_def)
  then have "nextObj w = nextObj (srv s)" using task_conns [OF m V i _ w(1)] by simp
  then have "room ?t" by (intro room_cong [OF Cons.prems(4) S w(2)]) simp_all
  moreover have "i \<in> all_loops (srv ?t)"
    using i serving_all_loops [OF V] serving_all_loops [OF sys_okD(1) [OF w(2)]] by simp
  ultimately obtain t where "(calm (echo_app o1 k d ptr) peer0)\<^sup>*\<^sup>* ?t t" "sys_ok a R t" "room t"
    "phase t = phase s" "batch t i = []"
    using Cons.hyps(1) [of ?t] w(2) ph by auto
  moreover have "calm (echo_app o1 k d ptr) peer0 s ?t"
    by (rule calmI [OF s_run [OF i ph ba w(1)]]) simp
  ultimately show ?case by (intro exI [of _ t]) (simp add: converse_rtranclp_into_rtranclp)
qed

text \<open>One loop finishes its turn; the others stay where they are.\<close>

lemma turn_ends:
  assumes m: "machine_ok (echo_app o1 k d ptr) R" and np: "no_sigpipe o1" and S: "sys_ok a R s" and i: "i \<in> snd a" and rm: "room s"
  shows "\<exists>t. (calm (echo_app o1 k d ptr) peer0)\<^sup>*\<^sup>* s t \<and> sys_ok a R t \<and> room t \<and>
    phase t = (phase s)(i := Waiting)"
proof -
  let ?steps = "(calm (echo_app o1 k d ptr) peer0)\<^sup>*\<^sup>*"
  have loops: "i \<in> all_loops (srv u)" if "sys_ok a R u" for u
    using serving_all_loops [OF sys_okD(1) [OF that]] i by simp
  have run: "\<exists>t. ?steps u t \<and> sys_ok a R t \<and> room t \<and> phase t = (phase u)(i := Waiting)"
    if U: "sys_ok a R u" "phase u i = Running" "room u" for u
  proof -
    obtain v where v: "?steps u v" "sys_ok a R v" "room v" "phase v = phase u" "batch v i = []"
      using runs_all [OF m U(1) loops [OF U(1)] U(2,3)] by blast
    have ph: "phase v i = Running" using v(4) U(2) by simp
    define t where "t = fold drop_ref (finished v i)
      (v\<lparr>srv := end_functors i (srv v), phase := (phase v)(i := Waiting), finished := (finished v)(i := [])\<rparr>)"
    have st: "srv_step (echo_app o1 k d ptr) peer0 v t"
      unfolding t_def by (rule s_finish [OF loops [OF v(2)] ph v(5)])
    have T: "sys_ok a R t" by (rule echo.step_sys_ok [OF st m v(2)])
    have "nextObj (srv t) = nextObj (srv v)" "active t = active v" "phase t = (phase u)(i := Waiting)"
      by (simp_all add: t_def drop_refs_objects end_functors_def v(4))
    moreover have "calm (echo_app o1 k d ptr) peer0 v t" by (rule calmI [OF st]) (simp add: t_def)
    ultimately show ?thesis using v(1) T room_cong [OF v(3,2) T] by (meson rtranclp.rtrancl_into_rtrancl)
  qed
  have handle: "\<exists>t. ?steps u t \<and> sys_ok a R t \<and> room t \<and> phase t = (phase u)(i := Waiting)"
    if U: "sys_ok a R u" "phase u i = Handling" "room u" for u
  proof -
    obtain v where v: "?steps u v" "sys_ok a R v" "room v" "phase v = phase u" "active v i = []"
      using handles_all [OF m np U(1) loops [OF U(1)] U(2,3)] by blast
    have ph: "phase v i = Handling" using v(4) U(2) by simp
    define t where "t = v\<lparr>srv := begin_functors i (srv v), phase := (phase v)(i := Running),
      batch := (batch v)(i := pendingFunctors (evl (srv v) i)), finished := (finished v)(i := [])\<rparr>"
    have st: "srv_step (echo_app o1 k d ptr) peer0 v t"
      unfolding t_def by (rule s_swap [OF loops [OF v(2)] ph v(5)])
    have T: "sys_ok a R t" by (rule echo.step_sys_ok [OF st m v(2)])
    have "room t" by (rule room_cong [OF v(3,2) T]) (simp_all add: t_def begin_functors_def)
    moreover have cm: "calm (echo_app o1 k d ptr) peer0 v t" by (rule calmI [OF st]) (simp add: t_def)
    moreover have "phase t i = Running" "(phase t)(i := Waiting) = (phase u)(i := Waiting)"
      by (simp_all add: t_def v(4))
    ultimately obtain x where "?steps t x" "sys_ok a R x" "room x" "phase x = (phase u)(i := Waiting)"
      using run [OF T] by metis
    then show ?thesis using v(1) cm by (meson rtranclp.rtrancl_into_rtrancl rtranclp_trans)
  qed
  show ?thesis
  proof (cases "phase s i")
    case Waiting
    then show ?thesis using S rm by (intro exI [of _ s]) auto
  qed (use run [OF S _ rm] handle [OF S _ rm] in blast)+
qed

lemma turns_end:
  assumes m: "machine_ok (echo_app o1 k d ptr) R" and np: "no_sigpipe o1" and "sys_ok a R s" "set ls \<subseteq> snd a" "room s"
  shows "\<exists>t. (calm (echo_app o1 k d ptr) peer0)\<^sup>*\<^sup>* s t \<and> sys_ok a R t \<and>
    phase t = (\<lambda>i. if i \<in> set ls then Waiting else phase s i)"
  using assms(3-5)
proof (induction ls arbitrary: s)
  case Nil
  then show ?case by (intro exI [of _ s]) simp
next
  case (Cons i ls)
  obtain u where u: "(calm (echo_app o1 k d ptr) peer0)\<^sup>*\<^sup>* s u" "sys_ok a R u" "room u"
    "phase u = (phase s)(i := Waiting)"
    using turn_ends [OF m np Cons.prems(1) _ Cons.prems(3), of i] Cons.prems(2) by auto
  obtain t where t: "(calm (echo_app o1 k d ptr) peer0)\<^sup>*\<^sup>* u t" "sys_ok a R t"
    "phase t = (\<lambda>j. if j \<in> set ls then Waiting else phase u j)"
    using Cons.IH [OF u(2) _ u(3)] Cons.prems(2) by auto
  have "phase t = (\<lambda>j. if j \<in> set (i # ls) then Waiting else phase s j)" by (auto simp: t(3) u(4))
  then show ?case using rtranclp_trans [OF u(1) t(1)] t(2) by blast
qed

text \<open>Nothing else than the loops ever moves.\<close>

lemma step_phase: "srv_step env peer0 s t \<Longrightarrow> i \<notin> all_loops (srv s) \<Longrightarrow> phase t i = phase s i"
  by (erule srv_step.cases) auto

lemma others_wait:
  assumes m: "machine_ok (echo_app o1 k d ptr) R"
    and "reach (from_main (echo_app o1 k d ptr) R) (srv_step (echo_app o1 k d ptr) peer0) s"
  shows "i \<notin> {0, 1, 2, 3} \<Longrightarrow> phase s i = Waiting"
  using assms(2)
proof induction
  case (reach_init s)
  then show ?case by (auto simp: from_main_def)
next
  case (reach_step s t)
  have "all_loops (srv s) = {0, 1, 2, 3}" by (rule echo_reach_serving(2) [OF m reach_step(1)])
  then show ?case using step_phase [OF reach_step(2), of i] reach_step(3,4) by simp
qed

lemma all_waiting: "sys_ok a R s \<Longrightarrow> (\<And>i. phase s i = Waiting) \<Longrightarrow> s = idle_sys (srv s)"
  using sys_okD(2-4) [of a R s] by (cases s) (auto simp: idle_sys_def)

lemma returns_to_poll:
  assumes m: "machine_ok (echo_app o1 k d ptr) R" and np: "no_sigpipe o1"
    and r: "reach (from_main (echo_app o1 k d ptr) R) (srv_step (echo_app o1 k d ptr) peer0) s" and rm: "room s"
  shows "\<exists>w. (calm (echo_app o1 k d ptr) peer0)\<^sup>*\<^sup>* s (idle_sys w)"
proof -
  obtain la where S: "sys_ok (listens_on la) R s" using echo_reach_ok [OF m r] by blast
  have ls: "set [0, 1, 2, 3] \<subseteq> snd (listens_on la)" by (simp add: listens_on_def)
  obtain t where t: "(calm (echo_app o1 k d ptr) peer0)\<^sup>*\<^sup>* s t" "sys_ok (listens_on la) R t"
    "phase t = (\<lambda>i. if i \<in> set [0, 1, 2, 3] then Waiting else phase s i)"
    using turns_end [OF m np S ls rm] by blast
  have "phase t i = Waiting" for i using others_wait [OF m r, of i] by (simp add: t(3))
  from all_waiting [OF t(2) this] t(1) show ?thesis by metis
qed

subsection \<open>The work that is under way is completed\<close>

text \<open>One turn of every loop, the base loop first, in which the kernel reports no event.\<close>

definition settle :: "senv \<Rightarrow> sockaddr_in \<Rightarrow> int \<Rightarrow> server \<Rightarrow> server option" where
  "settle env peer0 t w =
     fold_opt (\<lambda>i. loop_once env i peer0 (Inr []) t) (baseIx w # loops (threadPool w)) w"

definition settled :: "server \<Rightarrow> bool" where
  "settled w \<longleftrightarrow> (\<forall>i \<in> all_loops w. pendingFunctors (evl w i) = []) \<and>
     (\<forall>cid. alive w cid \<longrightarrow> connState (conns w cid) = KConnected \<and> mapped cid w \<and>
        (\<exists>m. watched cid w = Some (m, ChConn cid) \<and> m AND ReadEvent \<noteq> 0))"

lemma idle_settled:
  assumes S: "sys_ok a R (idle_sys w)" and q: "\<forall>i \<in> all_loops w. pendingFunctors (evl w i) = []"
  shows "settled w"
proof -
  have V: "serving a R UNIV {} (\<lambda>_. []) (\<lambda>_. []) w"
    using sys_okD(1) [OF S] by (simp add: called_def still_def idle_sys_def)
  have "connState (conns w cid) = KConnected \<and> mapped cid w \<and> attentive cid w" if al: "alive w cid" for cid
  proof -
    have "stage_ok {} (\<lambda>_. []) cid w" using servingD(8) [OF V al] by (simp add: member_ok_def)
    then show ?thesis using q serving_loop [OF V al]
      by (auto simp: stage_ok_def closing_due_def due_def all_loops_def split: StateE.splits)
  qed
  then show ?thesis using q serving_watched(2) [OF V] by (auto simp: settled_def attentive_def)
qed

lemma echo_settles:
  assumes m: "machine_ok (echo_app o1 k d ptr) R" and S: "sys_ok a R (idle_sys w)"
  shows "\<exists>w'. settle (echo_app o1 k d ptr) peer0 t w = Some w' \<and> settled w' \<and> survive w w' \<and>
    sys_ok a R (idle_sys w') \<and> (calm (echo_app o1 k d ptr) peer0)\<^sup>*\<^sup>* (idle_sys w) (idle_sys w')"
proof -
  let ?e = "echo_app o1 k d ptr"
  note V = sys_okD(1) [OF S, unfolded idle_sys_sel]
  have al: "all_loops w = snd a" by (rule serving_all_loops [OF V])
  have b: "baseIx w \<in> snd a" using al by (auto simp: all_loops_def)
  obtain u where u: "loop_once ?e (baseIx w) peer0 (Inr []) t w = Some u" "drained (baseIx w) w u"
    "(calm ?e peer0)\<^sup>*\<^sup>* (idle_sys w) (idle_sys u)"
    using echo.quiet_turn [OF m S b] by blast
  note Su = echo.calm_runs_ok [OF u(3) m S]
  have "set (loops (threadPool w)) \<subseteq> snd a - {baseIx u}" "\<forall>j \<in> {baseIx w}. pendingFunctors (evl u j) = []"
    using al servingD(1) [OF V] u(2) by (auto simp: all_loops_def drained_def pool_fine_def)
  from echo.quiet_turns [OF m Su this, of peer0 t]
  obtain w' where w': "fold_opt (\<lambda>i. loop_once ?e i peer0 (Inr []) t) (loops (threadPool w)) u = Some w'"
    "(calm ?e peer0)\<^sup>*\<^sup>* (idle_sys u) (idle_sys w')"
    "\<forall>j \<in> {baseIx w} \<union> set (loops (threadPool w)). pendingFunctors (evl w' j) = []" "survive u w'"
    by blast
  note S' = echo.calm_runs_ok [OF w'(2) m Su]
  have "all_loops w' = all_loops w" using serving_all_loops [OF sys_okD(1) [OF S']] al by simp
  then have "\<forall>i \<in> all_loops w'. pendingFunctors (evl w' i) = []" using w'(3) by (simp add: all_loops_def)
  moreover have "settle ?e peer0 t w = Some w'" using u(1) w'(1) by (simp add: settle_def)
  ultimately show ?thesis
    using idle_settled [OF S'] S' survive_trans [OF _ w'(4)] u(2) rtranclp_trans [OF u(3) w'(2)] by (auto simp: drained_def)
qed

end
