(* ===== verification/ServerAdmits.thy ===== *)
theory ServerAdmits
  imports EchoService ServerProgress
begin

text \<open>
  A client that has connected is served: from the state after its \<open>accept\<close> the server's threads
  reach, by their own steps, a state in which its connection is established and open. The steps
  are \<open>calm\<close>: they poll no new events, so that no handler of the new connection runs on the way.
\<close>

subsection \<open>What a calm step does to a connection that is not being handled\<close>

definition unhandled :: "nat \<Rightarrow> sys \<Rightarrow> bool" where
  "unhandled c s \<longleftrightarrow> alive (srv s) c \<and> \<not> closed c (srv s) \<and> (\<forall>i. ChConn c \<notin> set (active s i))"

text \<open>The client is where it was, or its connection has just been established.\<close>

definition admitted :: "nat \<Rightarrow> server \<Rightarrow> server \<Rightarrow> bool" where
  "admitted c w w' \<longleftrightarrow> alive w' c \<and> \<not> closed c w' \<and> sockFd (conns w' c) = sockFd (conns w c) \<and>
     (view w' c = view w c \<or> view w c = Opening \<and> view w' c = Open [])"

lemma admitted_refl: "alive w c \<Longrightarrow> \<not> closed c w \<Longrightarrow> admitted c w w"
  by (simp add: admitted_def)

lemma admitted_trans: "admitted c u v \<Longrightarrow> admitted c v w \<Longrightarrow> admitted c u w"
  unfolding admitted_def by auto

lemma admittedI:
  assumes "alive w c" "\<not> closed c w" "alive w' c" "conns w' c = conns w c" "view w' c = view w c"
  shows "admitted c w w'"
  using assms by (simp add: admitted_def closed_def)

lemma same_admitted:
  assumes "alive w c" "\<not> closed c w" "alive w' = alive w" "nextObj w' = nextObj w" "conns w' = conns w"
    and "calls w' = calls w @ cs" "list_all (foreign (sockFd (conns w c))) cs"
  shows "admitted c w w'"
proof -
  have "view w' c = view w c" by (rule view_cong [OF _ _ _ _ assms(6,7)]) (simp_all add: assms(3-5))
  then show ?thesis by (intro admittedI [OF assms(1,2)]) (simp_all add: assms(1,3,5))
qed

lemma active_admitted:
  assumes m: "machine_ok (echo_app o1 k d ptr) R" and S: "serving a R K H b act w" and i: "i \<in> all_loops w"
    and x: "hasChannel x (pol w i)" and r: "handle_active (echo_app o1 k d ptr) i peer0 t x w = Some w'"
    and c: "alive w c" "\<not> closed c w" "x \<noteq> ChConn c"
  shows "admitted c w w'"
proof (cases x)
  case (ChConn cid)
  have l: "alive w cid" "loopIx (conns w cid) = i"
    using serving_key [OF S i] x ChConn by (auto simp: hasChannel_def)
  then have "enlisted cid w" using serving_enlisted [OF S l(1)] x ChConn by simp
  from goesD(4) [OF event_goes [OF m S l(1) this]] have g: "within cid w w'" using r ChConn l(1) by simp
  have ne: "c \<noteq> cid" using c(3) ChConn by simp
  then have "view w' c = view w c"
    using serving_socket_inj [OF S c(1) l(1)] by (intro view_within [OF g]) auto
  then show ?thesis using g ne c(1,2) by (intro admittedI) (simp_all add: within_def)
next
  case ChAcceptor
  have "handle_active (echo_app o1 k d ptr) i peer0 t ChAcceptor w = Some w'" using r ChAcceptor by simp
  then show ?thesis
  proof (rule acceptor_cases [OF _ servingD(1) [OF S]])
    fix er
    assume "w' = log_call (CAccept (acceptFd w) (Inl er)) w"
    then show ?thesis by (intro same_admitted [OF c(1,2), where cs = "[CAccept (acceptFd w) (Inl er)]"])
      (simp_all add: log_call_def)
  next
    fix j fd p
    assume y: "os_accept (os1 (echo_app o1 k d ptr)) (calls w) (acceptFd w) = Inr (fd, p)" and J: "joins j fd w w'"
    have ne: "c \<noteq> nextObj w" using serving_new_object(1) [OF S] c(1) by auto
    then have "view w' c = view w c" by (simp add: joins_view [OF S conjunct2 [OF machine_okD(3) [OF m y]] J])
    then show ?thesis using joinsD(2,12) [OF J] ne c by (intro admittedI) simp_all
  qed (use admitted_refl c in simp)
next
  case (ChWakeup j)
  have "\<exists>v. handleEvent (wakeup_callbacks j) (chan (pol w i) x) True t w = Some v \<and> admitted c w v"
  proof (rule handleEvent_total [where I = "admitted c w"])
    fix kd and u :: server
    assume u: "admitted c w u"
    then have "admitted c u (u\<lparr>evl := (evl u)(j := handleRead (evl u j))\<rparr>)"
      by (intro same_admitted [where cs = "[]"]) (simp_all add: admitted_def)
    from admitted_trans [OF u this] show "\<exists>v. run_cb (wakeup_callbacks j) t kd u = Some v \<and> admitted c w v"
      using u by (cases kd) (auto simp: wakeup_callbacks_def call_def)
  qed (rule admitted_refl [OF c(1,2)])
  then show ?thesis using r ChWakeup by auto
qed

text \<open>A connection that is not closed is in the map, so that no destructor runs for it.\<close>

lemma open_held:
  assumes "serving a R K H b act (srv s)" "alive (srv s) c" "\<not> closed c (srv s)"
  shows "held c s"
  using servingD(8) [OF assms(1,2)] assms(3)
  by (auto simp: member_ok_def stage_ok_def closed_def held_iff split: StateE.splits)

lemma drop_refs_admitted:
  assumes "serving a R K (called s \<union> kept_by fs) (batch s) (active s) (srv s)"
    and "alive (srv s) c" "\<not> closed c (srv s)"
  shows "admitted c (srv s) (srv (fold drop_ref fs s))"
  using assms
proof (induction fs arbitrary: s)
  case Nil
  then show ?case by (simp add: admitted_refl)
next
  case (Cons f fs)
  have one: "admitted c (srv s) (srv (drop_ref f s))"
  proof (cases "\<exists>cid. keeps f = Some cid \<and> alive (srv s) cid \<and> \<not> held cid s")
    case False
    then have "drop_ref f s = s" by (auto simp: drop_ref_def split: option.split)
    then show ?thesis using Cons.prems by (simp add: admitted_refl)
  next
    case True
    then obtain cid where d: "keeps f = Some cid" "alive (srv s) cid" "\<not> held cid s" by blast
    have ne: "c \<noteq> cid" using open_held [OF Cons.prems] d(3) by auto
    have s: "srv (drop_ref f s) = TcpConnection_dtor cid (srv s)" using d by (simp add: drop_ref_def)
    have "view (TcpConnection_dtor cid (srv s)) c = view (srv s) c"
      by (rule view_cong [OF _ _ _ _ dtor_sel(6)]) (use ne in \<open>simp_all add: dtor_sel\<close>)
    then show ?thesis using Cons.prems(2,3) ne by (intro admittedI) (simp_all add: s dtor_sel)
  qed
  have "serving a R K (called (drop_ref f s) \<union> kept_by fs) (batch (drop_ref f s)) (active (drop_ref f s))
      (srv (drop_ref f s))"
    using drop_ref_serving [OF Cons.prems(1)] by simp
  from Cons.IH [OF this] one admitted_trans [OF one] show ?case by (simp add: admitted_def)
qed

lemma calm_admitted:
  assumes st: "calm (echo_app o1 k d ptr) peer0 s t" and m: "machine_ok (echo_app o1 k d ptr) R"
    and S: "sys_ok a R s" and e: "all_echo (srv s)" and u: "unhandled c s"
  shows "admitted c (srv s) (srv t)" "unhandled c t"
proof -
  have c: "alive (srv s) c" "\<not> closed c (srv s)" "\<And>i. ChConn c \<notin> set (active s i)"
    using u by (simp_all add: unhandled_def)
  have step: "srv_step (echo_app o1 k d ptr) peer0 s t" using st by (simp add: calm_def)
  note V = sys_okD(1) [OF S]
  from step show ad: "admitted c (srv s) (srv t)"
  proof cases
    case (s_poll i r cs p)
    show ?thesis by (rule same_admitted [OF c(1,2), where cs = "[]"]) (simp_all add: s_poll(1))
  next
    case (s_handle i x cs u w)
    have x: "hasChannel x (pol (srv s) i)" using servingD(7) [OF V s_handle(2)] s_handle(4) by simp
    have "x \<noteq> ChConn c" using c(3) [of i] s_handle(4) by auto
    from active_admitted [OF m V s_handle(2) x s_handle(6) c(1,2) this] show ?thesis by (simp add: s_handle(1))
  next
    case (s_swap i)
    show ?thesis
      by (rule same_admitted [OF c(1,2), where cs = "[]"]) (simp_all add: s_swap(1) begin_functors_def)
  next
    case (s_run i f fs w)
    have f: "f \<in> set (due (batch s) i (srv s))" using s_run(4) by (simp add: due_def)
    have T: "alive w c" "\<not> closed c w" "sockFd (conns w c) = sockFd (conns (srv s) c)"
      using task_conns [OF m V s_run(2) f s_run(5)] c(1,2) by (auto simp: closed_def split: if_splits)
    then show ?thesis
      using task_view [OF m V s_run(2) f e s_run(5), of c] by (simp add: s_run(1) admitted_def)
  next
    case (s_finish i)
    let ?t = "s\<lparr>srv := end_functors i (srv s), phase := (phase s)(i := Waiting), finished := (finished s)(i := [])\<rparr>"
    have one: "admitted c (srv s) (srv ?t)"
      by (rule same_admitted [OF c(1,2), where cs = "[]"]) (simp_all add: end_functors_def)
    then have "alive (srv ?t) c" "\<not> closed c (srv ?t)" unfolding admitted_def by blast+
    from drop_refs_admitted [OF finished_serving [OF S s_finish(2-4)] this]
    show ?thesis using admitted_trans [OF one] by (simp add: s_finish(1))
  qed
  have "ChConn c \<notin> set (active t i)" for i using st c(3) [of i] by (auto simp: calm_def)
  then show "unhandled c t" using ad by (simp add: unhandled_def admitted_def)
qed

lemma calm_runs_admitted:
  assumes "(calm (echo_app o1 k d ptr) peer0)\<^sup>*\<^sup>* s t" and m: "machine_ok (echo_app o1 k d ptr) R"
    and "sys_ok a R s" "all_echo (srv s)" "unhandled c s"
  shows "admitted c (srv s) (srv t)"
proof -
  have "admitted c (srv s) (srv t) \<and> sys_ok a R t \<and> all_echo (srv t) \<and> unhandled c t"
    using assms(1)
  proof induction
    case base
    then show ?case using assms(3-5) by (simp add: unhandled_def admitted_refl)
  next
    case (step u v)
    have st: "srv_step (echo_app o1 k d ptr) peer0 u v" using step(2) by (simp add: calm_def)
    note IH = step.IH
    have "admitted c (srv u) (srv v)" "unhandled c v"
      using calm_admitted [OF step(2) m] IH by blast+
    moreover have "sys_ok a R v" using echo.step_sys_ok [OF st m] IH by blast
    moreover have "all_echo (srv v)" using step_echo [OF st m] IH by blast
    ultimately show ?case using IH admitted_trans by blast
  qed
  then show ?thesis ..
qed


subsection \<open>A client that connects\<close>

lemma accepted_unhandled:
  assumes m: "machine_ok (echo_app o1 k d ptr) R"
    and r: "reach (from_main (echo_app o1 k d ptr) R) (srv_step (echo_app o1 k d ptr) peer0) s"
    and J: "joins j fd (srv s) w" and act: "\<And>i. set (act i) \<subseteq> set (active s i)"
  shows "unhandled (nextObj (srv s)) (s\<lparr>srv := w, active := act\<rparr>)"
proof -
  define c where "c = nextObj (srv s)"
  obtain la where S: "sys_ok (listens_on la) R s" using echo_reach_ok [OF m r] by blast
  note V = sys_okD(1) [OF S]
  have "ChConn c \<notin> set (active s i)" for i
  proof (cases "i \<in> all_loops (srv s)")
    case True
    have "hasChannel (ChConn c) (pol (srv s) i) \<Longrightarrow> alive (srv s) c"
      using serving_key(1) [OF V True] by (auto simp: hasChannel_def)
    then show ?thesis using servingD(7) [OF V True] serving_new_object(1) [OF V] by (auto simp: c_def)
  next
    case False
    then have "phase s i = Waiting" using others_wait [OF m r, of i] echo_reach_serving(2) [OF m r] by simp
    then show ?thesis using sys_okD(2) [OF S, of i] by simp
  qed
  then show ?thesis using act joinsD(4,12) [OF J] by (auto simp: unhandled_def closed_def c_def)
qed

lemma client_served:
  assumes m: "machine_ok (echo_app o1 k d ptr) R" and np: "no_sigpipe o1"
    and r: "reach (from_main (echo_app o1 k d ptr) R) (srv_step (echo_app o1 k d ptr) peer0) s" and rm: "room s"
    and h: "phase s 0 = Handling" "active s 0 = ChAcceptor # cs"
    and rv: "revents (chan (pol (srv s) 0) ChAcceptor) = EPOLLIN"
    and acc: "os_accept o1 (calls (srv s)) (acceptFd (srv s)) = Inr (fd, peer)"
  defines "c \<equiv> nextObj (srv s)"
  shows "\<exists>w. (calm (echo_app o1 k d ptr) peer0)\<^sup>*\<^sup>* s (idle_sys w) \<and> settled w \<and>
    view w c = Open [] \<and> sockFd (conns w c) = fd"
proof -
  define env where "env = echo_app o1 k d ptr"
  obtain la where S: "sys_ok (listens_on la) R s" using echo_reach_ok [OF m r] by blast
  note V = sys_okD(1) [OF S]
  have i: "0 \<in> all_loops (srv s)" using echo_reach_serving(2) [OF m r] by simp
  have n: "nextConnId (srv s) < 2 ^ 31 - 1" by (rule room_left [OF rm i h(2)])
  have acc': "os_accept (os1 env) (calls (srv s)) (acceptFd (srv s)) = Inr (fd, peer)" using acc by (simp add: env_def)
  obtain w where w: "Acceptor_handleRead env (Some (newConnection env (baseIx (srv s)))) peer0 (srv s) = Some w"
    and J: "joins (loops (threadPool (srv s)) ! nextIx (threadPool (srv s))) fd (srv s) w"
    using accept_joins [OF servingD(1) [OF V] acc', of peer0] by blast
  have "handle_active env 0 peer0 0 ChAcceptor (srv s) = Some w"
    using w rv by (simp add: acceptor_event_eq channel_masks)
  from s_handle [OF i h n this [unfolded env_def]]
  have st: "srv_step (echo_app o1 k d ptr) peer0 s (s\<lparr>srv := w, active := (active s)(0 := cs)\<rparr>)" (is "srv_step _ _ _ ?s1") .
  have r1: "reach (from_main (echo_app o1 k d ptr) R) (srv_step (echo_app o1 k d ptr) peer0) ?s1"
    by (rule reach.reach_step [OF r st])
  have S1: "sys_ok (listens_on la) R ?s1" by (rule echo.step_sys_ok [OF st m S])
  have "room ?s1" by (rule room_pop [OF rm S S1 _ i h(2)]) (simp_all add: joinsD(14) [OF J])
  then obtain u where u: "(calm (echo_app o1 k d ptr) peer0)\<^sup>*\<^sup>* ?s1 (idle_sys u)"
    using returns_to_poll [OF m np r1] by blast
  obtain w' where w': "settled w'" "(calm (echo_app o1 k d ptr) peer0)\<^sup>*\<^sup>* (idle_sys u) (idle_sys w')"
    using echo_settles [OF m echo.calm_runs_ok [OF u m S1], of peer0] by blast
  have run: "(calm (echo_app o1 k d ptr) peer0)\<^sup>*\<^sup>* ?s1 (idle_sys w')" by (rule rtranclp_trans [OF u w'(2)])
  have "unhandled c ?s1" unfolding c_def by (rule accepted_unhandled [OF m r J]) (auto simp: h(2))
  from calm_runs_admitted [OF run m S1 echo_reach_echo [OF m r1] this]
  have ad: "admitted c w w'" by simp
  have "view w c = Opening"
    by (simp add: joins_view [OF V conjunct2 [OF machine_okD(3) [OF m acc' [unfolded env_def]]] J] c_def)
  moreover have "view w' c \<noteq> Opening"
    using w'(1) ad by (auto simp: view_def settled_def admitted_def Let_def)
  ultimately have "view w' c = Open []" "sockFd (conns w' c) = fd"
    using ad joinsD(6) [OF J] by (auto simp: admitted_def c_def)
  moreover have "calm (echo_app o1 k d ptr) peer0 s ?s1" by (rule calmI [OF st]) (auto simp: h(2))
  then have "(calm (echo_app o1 k d ptr) peer0)\<^sup>*\<^sup>* s (idle_sys w')"
    by (rule converse_rtranclp_into_rtranclp) (rule run)
  ultimately show ?thesis using w'(1) by blast
qed

end
