(* ===== verification/ServerReleases.thy ===== *)
theory ServerReleases
  imports ServerAdmits
begin

text \<open>
  A client that goes is released: an event that ends its connection (a hang-up, an error, or a
  read that returns nothing more) closes it, a closed connection stays closed, and the threads'
  own steps destroy its object and close its descriptor.
\<close>

subsection \<open>An event that ends a connection\<close>

definition hangs_up :: "'w env \<Rightarrow> nat \<Rightarrow> 'a world_scheme \<Rightarrow> bool" where
  "hangs_up env cid w \<longleftrightarrow>
     (let rv = revents (chan_of cid w)
      in rv AND EPOLLHUP \<noteq> 0 \<and> rv AND ReadEvent = 0 \<or> rv AND EPOLLERR \<noteq> 0 \<or>
         rv AND ReadEvent \<noteq> 0 \<and> (case read_result env cid w of Inl e \<Rightarrow> True | Inr bs \<Rightarrow> bs = []))"

lemma close_closes:
  assumes "conn_ok env cid w" "env = server_env (echo_app o1 k d ptr)" "handleClose env cid w = Some w'"
  shows "closed cid w'"
  by (rule echo_closed [OF assms(2,1,3)]) (simp add: closed_for_def closed_def)

lemma error_closes:
  assumes "conn_ok env cid w" "env = server_env (echo_app o1 k d ptr)" "handleError env cid w = Some w'"
  shows "closed cid w'"
proof -
  define x where "x = CSoError (sockFd (conns w cid)) (os_soerror (os1 env) (calls w) (sockFd (conns w cid)))"
  have "handleClose env cid (log_call x w) = Some w'" using assms(3) by (simp add: handleError_def Let_def x_def)
  from close_closes [OF _ assms(2) this] assms(1) show ?thesis by simp
qed

text \<open>The first callback of such an event closes the connection.\<close>

lemma hang_up_first:
  assumes "hangs_up env cid w"
  obtains kd ks where "dispatch (revents (chan_of cid w)) = kd # ks"
    "kd = CbClose \<or> kd = CbError \<or> kd = CbRead \<and> (case read_result env cid w of Inl e \<Rightarrow> True | Inr bs \<Rightarrow> bs = [])"
proof (cases "revents (chan_of cid w) AND EPOLLHUP \<noteq> 0 \<and> revents (chan_of cid w) AND ReadEvent = 0")
  case True
  then show ?thesis using that by (simp add: dispatch_def)
next
  case F: False
  show ?thesis
  proof (cases "revents (chan_of cid w) AND EPOLLERR \<noteq> 0")
    case True
    then show ?thesis using that F by (auto simp: dispatch_def)
  next
    case False
    then show ?thesis using that F assms by (auto simp: dispatch_def hangs_up_def Let_def)
  qed
qed

lemma callback_closes:
  assumes env: "env = server_env (echo_app o1 k d ptr)" and ok: "conn_ok env cid w" and os: "os_ok o1"
    and kd: "kd = CbClose \<or> kd = CbError \<or> kd = CbRead \<and> (case read_result env cid w of Inl e \<Rightarrow> True | Inr bs \<Rightarrow> bs = [])"
    and r: "run_cb (conn_callbacks env me cid) t kd w = Some w'"
  shows "closed cid w'"
proof (cases kd)
  case CbClose
  then have "handleClose env cid w = Some w'" using r by (simp add: conn_callbacks_def call_def)
  from close_closes [OF ok env this] show ?thesis .
next
  case CbError
  then have "handleError env cid w = Some w'" using r by (simp add: conn_callbacks_def call_def)
  from error_closes [OF ok env this] show ?thesis .
next
  case CbRead
  then have "conn_handleRead env cid t w = Some w'" using r by (simp add: conn_callbacks_def call_def)
  then have "handleClose env cid (after_read env cid w) = Some w' \<or> handleError env cid (after_read env cid w) = Some w'"
    using conn_handleRead_eq [OF ok, of t] os kd CbRead by (auto simp: env split: sum.splits)
  moreover have "conn_ok env cid (after_read env cid w)" using after_read_ok [OF ok] os by (simp add: env)
  ultimately show ?thesis using close_closes [OF _ env] error_closes [OF _ env] by blast
qed (use kd in simp)

lemma hang_up_closes:
  assumes m: "machine_ok (echo_app o1 k d ptr) R" and np: "no_sigpipe o1" and S: "serving a R K H b act w"
    and c: "alive w cid" "enlisted cid w" and h: "hangs_up (echo_app o1 k d ptr) cid w"
  shows "\<exists>w'. conn_event (server_env (echo_app o1 k d ptr)) me cid True t w = Some w' \<and> closed cid w' \<and> within cid w w'"
proof -
  define env where "env = server_env (echo_app o1 k d ptr)"
  have "hangs_up env cid w" using h by (simp add: hangs_up_def env_def)
  then obtain kd ks where kd: "dispatch (revents (chan_of cid w)) = kd # ks"
    "kd = CbClose \<or> kd = CbError \<or> kd = CbRead \<and> (case read_result env cid w of Inl e \<Rightarrow> True | Inr bs \<Rightarrow> bs = [])"
    by (rule hang_up_first)
  obtain u where u: "run_cb (conn_callbacks env me cid) t kd w = Some u" "goes a R K H b act cid w u"
    using yields_total [OF echo.callback_goes [OF m S c, of me t kd]] np unfolding env_def by auto
  have "conn_ok env cid w" using serving_conn_ok [OF m S c(1)] by (simp add: env_def)
  then have cl: "closed cid u" using callback_closes [OF env_def _ _ kd(2) u(1)] machine_okD(2) [OF m] by simp
  have "\<exists>w'. fold_opt (run_cb (conn_callbacks env me cid) t) ks u = Some w' \<and> goes a R K H b act cid u w' \<and> closed cid w'"
    unfolding env_def
    by (rule yields_total [OF echo.callbacks_go [where J = "closed cid", OF m goesD(1-3) [OF u(2)] cl]])
      (use np in \<open>auto simp: goes_def closed_def\<close>)
  then show ?thesis
    using u kd(1) within_trans goesD(4)
    by (fastforce simp: conn_event_def handleEvent_def handleEventWithGuard_dispatch env_def)
qed


subsection \<open>A closed connection stays closed\<close>

lemma active_closed:
  assumes m: "machine_ok (echo_app o1 k d ptr) R" and S: "serving a R K H b act w" and i: "i \<in> all_loops w"
    and x: "hasChannel x (pol w i)" and r: "handle_active (echo_app o1 k d ptr) i peer0 t x w = Some w'"
    and c: "closed c w" "c < nextObj w"
  shows "closed c w' \<and> c < nextObj w'"
proof (cases x)
  case (ChConn cid)
  have l: "alive w cid" "loopIx (conns w cid) = i"
    using serving_key [OF S i] x ChConn by (auto simp: hasChannel_def)
  then have "enlisted cid w" using serving_enlisted [OF S l(1)] x ChConn l(2) by simp
  from event_goes [OF m S l(1) this] have "goes a R K H b act cid w w'" using r ChConn l(1) by simp
  then show ?thesis using c by (cases "c = cid") (auto simp: goes_def within_def closed_def)
next
  case ChAcceptor
  have "handle_active (echo_app o1 k d ptr) i peer0 t ChAcceptor w = Some w'" using r ChAcceptor by simp
  then show ?thesis
    by (rule acceptor_cases [OF _ servingD(1) [OF S]])
      (use c in \<open>auto simp: log_call_def closed_def joinsD(2) joinsD(14)\<close>)
next
  case (ChWakeup j)
  have "\<exists>v. handleEvent (wakeup_callbacks j) (chan (pol w i) x) True t w = Some v \<and> closed c v \<and> c < nextObj v"
  proof (rule handleEvent_total [where I = "\<lambda>v. closed c v \<and> c < nextObj v"])
    fix kd and u :: server
    assume "closed c u \<and> c < nextObj u"
    then show "\<exists>v. run_cb (wakeup_callbacks j) t kd u = Some v \<and> closed c v \<and> c < nextObj v"
      by (cases kd) (auto simp: wakeup_callbacks_def call_def closed_def)
  qed (use c in simp)
  then show ?thesis using r ChWakeup by auto
qed

lemma drop_refs_conns: "conns (srv (fold drop_ref fs s)) = conns (srv s)"
proof (induction fs arbitrary: s)
  case (Cons f fs)
  have "conns (srv (drop_ref f s)) = conns (srv s)" by (simp add: drop_ref_def dtor_sel split: option.split)
  then show ?case using Cons.IH [of "drop_ref f s"] by simp
qed simp

lemma step_closed:
  assumes st: "srv_step (echo_app o1 k d ptr) peer0 s t" and m: "machine_ok (echo_app o1 k d ptr) R"
    and S: "sys_ok a R s" and c: "closed c (srv s)" "c < nextObj (srv s)"
  shows "closed c (srv t) \<and> c < nextObj (srv t)"
  using st
proof cases
  case (s_handle i x cs u w)
  note V = sys_okD(1) [OF S]
  have "hasChannel x (pol (srv s) i)" using servingD(7) [OF V s_handle(2)] s_handle(4) by simp
  from active_closed [OF m V s_handle(2) this s_handle(6) c] show ?thesis by (simp add: s_handle(1))
next
  case (s_run i f fs w)
  have "f \<in> set (due (batch s) i (srv s))" using s_run(4) by (simp add: due_def)
  from task_conns [OF m sys_okD(1) [OF S] s_run(2) this s_run(5)] c
  show ?thesis by (auto simp: s_run(1) closed_def)
qed (use c in \<open>simp_all add: closed_def begin_functors_def end_functors_def drop_refs_conns drop_refs_objects\<close>)

lemma steps_closed:
  assumes "(srv_step (echo_app o1 k d ptr) peer0)\<^sup>*\<^sup>* s t" and m: "machine_ok (echo_app o1 k d ptr) R"
    and "sys_ok a R s" and "closed c (srv s)" "c < nextObj (srv s)"
  shows "closed c (srv t) \<and> c < nextObj (srv t)"
proof -
  have "sys_ok a R t \<and> closed c (srv t) \<and> c < nextObj (srv t)"
    using assms(1)
  proof induction
    case (step u v)
    then show ?case using echo.step_sys_ok [OF step(2) m] step_closed [OF step(2) m] by blast
  qed (use assms(3-5) in simp)
  then show ?thesis by simp
qed

lemma settled_gone:
  assumes "settled w" "closed c w" "c < nextObj w"
  shows "view w c = Gone"
  using assms by (auto simp: settled_def closed_def view_def)


subsection \<open>A client that goes\<close>

lemma client_released:
  assumes m: "machine_ok (echo_app o1 k d ptr) R" and np: "no_sigpipe o1"
    and r: "reach (from_main (echo_app o1 k d ptr) R) (srv_step (echo_app o1 k d ptr) peer0) s" and rm: "room s"
    and i: "i \<in> {0, 1, 2, 3}" and h: "phase s i = Handling" "active s i = ChConn cid # cs"
    and hu: "hangs_up (echo_app o1 k d ptr) cid (srv s)"
  shows "\<exists>w. (calm (echo_app o1 k d ptr) peer0)\<^sup>*\<^sup>* s (idle_sys w) \<and> settled w \<and> view w cid = Gone \<and> descriptors_ok w"
proof -
  obtain la where S: "sys_ok (listens_on la) R s" using echo_reach_ok [OF m r] by blast
  note V = sys_okD(1) [OF S]
  have i': "i \<in> all_loops (srv s)" using i echo_reach_serving(2) [OF m r] by simp
  have x: "hasChannel (ChConn cid) (pol (srv s) i)" using servingD(7) [OF V i'] h(2) by simp
  have al: "alive (srv s) cid" and lp: "loopIx (conns (srv s) cid) = i"
    using serving_key [OF V i'] x by (auto simp: hasChannel_def)
  have "enlisted cid (srv s)" using serving_enlisted [OF V al] x lp by simp
  from hang_up_closes [OF m np V al this hu]
  obtain w where w: "handle_active (echo_app o1 k d ptr) i peer0 0 (ChConn cid) (srv s) = Some w" "closed cid w"
    "within cid (srv s) w"
    using al by auto
  have n: "nextConnId (srv s) < 2 ^ 31 - 1" by (rule room_left [OF rm i' h(2)])
  from s_handle [OF i' h n w(1)]
  have st: "srv_step (echo_app o1 k d ptr) peer0 s (s\<lparr>srv := w, active := (active s)(i := cs)\<rparr>)" (is "srv_step _ _ _ ?s1") .
  have r1: "reach (from_main (echo_app o1 k d ptr) R) (srv_step (echo_app o1 k d ptr) peer0) ?s1"
    by (rule reach.reach_step [OF r st])
  have S1: "sys_ok (listens_on la) R ?s1" by (rule echo.step_sys_ok [OF st m S])
  have "room ?s1" by (rule room_pop [OF rm S S1 _ i' h(2)]) (use w(3) in \<open>simp_all add: within_def\<close>)
  then obtain u where u: "(calm (echo_app o1 k d ptr) peer0)\<^sup>*\<^sup>* ?s1 (idle_sys u)"
    using returns_to_poll [OF m np r1] by blast
  obtain w' where w': "settled w'" "(calm (echo_app o1 k d ptr) peer0)\<^sup>*\<^sup>* (idle_sys u) (idle_sys w')"
    using echo_settles [OF m echo.calm_runs_ok [OF u m S1], of peer0] by blast
  have run': "(calm (echo_app o1 k d ptr) peer0)\<^sup>*\<^sup>* ?s1 (idle_sys w')" by (rule rtranclp_trans [OF u w'(2)])
  note run = calm_runs [OF run']
  have "cid < nextObj (srv s)" by (rule serving_new_object(2) [OF V al])
  then have "closed cid (srv ?s1)" "cid < nextObj (srv ?s1)" using w(2,3) by (simp_all add: within_def)
  from steps_closed [OF run m S1 this] have "view w' cid = Gone" using settled_gone [OF w'(1)] by simp
  moreover have "descriptors_ok w'"
    using servingD(3) [OF sys_okD(1) [OF echo.step_runs_ok [OF run m S1]]] by simp
  moreover have "calm (echo_app o1 k d ptr) peer0 s ?s1" by (rule calmI [OF st]) (auto simp: h(2))
  then have "(calm (echo_app o1 k d ptr) peer0)\<^sup>*\<^sup>* s (idle_sys w')"
    by (rule converse_rtranclp_into_rtranclp) (rule run')
  ultimately show ?thesis using w'(1) by blast
qed

end
