(* ===== verification/BusyServer.thy ===== *)
theory BusyServer
  imports ReachableServer
begin

text \<open>
  A machine on which a client connects and says \<open>hi\<close>: reachable states of the running server,
  one for each stage of the client's connection, for the properties to be seen at work.
\<close>

subsection \<open>A machine on which a client connects\<close>

definition busy_os :: "errno + bytes \<Rightarrow> errno + nat \<Rightarrow> os" where
  "busy_os inp ans = (demo_os inp ans)\<lparr>os_accept :=
     \<lambda>tr l. if 9 \<in> accepted tr then Inl EAGAIN else Inr (9, zero_addr)\<rparr>"

definition busy_app :: "errno + bytes \<Rightarrow> errno + nat \<Rightarrow> senv" where
  "busy_app inp ans = echo_app (busy_os inp ans) (\<lambda>_. epoll_ref) (\<lambda>_ _ _. None) 0"

definition busy_fds :: "fd set" where
  "busy_fds = {3, 4, 5, 6, 7}"

lemma busy_machine: "machine_ok (busy_app inp ans) busy_fds"
  by (auto simp: machine_ok_def busy_app_def busy_os_def os_ok_def busy_fds_def demo_os_def
      map_sum_def split: if_splits sum.splits)

lemma busy_no_sigpipe: "no_sigpipe (busy_os inp (Inr k))"
  by (simp add: no_sigpipe_def busy_os_def)

lemma busy_boot:
  "boot_ok (busy_app inp ans) (\<lambda>i. Inr (4 + int i)) (\<lambda>_ _. Channel (-1)) (\<lambda>_. Some (127, 0, 0, 1))
     (\<lambda>i. 4 + int i) 3 base_server"
  by (simp add: boot_ok_def busy_app_def busy_os_def demo_os_def Channel_def New_def)
    (simp add: base_server_def base_world_def world.defs)

lemma busy_start:
  "\<exists>w. from_main (busy_app inp ans) busy_fds (idle_sys w) \<and> baseIx w = 0 \<and> loops (threadPool w) = [1, 2, 3] \<and>
     nextConnId w = 1 \<and> interest (ctlTrace (pol w 0)) 3 = Some (ReadEvent, ChAcceptor)"
proof -
  have R: "insert 3 ((\<lambda>i :: nat. 4 + int i) ` {0..3}) \<subseteq> busy_fds" by (auto simp: busy_fds_def)
  obtain w where w: "main_start (busy_app inp ans) (\<lambda>i. Inr (4 + int i)) (\<lambda>_ _. Channel (-1)) 0
      (\<lambda>_. Some (127, 0, 0, 1)) base_server = Some w"
    "baseIx w = 0" "loops (threadPool w) = [1, 2, 3]" "nextConnId w = 1"
    "interest (ctlTrace (pol w 0)) = [4 + int 0 \<mapsto> (ReadEvent, ChWakeup 0), 3 \<mapsto> (ReadEvent, ChAcceptor)]"
    using main_start_state [OF busy_boot R] by blast
  then show ?thesis using from_mainI [OF busy_boot R w(1)] by (intro exI [of _ w]) simp
qed

text \<open>The base loop polls and accepts.\<close>

definition busy_reach :: "errno + bytes \<Rightarrow> errno + nat \<Rightarrow> sys \<Rightarrow> bool" where
  "busy_reach inp ans = reach (from_main (busy_app inp ans) busy_fds) (srv_step (busy_app inp ans) zero_addr)"

lemma busy_reachI:
  "busy_reach inp ans s \<Longrightarrow> srv_step (busy_app inp ans) zero_addr s t \<Longrightarrow> busy_reach inp ans t"
  unfolding busy_reach_def by (rule reach.reach_step)

lemma busy_serving:
  assumes "busy_reach inp ans s"
  shows "\<exists>la. serving (listens_on la) busy_fds (still s) (called s) (batch s) (active s) (srv s)"
    "all_loops (srv s) = {0, 1, 2, 3}"
  using echo_reach_serving [OF busy_machine [unfolded busy_app_def]] assms
  unfolding busy_reach_def busy_app_def by blast+

lemma busy_polled:
  "\<exists>s. busy_reach inp ans s \<and> phase s = (\<lambda>_. Waiting)(0 := Handling) \<and> active s 0 = [ChAcceptor] \<and>
     nextConnId (srv s) = 1 \<and> baseIx (srv s) = 0 \<and> loops (threadPool (srv s)) = [1, 2, 3] \<and>
     revents (chan (pol (srv s) 0) ChAcceptor) = EPOLLIN \<and>
     s = idle_but 0 Handling [ChAcceptor] [] [] (srv s)"
proof -
  obtain w where w: "from_main (busy_app inp ans) busy_fds (idle_sys w)" "baseIx w = 0"
    "loops (threadPool w) = [1, 2, 3]" "nextConnId w = 1"
    "interest (ctlTrace (pol w 0)) 3 = Some (ReadEvent, ChAcceptor)"
    using busy_start by blast
  define r where "r = (Inr [(EPOLLIN, ChAcceptor)] :: errno + (evmask \<times> chan_id) list)"
  obtain p where p: "poll r [] (pol w 0) = ([ChAcceptor], p)" "revents (chan p ChAcceptor) = EPOLLIN"
    by (cases "eventListSize (pol w 0) = 1") (simp_all add: r_def poll_def Let_def save_revents_def)
  have e: "events_ok r (pol w 0)" using w(5) by (auto simp: events_ok_def r_def)
  have r0: "busy_reach inp ans (idle_sys w)" unfolding busy_reach_def by (rule reach.reach_init, rule w(1))
  have i: "0 \<in> all_loops (srv (idle_sys w))" by (simp add: all_loops_def w(2))
  from busy_reachI [OF r0 s_poll [OF i, of r "[ChAcceptor]" p]] show ?thesis
    using e p w(2-4) by (intro exI conjI) (assumption | simp add: idle_sys_def idle_but_def fun_eq_iff)+
qed

lemma busy_connects:
  "\<exists>s i. busy_reach inp ans s \<and> i \<in> {1, 2, 3} \<and> phase s i = Waiting \<and> alive (srv s) 0 \<and>
     connState (conns (srv s) 0) = KConnecting \<and> sockFd (conns (srv s) 0) = 9 \<and>
     smooth 9 (calls (srv s)) \<and> received 9 (calls (srv s)) = [] \<and> nextConnId (srv s) = 2 \<and>
     pendingFunctors (evl (srv s) i) = [FConnectEstablished 0] \<and>
     pendingFunctors (evl (srv s) 0) = [] \<and>
     outputBuffer (conns (srv s) 0) = new_Buffer InitialSize \<and> s = idle_but 0 Handling [] [] [] (srv s)"
proof -
  obtain s where s: "busy_reach inp ans s" "phase s = (\<lambda>_. Waiting)(0 := Handling)" "active s 0 = [ChAcceptor]"
    "nextConnId (srv s) = 1" "baseIx (srv s) = 0" "loops (threadPool (srv s)) = [1, 2, 3]"
    "revents (chan (pol (srv s) 0) ChAcceptor) = EPOLLIN" "s = idle_but 0 Handling [ChAcceptor] [] [] (srv s)"
    using busy_polled by blast
  obtain la where S: "serving (listens_on la) busy_fds (still s) (called s) (batch s) (active s) (srv s)"
    using busy_serving(1) [OF s(1)] by blast
  note F = serving_fresh [OF S s(4)]
  define i where "i = loops (threadPool (srv s)) ! nextIx (threadPool (srv s))"
  obtain w' where w': "newConnection (busy_app inp ans) 0 9 zero_addr
      (log_call (CAccept (acceptFd (srv s)) (Inr (9, zero_addr))) (srv s)) = Some w'"
    and J: "joins i 9 (srv s) w'"
    using newConnection_joins [OF servingD(1) [OF S], of "busy_app inp ans" 9 zero_addr "acceptFd (srv s)"] s(5)
    by (auto simp: i_def)
  note N = joinsD(3,4,6,10,12,13,8) [OF J, unfolded F(2) s(4)]
  have i: "i \<in> {1, 2, 3}" using joinsD(1) [OF J] s(6) by auto
  then have "i \<in> all_loops (srv s)" using busy_serving(2) [OF s(1)] by auto
  from F(4) [OF this] have q: "pendingFunctors (evl w' i) = [FConnectEstablished 0]" by (simp add: N(4))
  have "handle_active (busy_app inp ans) 0 zero_addr 0 ChAcceptor (srv s) = Some w'"
    using s(5,7) w' F(3) by (simp add: handleEvent_def handleEventWithGuard_def acceptor_callbacks_def
        call_def channel_masks Acceptor_handleRead_def Socket_accept_def Let_def busy_app_def busy_os_def)
  from busy_reachI [OF s(1) s_handle [OF _ _ s(3) _ this]]
  have "busy_reach inp ans (s\<lparr>srv := w', active := (active s)(0 := [])\<rparr>)"
    using s(2,4) busy_serving(2) [OF s(1)] by simp
  moreover have "phase (idle_but 0 Handling [] [] [] w') i = Waiting" using i by (auto simp: idle_but_def)
  moreover have "smooth 9 (calls w')" "received 9 (calls w') = []"
  proof -
    obtain l p r where "calls w' =
        (calls (srv s) @ [CAccept l (Inr (9, p))]) @ [CGetsockname 9 r, CSetopt 9 SO_KEEPALIVE True]"
      using joins_calls [OF J] by auto
    then have "since 9 (calls w') = [CGetsockname 9 r, CSetopt 9 SO_KEEPALIVE True]"
      using since_inner [of "[CGetsockname 9 r, CSetopt 9 SO_KEEPALIVE True]" 9 "calls (srv s) @ [CAccept l (Inr (9, p))]"]
      by simp
    then show "smooth 9 (calls w')" "received 9 (calls w') = []" by (simp_all add: smooth_def received_def)
  qed
  moreover have "s\<lparr>srv := w', active := (active s)(0 := [])\<rparr> = idle_but 0 Handling [] [] [] w'"
  proof -
    obtain x where x: "s = idle_but 0 Handling [ChAcceptor] [] [] x" using s(8) by blast
    show ?thesis unfolding x by (simp add: idle_but_def idle_sys_def)
  qed
  moreover have "pendingFunctors (evl w' 0) = []"
    using i F(4) [of 0] busy_serving(2) [OF s(1)] by (auto simp: N(4))
  ultimately show ?thesis using N i q
    by (intro exI [of _ "idle_but 0 Handling [] [] [] w'"] exI [of _ i]) simp
qed

text \<open>Its loop polls and takes the task out of its queue.\<close>

lemma busy_takes:
  "\<exists>s i. busy_reach inp ans s \<and> i \<in> {1, 2, 3} \<and> phase s i = Running \<and> batch s i = [FConnectEstablished 0] \<and>
     finished s i = [] \<and> alive (srv s) 0 \<and> connState (conns (srv s) 0) = KConnecting \<and>
     sockFd (conns (srv s) 0) = 9 \<and> smooth 9 (calls (srv s)) \<and> received 9 (calls (srv s)) = [] \<and> nextConnId (srv s) = 2 \<and>
     active s = (\<lambda>_. []) \<and>
     pendingFunctors (evl (srv s) i) = [] \<and> outputBuffer (conns (srv s) 0) = new_Buffer InitialSize"
proof -
  obtain s i where s: "busy_reach inp ans s" "i \<in> {1, 2, 3}" "phase s i = Waiting" "alive (srv s) 0"
    "connState (conns (srv s) 0) = KConnecting" "sockFd (conns (srv s) 0) = 9"
    "pendingFunctors (evl (srv s) i) = [FConnectEstablished 0]"
    "smooth 9 (calls (srv s))" "received 9 (calls (srv s)) = []" "nextConnId (srv s) = 2"
    "s = idle_but 0 Handling [] [] [] (srv s)"
    "outputBuffer (conns (srv s) 0) = new_Buffer InitialSize"
    using busy_connects by metis
  have ac: "active s = (\<lambda>_. [])" by (subst s(11)) (simp add: idle_but_def fun_eq_iff)
  have i: "i \<in> all_loops (srv s)" using s(2) busy_serving(2) [OF s(1)] by auto
  have "poll (Inr []) [] (pol (srv s) i) = ([], pol (srv s) i)" by (simp add: poll_def)
  moreover have "events_ok (Inr []) (pol (srv s) i)" by (simp add: events_ok_def)
  moreover define t where "t = s\<lparr>srv := (srv s)\<lparr>pol := (pol (srv s))(i := pol (srv s) i)\<rparr>,
      phase := (phase s)(i := Handling), active := (active s)(i := [])\<rparr>"
  ultimately have t: "busy_reach inp ans t" using busy_reachI [OF s(1) s_poll [OF i s(3)]] by blast
  have it: "i \<in> all_loops (srv t)" "phase t i = Handling" "active t i = []"
    using i by (simp_all add: t_def all_loops_def)
  define u where "u = t\<lparr>srv := begin_functors i (srv t), phase := (phase t)(i := Running),
      batch := (batch t)(i := pendingFunctors (evl (srv t) i)), finished := (finished t)(i := [])\<rparr>"
  have "busy_reach inp ans u" unfolding u_def by (rule busy_reachI [OF t s_swap [OF it]])
  moreover have "phase u i = Running" "batch u i = [FConnectEstablished 0]" "finished u i = []"
    "alive (srv u) 0" "conns (srv u) = conns (srv s)" "calls (srv u) = calls (srv s)"
    "nextConnId (srv u) = nextConnId (srv s)" "active u = (\<lambda>_. [])" "pendingFunctors (evl (srv u) i) = []"
    using s(4,7) ac by (simp_all add: u_def t_def begin_functors_def fun_eq_iff)
  ultimately show ?thesis using s(2,5,6,8-10,12) by metis
qed

text \<open>It runs the task and goes back to \<open>epoll_wait\<close>.\<close>

lemma busy_establishes:
  "\<exists>s i. busy_reach inp ans s \<and> i \<in> {1, 2, 3} \<and> phase s i = Waiting \<and> alive (srv s) 0 \<and>
     connState (conns (srv s) 0) = KConnected \<and> loopIx (conns (srv s) 0) = i \<and>
     sockFd (conns (srv s) 0) = 9 \<and> smooth 9 (calls (srv s)) \<and> received 9 (calls (srv s)) = [] \<and> nextConnId (srv s) = 2 \<and>
     active s = (\<lambda>_. []) \<and>
     pendingFunctors (evl (srv s) i) = [] \<and> outputBuffer (conns (srv s) 0) = new_Buffer InitialSize"
proof -
  obtain s i where s: "busy_reach inp ans s" "i \<in> {1, 2, 3}" "phase s i = Running"
    "batch s i = [FConnectEstablished 0]" "finished s i = []" "alive (srv s) 0"
    "connState (conns (srv s) 0) = KConnecting" "sockFd (conns (srv s) 0) = 9"
    "smooth 9 (calls (srv s))" "received 9 (calls (srv s)) = []" "nextConnId (srv s) = 2" "active s = (\<lambda>_. [])"
    "pendingFunctors (evl (srv s) i) = []" "outputBuffer (conns (srv s) 0) = new_Buffer InitialSize"
    using busy_takes by blast
  obtain la where S: "serving (listens_on la) busy_fds (still s) (called s) (batch s) (active s) (srv s)"
    using busy_serving(1) [OF s(1)] by blast
  have i: "i \<in> all_loops (srv s)" using s(2) busy_serving(2) [OF s(1)] by auto
  have lp: "loopIx (conns (srv s) 0) = i"
    using servingT [OF S i, of "FConnectEstablished 0"] s(4) by (simp add: due_def task_fine_def)
  have "conn_ok (server_env (busy_app inp ans)) 0 (srv s)" using serving_conn_ok [OF busy_machine S s(6)] by simp
  then obtain w where w: "connectEstablished (server_env (busy_app inp ans)) 0 (srv s) =
      invoke (onConnection (server_env (busy_app inp ans))) 0 w" "calls w = calls (srv s)" "evl w = evl (srv s)"
    "world.more w = world.more (srv s)"
    "conns w = (conns (srv s))(0 := (conns (srv s) 0)\<lparr>connState := KConnected\<rparr>)"
    using connectEstablished_ok by blast
  have "run_task (busy_app inp ans) i (FConnectEstablished 0) (srv s) = Some w"
    using w(1) s(6) by (simp add: run_task_def task_live_def busy_app_def invoke_def echo_onConnection_def)
  note r = s_run [OF i s(3,4) this]
  define t where "t = s\<lparr>srv := w, batch := (batch s)(i := []),
      finished := (finished s)(i := finished s i @ [FConnectEstablished 0])\<rparr>"
  have t: "busy_reach inp ans t" unfolding t_def by (rule busy_reachI [OF s(1) r])
  have ti: "i \<in> all_loops (srv t)" "phase t i = Running" "batch t i = []" "finished t i = [FConnectEstablished 0]"
    using s(2,3,5) busy_serving(2) [OF t] by (auto simp: t_def)
  define v where "v = t\<lparr>srv := end_functors i (srv t), phase := (phase t)(i := Waiting),
      finished := (finished t)(i := [])\<rparr>"
  have "mapped 0 (srv s)" using servingD(8) [OF S s(6)] s(7) by (simp add: member_ok_def stage_ok_def)
  then have "mapped 0 (srv v)"
    using same_server(1) [OF w(4)] w(5) by (simp add: v_def t_def end_functors_def mapped_def)
  then have "fold drop_ref (finished t i) v = v" by (simp add: ti(4) drop_ref_def held_iff)
  then have "busy_reach inp ans v" using busy_reachI [OF t s_finish [OF ti(1-3)]] by (simp add: v_def)
  moreover have "alive (srv v) 0" "conns (srv v) = conns w" "calls (srv v) = calls (srv s)" "phase v i = Waiting"
    "nextConnId (srv v) = 2" "active v = (\<lambda>_. [])" "pendingFunctors (evl (srv v) i) = []"
    using same_server(2,7) [OF w(4)] s(6,11-13) w(2,3) by (simp_all add: v_def t_def end_functors_def)
  ultimately show ?thesis using s(2,8-10,14) lp w(5) by (intro exI [of _ v] exI [of _ i]) simp
qed

text \<open>The kernel reports an event of the connection.\<close>

lemma busy_polls:
  assumes s: "busy_reach inp ans s" "i \<in> {1, 2, 3}" "phase s i = Waiting" "alive (srv s) 0"
    "connState (conns (srv s) 0) = KConnected" "loopIx (conns (srv s) 0) = i" "sockFd (conns (srv s) 0) = 9"
  obtains q where "busy_reach inp ans (s\<lparr>srv := (srv s)\<lparr>pol := (pol (srv s))(i := q)\<rparr>,
      phase := (phase s)(i := Handling), active := (active s)(i := [ChConn 0])\<rparr>)"
    "conn_ok (server_env (busy_app inp ans)) 0 ((srv s)\<lparr>pol := (pol (srv s))(i := q)\<rparr>)"
    "chan_of 0 ((srv s)\<lparr>pol := (pol (srv s))(i := q)\<rparr>) = save_revents rv (chan_of 0 (srv s))"
proof -
  obtain la where S: "serving (listens_on la) busy_fds (still s) (called s) (batch s) (active s) (srv s)"
    using busy_serving(1) [OF s(1)] by blast
  have i: "i \<in> all_loops (srv s)" using s(2) busy_serving(2) [OF s(1)] by auto
  have "conn_ok (server_env (busy_app inp ans)) 0 (srv s)" using serving_conn_ok [OF busy_machine S s(4)] by simp
  then obtain q where q: "poll (Inr [(rv, ChConn 0)]) [] (pol (srv s) i) = ([ChConn 0], q)"
    "conn_ok (server_env (busy_app inp ans)) 0 ((srv s)\<lparr>pol := (pol (srv s))(i := q)\<rparr>)"
    "chan_of 0 ((srv s)\<lparr>pol := (pol (srv s))(i := q)\<rparr>) = save_revents rv (chan_of 0 (srv s))"
    using s(6) by (rule polled_event)
  have "life_ok s 0" by (rule serving_life [OF S s(4)])
  then obtain m where "interest (ctlTrace (pol (srv s) i)) 9 = Some (m, ChConn 0)"
    using s(5-7) by (auto simp: life_ok_def watched_def)
  then have e: "events_ok (Inr [(rv, ChConn 0)]) (pol (srv s) i)" by (auto simp: events_ok_def)
  from that [OF busy_reachI [OF s(1) s_poll [OF i s(3) e q(1)]] q(2,3)] show ?thesis .
qed

text \<open>It reports that there is something to read.\<close>

lemma busy_readable:
  "\<exists>s i. busy_reach inp ans s \<and> i \<in> {1, 2, 3} \<and> phase s i = Handling \<and> active s i = [ChConn 0] \<and>
     alive (srv s) 0 \<and> connState (conns (srv s) 0) = KConnected \<and> loopIx (conns (srv s) 0) = i \<and>
     revents (chan_of 0 (srv s)) = EPOLLIN \<and>
     sockFd (conns (srv s) 0) = 9 \<and> smooth 9 (calls (srv s)) \<and> received 9 (calls (srv s)) = [] \<and> nextConnId (srv s) = 2 \<and>
     active s = (\<lambda>_. [])(i := [ChConn 0]) \<and>
     pendingFunctors (evl (srv s) i) = [] \<and> outputBuffer (conns (srv s) 0) = new_Buffer InitialSize"
proof -
  obtain s i where s: "busy_reach inp ans s" "i \<in> {1, 2, 3}" "phase s i = Waiting" "alive (srv s) 0"
    "connState (conns (srv s) 0) = KConnected" "loopIx (conns (srv s) 0) = i"
    "sockFd (conns (srv s) 0) = 9" "smooth 9 (calls (srv s))" "received 9 (calls (srv s)) = []" "nextConnId (srv s) = 2"
    "active s = (\<lambda>_. [])"
    "pendingFunctors (evl (srv s) i) = []" "outputBuffer (conns (srv s) 0) = new_Buffer InitialSize"
    using busy_establishes by blast
  obtain q where q: "busy_reach inp ans (s\<lparr>srv := (srv s)\<lparr>pol := (pol (srv s))(i := q)\<rparr>,
      phase := (phase s)(i := Handling), active := (active s)(i := [ChConn 0])\<rparr>)"
    "conn_ok (server_env (busy_app inp ans)) 0 ((srv s)\<lparr>pol := (pol (srv s))(i := q)\<rparr>)"
    "chan_of 0 ((srv s)\<lparr>pol := (pol (srv s))(i := q)\<rparr>) = save_revents EPOLLIN (chan_of 0 (srv s))"
    by (rule busy_polls [OF s(1-7)])
  show ?thesis
    by (rule exI [of _ "s\<lparr>srv := (srv s)\<lparr>pol := (pol (srv s))(i := q)\<rparr>, phase := (phase s)(i := Handling),
      active := (active s)(i := [ChConn 0])\<rparr>"], rule exI [of _ i])
      (use q(1,3) s(2,4-13) in \<open>simp add: save_revents_def\<close>)
qed

text \<open>The client that says hi, to whom every \<open>write\<close> takes two bytes.\<close>

abbreviation hi_os :: os where
  "hi_os \<equiv> busy_os (Inr ''hi'') (Inr 2)"

abbreviation hi_app :: senv where
  "hi_app \<equiv> busy_app (Inr ''hi'') (Inr 2)"

abbreviation hi_reach :: "sys \<Rightarrow> bool" where
  "hi_reach \<equiv> busy_reach (Inr ''hi'') (Inr 2)"

text \<open>It is answered.\<close>

lemma busy_delivers:
  "read_result hi_app cid w = Inr ''hi''" "os_write hi_os tr c ''hi'' = Inr (length ''hi'')"
  by (simp_all add: read_result_def busy_app_def busy_os_def readFd_capacity_def extraSize_def)

lemma busy_answered:
  "\<exists>s. hi_reach s \<and> alive (srv s) 0 \<and> connState (conns (srv s) 0) = KConnected \<and>
     sockFd (conns (srv s) 0) = 9 \<and> smooth 9 (calls (srv s)) \<and> received 9 (calls (srv s)) = ''hi''"
proof -
  obtain s i where s: "hi_reach s" "i \<in> {1, 2, 3}" "phase s i = Handling" "active s i = [ChConn 0]"
    "connState (conns (srv s) 0) = KConnected" "revents (chan_of 0 (srv s)) = EPOLLIN"
    "sockFd (conns (srv s) 0) = 9" "smooth 9 (calls (srv s))" "received 9 (calls (srv s)) = []"
    "nextConnId (srv s) = 2"
    using busy_readable by blast
  obtain la where S: "serving (listens_on la) busy_fds (still s) (called s) (batch s) (active s) (srv s)"
    using busy_serving(1) [OF s(1)] by blast
  have i: "i \<in> all_loops (srv s)" using s(2) busy_serving(2) [OF s(1)] by auto
  have x: "hasChannel (ChConn 0) (pol (srv s) i)" using servingD(7) [OF S i] s(4) by simp
  have e: "all_echo (srv s)"
    using echo_reach_echo [OF busy_machine [unfolded busy_app_def] s(1) [unfolded busy_reach_def busy_app_def]] .
  have len: "''hi'' \<noteq> []" "length ''hi'' < InitialSize" by (simp_all add: InitialSize_def)
  have "\<exists>w. handle_active hi_app i zero_addr 5 (ChConn 0) (srv s) = Some w \<and>
      calls w = calls (srv s) @ [CRead 9 (Inr ''hi''), CWrite 9 ''hi'' (Inr (length ''hi''))] \<and>
      sent 9 (calls (srv s)) = received 9 (calls (srv s)) \<and>
      alive w 0 \<and> connState (conns w 0) = KConnected \<and> sockFd (conns w 0) = 9"
    using delivery_answered [OF busy_machine [unfolded busy_app_def] S i x e s(6,5), unfolded s(7),
        OF s(8) busy_delivers(1) [unfolded busy_app_def] len busy_delivers(2), of zero_addr 5]
    unfolding busy_app_def .
  then obtain w where w: "handle_active hi_app i zero_addr 5 (ChConn 0) (srv s) = Some w"
    "calls w = calls (srv s) @ [CRead 9 (Inr ''hi''), CWrite 9 ''hi'' (Inr 2)]"
    "alive w 0" "connState (conns w 0) = KConnected" "sockFd (conns w 0) = 9"
    by auto
  have "hi_reach (s\<lparr>srv := w, active := (active s)(i := [])\<rparr>)"
    by (rule busy_reachI [OF s(1) s_handle [OF i s(3,4) _ w(1)]]) (simp add: s(10))
  moreover have "smooth 9 (calls w)" "received 9 (calls w) = ''hi''"
    using s(8,9) by (simp_all add: w(2) own_history InitialSize_def)
  ultimately show ?thesis using w(3-5)
    by (intro exI [of _ "s\<lparr>srv := w, active := (active s)(i := [])\<rparr>"]) simp
qed

end
