(* ===== verification/CorruptedEcho.thy ===== *)
theory CorruptedEcho
  imports BusyServer
begin

text \<open>
  A client that is answered wrongly: on a machine whose \<open>write\<close> takes one byte at a time the server
  reaches a state in which the connection is established and a byte that the client never sent
  has been sent to it, in the place of one that it did send. This is the defect of \<open>Buffer::writeFd\<close>
  seen from outside; it shows that the hypothesis \<open>smooth\<close> of the echo cannot be dropped.

  And the delivery whose answer meets a connection that the client has closed: the handler
  does not return, since \<open>write\<close> raises SIGPIPE (\<open>delivery_kills\<close>).
\<close>

subsection \<open>A partial answer\<close>

text \<open>The event of a delivery whose answer the kernel takes in part: the rest is stored.\<close>

lemma echo_partly:
  assumes env: "env = server_env (echo_app o1 k d ptr)" and ok: "conn_ok env cid w" and os: "os_ok o1"
    and e: "echo_ok cid w" and up: "connected cid w"
  defines "fd \<equiv> sockFd (conns w cid)"
  assumes sm: "smooth fd (calls w)" and r: "read_result env cid w = Inr bs" "bs \<noteq> []" "length bs < InitialSize"
    and wr: "os_write o1 (calls w @ [CRead fd (Inr bs)]) fd bs = Inr n" "n < length bs"
  shows "\<exists>w'. conn_handleRead env cid t w = Some w' \<and> connected cid w' \<and> sockFd (conns w' cid) = fd \<and>
    world.more w' = world.more w \<and> evl w' = evl w \<and> loopIx (conns w' cid) = loopIx (conns w cid) \<and>
    calls w' = calls w @ [CRead fd (Inr bs), CWrite fd bs (Inr n)] \<and> isWriting (chan_of cid w') \<and>
    outputBuffer (conns w' cid) = append (drop n bs) (outputBuffer (conns w cid))"
proof (rule delivery_sends [OF env ok os e sm [unfolded fd_def] r, folded fd_def])
  let ?e0 = "no_callbacks o1 k d :: senv"
  fix v b
  assume okv: "conn_ok ?e0 cid v"
    and v: "calls v = calls w @ [CRead fd (Inr bs)]" "conns v cid = (conns w cid)\<lparr>inputBuffer := b\<rparr>"
      "world.more v = world.more w" "evl v = evl w" "direct cid v"
    and h: "conn_handleRead env cid t w = send ?e0 (loopIx (conns w cid)) cid ptr bs v"
  define u where "u = log_call (CWrite fd bs (Inr n)) v"
  have oku: "conn_ok ?e0 cid u" using okv by (simp add: u_def)
  obtain w' where w': "send_rest ?e0 (loopIx (conns w cid)) cid bs n (length bs - n) u = Some w'"
    "calls w' = calls u" "isWriting (chan_of cid w')" "world.more w' = world.more u"
    "conns w' = (conns u)(cid := (conns u cid)\<lparr>outputBuffer := append (drop n bs) (outputBuffer (conns u cid))\<rparr>)"
    "evl w' = evl u"
    using send_rest_ok [OF oku, of n "length bs - n" bs] wr(2) by (auto simp: high_water_def)
  have "send ?e0 (loopIx (conns w cid)) cid ptr bs v = Some w'"
    using direct_iff [OF okv] v(5) wr up w'(1)
    by (simp add: send_def v(1,2) connected_def sendInLoop_def send_direct_def sock_write_def Let_def fd_def u_def)
  then show ?thesis using h up w' by (simp add: u_def v(1-4) connected_def fd_def)
qed

text \<open>The event that the connection is writable.\<close>

lemma conn_event_write:
  assumes "revents (chan_of cid w) = EPOLLOUT"
  shows "conn_event env me cid True t w = handleWrite env me cid w"
  using assms by (simp add: conn_event_def handleEvent_def handleEventWithGuard_def conn_callbacks_def
      call_def channel_masks)


text \<open>A delivery whose answer meets a connection that is closed at the other end.\<close>

lemma echo_killed:
  assumes env: "env = server_env (echo_app o1 k d ptr)" and ok: "conn_ok env cid w" and os: "os_ok o1"
    and e: "echo_ok cid w" and up: "connected cid w"
  defines "fd \<equiv> sockFd (conns w cid)"
  assumes sm: "smooth fd (calls w)" and r: "read_result env cid w = Inr bs" "bs \<noteq> []" "length bs < InitialSize"
    and wr: "os_write o1 (calls w @ [CRead fd (Inr bs)]) fd bs = Inl EPIPE"
  shows "conn_handleRead env cid t w = None"
proof (rule delivery_sends [OF env ok os e sm [unfolded fd_def] r, folded fd_def])
  let ?e0 = "no_callbacks o1 k d :: senv"
  fix v b
  assume v: "conn_ok ?e0 cid v" "calls v = calls w @ [CRead fd (Inr bs)]"
    "conns v cid = (conns w cid)\<lparr>inputBuffer := b\<rparr>" "direct cid v"
    and h: "conn_handleRead env cid t w = send ?e0 (loopIx (conns w cid)) cid ptr bs v"
  have "write_kills ?e0 cid bs v" using v(2-4) wr by (simp add: write_kills_def write_result_def fd_def)
  then show ?thesis
    using h up sendInLoop_kills [OF v(1)] by (simp add: send_def v(3) connected_def)
qed


lemma delivery_kills:
  assumes m: "machine_ok (echo_app o1 k d ptr) R" and S: "serving a R K H b act w" and i: "i \<in> all_loops w"
    and x: "hasChannel (ChConn cid) (pol w i)" and e: "all_echo w"
    and rv: "revents (chan_of cid w) = EPOLLIN" and up: "connState (conns w cid) = KConnected"
  defines "c \<equiv> sockFd (conns w cid)"
  assumes sm: "smooth c (calls w)" and r: "read_result (echo_app o1 k d ptr) cid w = Inr bs"
    and bs: "bs \<noteq> []" "length bs < InitialSize"
    and wr: "os_write o1 (calls w @ [CRead c (Inr bs)]) c bs = Inl EPIPE"
  shows "handle_active (echo_app o1 k d ptr) i peer0 t (ChConn cid) w = None"
proof -
  define env where "env = server_env (echo_app o1 k d ptr)"
  have al: "alive w cid" using serving_key(1) [OF S i] x by (auto simp: hasChannel_def)
  have ok: "conn_ok env cid w" using serving_conn_ok [OF m S al] by (simp add: env_def)
  have os: "os_ok o1" using machine_okD(2) [OF m] by simp
  have ec: "echo_ok cid w" using e al by (simp add: all_echo_def)
  have r': "read_result env cid w = Inr bs" using r by (simp add: env_def)
  have "conn_handleRead env cid t w = None"
    using echo_killed [OF env_def ok os ec _ _ r' bs] up sm wr by (simp add: connected_def c_def)
  then show ?thesis using al conn_event_read [OF rv] by (simp add: env_def)
qed


subsection \<open>The run\<close>

abbreviation slow_app :: senv where
  "slow_app \<equiv> busy_app (Inr ''hi'') (Inr 1)"

abbreviation slow_reach :: "sys \<Rightarrow> bool" where
  "slow_reach \<equiv> busy_reach (Inr ''hi'') (Inr 1)"

text \<open>Its loop reads \<open>hi\<close> and hands it back to the kernel, which takes one byte.\<close>

lemma slow_reads:
  assumes s: "slow_reach s" "alive (srv s) 0" "connState (conns (srv s) 0) = KConnected"
    "sockFd (conns (srv s) 0) = 9" "smooth 9 (calls (srv s))"
    "outputBuffer (conns (srv s) 0) = new_Buffer InitialSize"
  shows "\<exists>w. conn_handleRead (server_env slow_app) 0 5 (srv s) = Some w \<and> connected 0 w \<and> sockFd (conns w 0) = 9 \<and>
    world.more w = world.more (srv s) \<and> evl w = evl (srv s) \<and> loopIx (conns w 0) = loopIx (conns (srv s) 0) \<and>
    calls w = calls (srv s) @ [CRead 9 (Inr ''hi''), CWrite 9 ''hi'' (Inr 1)] \<and> isWriting (chan_of 0 w) \<and>
    outputBuffer (conns w 0) = append ''i'' (new_Buffer InitialSize) \<and>
    sent 9 (calls (srv s)) = received 9 (calls (srv s))"
proof -
  obtain la where S: "serving (listens_on la) busy_fds (still s) (called s) (batch s) (active s) (srv s)"
    using busy_serving(1) [OF s(1)] by blast
  have "all_echo (srv s)"
    using echo_reach_echo [OF busy_machine [unfolded busy_app_def] s(1) [unfolded busy_reach_def busy_app_def]] .
  then have e: "echo_ok 0 (srv s)" using s(2) by (simp add: all_echo_def)
  have ok: "conn_ok (server_env slow_app) 0 (srv s)" using serving_conn_ok [OF busy_machine S s(2)] by simp
  have os: "os_ok (busy_os (Inr ''hi'') (Inr 1))"
    using machine_okD(2) [OF busy_machine] by (simp add: busy_app_def)
  have sm: "smooth (sockFd (conns (srv s) 0)) (calls (srv s))" using s(4,5) by simp
  have up: "connected 0 (srv s)" using s(3) by (simp add: connected_def)
  have rd: "read_result (server_env slow_app) 0 (srv s) = Inr ''hi''"
    by (simp add: read_result_def busy_app_def busy_os_def demo_os_def readFd_capacity_def extraSize_def)
  have env: "server_env slow_app = server_env (echo_app (busy_os (Inr ''hi'') (Inr 1)) (\<lambda>_. epoll_ref) (\<lambda>_ _ _. None) 0)"
    by (simp only: busy_app_def)
  have wr: "os_write (busy_os (Inr ''hi'') (Inr 1)) tr d ''hi'' = Inr 1" for tr d
    by (simp add: busy_os_def demo_os_def)
  have "\<exists>w. conn_handleRead (server_env slow_app) 0 5 (srv s) = Some w \<and> connected 0 w \<and>
      sockFd (conns w 0) = sockFd (conns (srv s) 0) \<and> world.more w = world.more (srv s) \<and> evl w = evl (srv s) \<and>
      loopIx (conns w 0) = loopIx (conns (srv s) 0) \<and>
      calls w = calls (srv s) @ [CRead (sockFd (conns (srv s) 0)) (Inr ''hi''),
        CWrite (sockFd (conns (srv s) 0)) ''hi'' (Inr 1)] \<and>
      isWriting (chan_of 0 w) \<and>
      outputBuffer (conns w 0) = append (drop 1 ''hi'') (outputBuffer (conns (srv s) 0))"
    by (rule echo_partly [OF env ok os e up sm rd _ _ wr]) (simp_all add: InitialSize_def)
  moreover have "drop 1 ''hi'' = ''i''" by simp
  moreover have "sent 9 (calls (srv s)) = received 9 (calls (srv s))"
    using echo_okD(5) [OF e sm] s(3,4) by simp
  ultimately show ?thesis unfolding s(4,6) by metis
qed

text \<open>The server answers \<open>hi\<close>: one byte goes out, the other waits in the output buffer.\<close>

lemma slow_stores:
  "\<exists>s i. slow_reach s \<and> i \<in> {1, 2, 3} \<and> phase s i = Handling \<and> active s i = [] \<and>
     pendingFunctors (evl (srv s) i) = [] \<and> nextConnId (srv s) = 2 \<and>
     alive (srv s) 0 \<and> connState (conns (srv s) 0) = KConnected \<and> loopIx (conns (srv s) 0) = i \<and>
     sockFd (conns (srv s) 0) = 9 \<and> isWriting (chan_of 0 (srv s)) \<and>
     outputBuffer (conns (srv s) 0) = append ''i'' (new_Buffer InitialSize) \<and>
     received 9 (calls (srv s)) = ''hi'' \<and> sent 9 (calls (srv s)) = ''h''"
proof -
  obtain s i where s: "slow_reach s" "i \<in> {1, 2, 3}" "phase s i = Handling" "active s i = [ChConn 0]"
    "connState (conns (srv s) 0) = KConnected" "loopIx (conns (srv s) 0) = i" "revents (chan_of 0 (srv s)) = EPOLLIN"
    "sockFd (conns (srv s) 0) = 9" "smooth 9 (calls (srv s))" "received 9 (calls (srv s)) = []"
    "nextConnId (srv s) = 2" "pendingFunctors (evl (srv s) i) = []"
    "outputBuffer (conns (srv s) 0) = new_Buffer InitialSize" "alive (srv s) 0"
    using busy_readable [of "Inr ''hi''" "Inr 1"] by blast
  have i: "i \<in> all_loops (srv s)" using s(2) busy_serving(2) [OF s(1)] by auto
  obtain w where w: "conn_handleRead (server_env slow_app) 0 5 (srv s) = Some w" "connected 0 w"
    "sockFd (conns w 0) = 9" "world.more w = world.more (srv s)" "evl w = evl (srv s)" "loopIx (conns w 0) = i"
    "calls w = calls (srv s) @ [CRead 9 (Inr ''hi''), CWrite 9 ''hi'' (Inr 1)]" "isWriting (chan_of 0 w)"
    "outputBuffer (conns w 0) = append ''i'' (new_Buffer InitialSize)"
    "sent 9 (calls (srv s)) = received 9 (calls (srv s))"
    using slow_reads [OF s(1,14,5,8,9,13)] unfolding s(6) by blast
  have "handle_active slow_app i zero_addr 5 (ChConn 0) (srv s) = Some w"
    using w(1) s(14) conn_event_read [OF s(7)] by simp
  note st = busy_reachI [OF s(1) s_handle [OF i s(3,4) _ this]]
  have "received 9 (calls w) = ''hi''" "sent 9 (calls w) = ''h''"
    using s(10) w(10) by (simp_all add: w(7) own_history)
  then show ?thesis
    using st s(2,3,11,12,14) w same_server(2,7) [OF w(4)]
    by (intro exI [of _ "s\<lparr>srv := w, active := (active s)(i := [])\<rparr>"] exI [of _ i]) (simp add: connected_def)
qed

text \<open>A loop that has nothing more to do goes back to \<open>epoll_wait\<close>.\<close>

lemma busy_idles:
  assumes s: "busy_reach inp ans s" "i \<in> {1, 2, 3}" "phase s i = Handling" "active s i = []"
    "pendingFunctors (evl (srv s) i) = []"
  shows "\<exists>t. busy_reach inp ans t \<and> phase t i = Waiting \<and> srv t = end_functors i (begin_functors i (srv s))"
proof -
  have i: "i \<in> all_loops (srv s)" using s(2) busy_serving(2) [OF s(1)] by auto
  define u where "u = s\<lparr>srv := begin_functors i (srv s), phase := (phase s)(i := Running),
      batch := (batch s)(i := pendingFunctors (evl (srv s) i)), finished := (finished s)(i := [])\<rparr>"
  have u: "busy_reach inp ans u" unfolding u_def by (rule busy_reachI [OF s(1) s_swap [OF i s(3,4)]])
  have "i \<in> all_loops (srv u)" using s(2) busy_serving(2) [OF u] by auto
  then have "srv_step (busy_app inp ans) zero_addr u (fold drop_ref (finished u i)
      (u\<lparr>srv := end_functors i (srv u), phase := (phase u)(i := Waiting), finished := (finished u)(i := [])\<rparr>))"
    by (rule s_finish) (simp_all add: u_def s(5))
  from busy_reachI [OF u this] show ?thesis
    by (intro exI [of _ "u\<lparr>srv := end_functors i (srv u), phase := (phase u)(i := Waiting),
      finished := (finished u)(i := [])\<rparr>"]) (simp add: u_def)
qed

text \<open>What \<open>handleWrite\<close> then does: it sends a byte of the free space.\<close>

lemma slow_writes:
  fixes v :: server
  assumes v: "conn_ok (server_env slow_app) 0 v" "isWriting (chan_of 0 v)" "connState (conns v 0) = KConnected"
    "sockFd (conns v 0) = 9" "outputBuffer (conns v 0) = append ''i'' (new_Buffer InitialSize)"
  shows "\<exists>w bs. handleWrite (server_env slow_app) i 0 v = Some w \<and> calls w = calls v @ [CWrite 9 bs (Inr 1)] \<and>
    take 1 bs = [NUL] \<and> connState (conns w 0) = KConnected \<and> sockFd (conns w 0) = 9 \<and> alive w = alive v"
proof -
  let ?env = "server_env slow_app"
  define slack where "slack = writeFd_bytes (outputBuffer (conns v 0))"
  have sl: "slack = replicate (InitialSize - 1) NUL"
    unfolding slack_def v(5) by (simp add: writeFd_bytes_fresh)
  have wr: "os_write (os1 ?env) (calls v) (sockFd (conns v 0)) slack = Inr 1"
    by (simp add: busy_app_def busy_os_def demo_os_def sl InitialSize_def)
  have os: "os_ok (os1 ?env)" using machine_okD(2) [OF busy_machine] by simp
  obtain w where w: "handleWrite ?env i 0 v = Some w" "calls w = calls v @ [CWrite (sockFd (conns v 0)) slack (Inr 1)]"
    using handleWrite_ok [OF v(1,2) os, of i] v(3) unfolding slack_def [symmetric] wr by (auto split: if_splits)
  have "no_tasks ?env" by (simp add: busy_app_def)
  have h: "handler_ok ?env 0 v w" by (rule yieldsD [OF handleWrite_handler [OF v(1) \<open>no_tasks ?env\<close>] w(1)])
  then have ch: "conn_change 0 v w" "connState (conns w 0) = KConnected" using v(3) by (simp_all add: handler_ok_def)
  have "alive w = alive v" "sockFd (conns w 0) = 9"
    using change_within [OF ch(1)] v(4) by (simp_all add: within_def)
  then show ?thesis using w ch(2) v(4) sl by (intro exI [of _ w] exI [of _ slack]) (simp add: InitialSize_def)
qed

text \<open>The kernel reports the connection writable.\<close>

lemma slow_corrupts:
  "\<exists>s. slow_reach s \<and> alive (srv s) 0 \<and> connState (conns (srv s) 0) = KConnected \<and>
     sockFd (conns (srv s) 0) = 9 \<and> received 9 (calls (srv s)) = ''hi'' \<and> sent 9 (calls (srv s)) = ''h'' @ [NUL]"
proof -
  let ?env = "server_env slow_app"
  obtain s0 i where s0: "slow_reach s0" "i \<in> {1, 2, 3}" "phase s0 i = Handling" "active s0 i = []"
    "pendingFunctors (evl (srv s0) i) = []" "nextConnId (srv s0) = 2"
    "alive (srv s0) 0" "connState (conns (srv s0) 0) = KConnected" "loopIx (conns (srv s0) 0) = i"
    "sockFd (conns (srv s0) 0) = 9" "isWriting (chan_of 0 (srv s0))"
    "outputBuffer (conns (srv s0) 0) = append ''i'' (new_Buffer InitialSize)"
    "received 9 (calls (srv s0)) = ''hi''" "sent 9 (calls (srv s0)) = ''h''"
    using slow_stores by blast
  obtain s where s: "slow_reach s" "phase s i = Waiting" "srv s = end_functors i (begin_functors i (srv s0))"
    using busy_idles [OF s0(1-5)] by blast
  have k: "nextConnId (srv s) = 2" "alive (srv s) 0" "conns (srv s) = conns (srv s0)" "calls (srv s) = calls (srv s0)"
    "chan_of 0 (srv s) = chan_of 0 (srv s0)"
    using s0(6,7) by (simp_all add: s(3) end_functors_def begin_functors_def chan_of_def)
  have st: "connState (conns (srv s) 0) = KConnected" "loopIx (conns (srv s) 0) = i" "sockFd (conns (srv s) 0) = 9"
    using s0(8-10) k(3) by simp_all
  obtain q where q: "slow_reach (s\<lparr>srv := (srv s)\<lparr>pol := (pol (srv s))(i := q)\<rparr>,
      phase := (phase s)(i := Handling), active := (active s)(i := [ChConn 0])\<rparr>)"
    "conn_ok ?env 0 ((srv s)\<lparr>pol := (pol (srv s))(i := q)\<rparr>)"
    "chan_of 0 ((srv s)\<lparr>pol := (pol (srv s))(i := q)\<rparr>) = save_revents EPOLLOUT (chan_of 0 (srv s))"
    by (rule busy_polls [OF s(1) s0(2) s(2) k(2) st])
  define v where "v = (srv s)\<lparr>pol := (pol (srv s))(i := q)\<rparr>"
  define t where "t = s\<lparr>srv := v, phase := (phase s)(i := Handling), active := (active s)(i := [ChConn 0])\<rparr>"
  have t: "slow_reach t" unfolding t_def v_def by (rule q(1))
  have v: "isWriting (chan_of 0 v)" "revents (chan_of 0 v) = EPOLLOUT" "conn_ok ?env 0 v" "conns v = conns (srv s0)"
    "calls v = calls (srv s0)"
    using q(2,3) s0(11) k by (simp_all add: v_def save_revents_def isWriting_def)
  obtain w bs where w: "handleWrite ?env i 0 v = Some w" "calls w = calls v @ [CWrite 9 bs (Inr 1)]"
    "take 1 bs = [NUL]" "connState (conns w 0) = KConnected" "sockFd (conns w 0) = 9" "alive w = alive v"
    using slow_writes [OF v(3,1), of i] s0(8,10,12) v(4) by auto
  have al: "alive v 0" using k(2) by (simp add: v_def)
  have r: "handle_active slow_app i zero_addr 5 (ChConn 0) (srv t) = Some w"
    using w(1) al conn_event_write [OF v(2)] by (simp add: t_def)
  have "i \<in> all_loops (srv t)" using s0(2) busy_serving(2) [OF t] by auto
  then have "slow_reach (t\<lparr>srv := w, active := (active t)(i := [])\<rparr>)"
    by (rule busy_reachI [OF t s_handle [OF _ _ _ _ r]]) (simp_all add: t_def v_def k(1))
  moreover have "received 9 (calls w) = ''hi''" "sent 9 (calls w) = ''h'' @ [NUL]"
    using s0(13,14) w(3) by (simp_all add: w(2) v(5) own_history)
  ultimately show ?thesis using w(4-6) al
    by (intro exI [of _ "t\<lparr>srv := w, active := (active t)(i := [])\<rparr>"]) simp
qed

text \<open>
  C23 (a client can be answered wrongly). The hypothesis of the echo on the kernel's writes is
  necessary: on a machine that keeps to the manual, and takes one byte of every \<open>write\<close>, the server
  reaches from \<open>main\<close>, by the steps of its own threads, a state in which a client that said \<open>hi\<close>
  and nothing else is still connected and has been sent \<open>h\<close> and a zero byte. So the running server
  does not implement an echo on every machine: the defect of \<open>writeFd\<close> reaches the client.
\<close>

theorem server_can_corrupt:
  "\<exists>o1 k d ptr R peer0 s. machine_ok (echo_app o1 k d ptr) R \<and>
     reach (from_main (echo_app o1 k d ptr) R) (srv_step (echo_app o1 k d ptr) peer0) s \<and>
     alive (srv s) 0 \<and> connState (conns (srv s) 0) = KConnected \<and>
     received (sockFd (conns (srv s) 0)) (calls (srv s)) = ''hi'' \<and>
     sent (sockFd (conns (srv s) 0)) (calls (srv s)) = ''h'' @ [NUL]"
proof -
  obtain s where s: "slow_reach s" "alive (srv s) 0" "connState (conns (srv s) 0) = KConnected"
    "sockFd (conns (srv s) 0) = 9" "received 9 (calls (srv s)) = ''hi''" "sent 9 (calls (srv s)) = ''h'' @ [NUL]"
    using slow_corrupts by blast
  then have s': "received (sockFd (conns (srv s) 0)) (calls (srv s)) = ''hi''"
    "sent (sockFd (conns (srv s) 0)) (calls (srv s)) = ''h'' @ [NUL]"
    by simp_all
  show ?thesis
    using busy_machine [unfolded busy_app_def] s(1) [unfolded busy_reach_def busy_app_def] s(2,3) s' by blast
qed

end
