(* ===== verification/RunningServer.thy ===== *)
theory RunningServer
  imports CorruptedEcho ServerReleases
begin

text \<open>
  The properties of the running echo server: what holds in every state that \<open>main\<close> can reach,
  for every interleaving of the four loops' threads, every result of the system calls that the
  manual allows, and any number of clients. They rest on the interpretation \<open>echo\<close> of
  \<open>connection_app\<close>.
\<close>

lemma busy_room:
  assumes "busy_reach inp ans s" "nextConnId (srv s) = 1" "s = idle_but 0 Handling [ChAcceptor] [] [] (srv s)"
  shows "room s"
proof -
  have "active s = (\<lambda>_. [])(0 := [ChAcceptor])" by (subst assms(3)) (simp add: idle_but_def)
  then show ?thesis using assms(2) busy_serving(2) [OF assms(1)] by (simp add: room_def)
qed

text \<open>
  C3 (type soundness of the server). As long as no \<open>write\<close> meets a connection that is closed at the
  other end, which raises SIGPIPE: in every state the server can reach from \<open>main\<close>, no handler and
  no task that is about to run fails, whatever events the kernel reports, resets and hang-ups
  included, and whatever reads and accepts return and writes otherwise return; in particular none
  is run on a connection that has been destroyed. And no loop is ever stuck: the thread of each of
  the four loops can make its next step as long as the connection counter, an \<open>int\<close>, has not
  reached its maximum.
\<close>

theorem server_type_sound:
  assumes "machine_ok (echo_app o1 k d ptr) R" "no_sigpipe o1"
    and "reach (from_main (echo_app o1 k d ptr) R) (srv_step (echo_app o1 k d ptr) peer0) s"
  shows "no_failure (echo_app o1 k d ptr) peer0 s \<and> all_loops (srv s) = {0, 1, 2, 3} \<and>
    (nextConnId (srv s) < 2 ^ 31 - 1 \<longrightarrow>
      (\<forall>i \<in> {0, 1, 2, 3}. moves (echo_app o1 k d ptr) peer0 i s))"
proof -
  obtain la where S: "sys_ok (listens_on la) R s" using echo_reach_ok [OF assms(1,3)] by blast
  show ?thesis
    using echo_no_failure [OF assms(1,2) S] echo_moves [OF assms(1,2) S] echo_reach_serving(2) [OF assms(1,3)]
    by metis
qed

theorem server_type_sound_witness:
  "\<exists>(s :: sys) i. batch s i = [FConnectEstablished 0] \<and> run_task hi_app i (FConnectEstablished 0) (srv s) \<noteq> None"
proof -
  obtain s i where s: "hi_reach s" "i \<in> {1, 2, 3}" "phase s i = Running"
    "batch s i = [FConnectEstablished 0]"
    using busy_takes by blast
  have "no_failure hi_app zero_addr s \<and> all_loops (srv s) = {0, 1, 2, 3}"
    using server_type_sound [OF busy_machine [unfolded busy_app_def] busy_no_sigpipe] s(1)
    unfolding busy_reach_def busy_app_def by blast
  then have "run_task hi_app i (FConnectEstablished 0) (srv s) \<noteq> None"
    using s(2-4) unfolding no_failure_def by blast
  then show ?thesis using s(4) by blast
qed

text \<open>
  C12 (a client can end the process). The hypothesis of the type soundness on SIGPIPE is
  necessary. In any reachable state, when a loop's thread comes to the channel of an established
  connection that has been reported readable, on which all has gone well so far: if a message of
  less than 1024 bytes is delivered and the client has closed its end, so that the \<open>write\<close> of
  the answer fails with EPIPE, then the handler does not return, whatever the time: the SIGPIPE
  that no code handles or ignores ends the process, with all its other connections.
\<close>

theorem server_killed:
  assumes "machine_ok (echo_app o1 k d ptr) R"
    and "reach (from_main (echo_app o1 k d ptr) R) (srv_step (echo_app o1 k d ptr) peer0) s"
    and "i \<in> {0, 1, 2, 3}" "phase s i = Handling" "active s i = ChConn cid # cs"
    and "revents (chan_of cid (srv s)) = EPOLLIN" "connState (conns (srv s) cid) = KConnected"
    and "sockFd (conns (srv s) cid) = c" "smooth c (calls (srv s))"
    and "read_result (echo_app o1 k d ptr) cid (srv s) = Inr bs" "bs \<noteq> []" "length bs < InitialSize"
    and "os_write o1 (calls (srv s) @ [CRead c (Inr bs)]) c bs = Inl EPIPE"
  shows "\<forall>t. handle_active (echo_app o1 k d ptr) i peer0 t (ChConn cid) (srv s) = None"
proof
  fix t
  obtain la where S: "serving (listens_on la) R (still s) (called s) (batch s) (active s) (srv s)"
    using echo_reach_serving(1) [OF assms(1,2)] by blast
  have i: "i \<in> all_loops (srv s)" using assms(3) echo_reach_serving(2) [OF assms(1,2)] by auto
  have "hasChannel (ChConn cid) (pol (srv s) i)" using servingD(7) [OF S i] assms(5) by simp
  from delivery_kills [OF assms(1) S i this echo_reach_echo [OF assms(1,2)] assms(6,7), unfolded assms(8),
      OF assms(9-13)]
  show "handle_active (echo_app o1 k d ptr) i peer0 t (ChConn cid) (srv s) = None" .
qed

theorem server_killed_witness:
  "\<exists>s i. machine_ok (busy_app (Inr ''hi'') (Inl EPIPE)) busy_fds \<and> busy_reach (Inr ''hi'') (Inl EPIPE) s \<and>
     active s i = [ChConn 0] \<and> alive (srv s) 0 \<and>
     handle_active (busy_app (Inr ''hi'') (Inl EPIPE)) i zero_addr 5 (ChConn 0) (srv s) = None"
proof -
  let ?app = "busy_app (Inr ''hi'') (Inl EPIPE)"
  obtain s i where s: "busy_reach (Inr ''hi'') (Inl EPIPE) s" "i \<in> {1, 2, 3}" "phase s i = Handling"
    "active s i = [ChConn 0]" "connState (conns (srv s) 0) = KConnected" "revents (chan_of 0 (srv s)) = EPOLLIN"
    "sockFd (conns (srv s) 0) = 9" "smooth 9 (calls (srv s))" "alive (srv s) 0"
    using busy_readable by blast
  have i: "i \<in> {0, 1, 2, 3}" using s(2) by blast
  have len: "''hi'' \<noteq> []" "length ''hi'' < InitialSize" by (simp_all add: InitialSize_def)
  have rd: "read_result ?app 0 (srv s) = Inr ''hi''"
    and wr: "os_write (busy_os (Inr ''hi'') (Inl EPIPE)) tr 9 ''hi'' = Inl EPIPE" for tr
    by (simp_all add: read_result_def busy_app_def busy_os_def readFd_capacity_def extraSize_def)
  have "\<forall>t. handle_active ?app i zero_addr t (ChConn 0) (srv s) = None"
    using server_killed [OF busy_machine [unfolded busy_app_def] s(1) [unfolded busy_reach_def busy_app_def]
        i s(3,4,6,5,7,8) rd [unfolded busy_app_def] len wr]
    unfolding busy_app_def by blast
  then show ?thesis using s(1,4,9) busy_machine by blast
qed

text \<open>
  C4 (life and death of a connection). In every reachable state: every connection object that
  exists is held by a shared pointer, so none leaks, and the map and every task queued or
  running refer only to objects that exist. A connection belongs to a loop of the pool. While it
  is connecting, it is in the map, unwatched, and its establishment is queued exactly once; while it
  is connected, it is in the map under its name and watched for reads under its descriptor; once
  disconnected, a task that takes it out of the map or the poller is on its way, or both are done.
\<close>

theorem connection_life:
  assumes "machine_ok (echo_app o1 k d ptr) R"
    and "reach (from_main (echo_app o1 k d ptr) R) (srv_step (echo_app o1 k d ptr) peer0) s"
  shows "lifetimes_ok s \<and> (alive (srv s) cid \<longrightarrow> life_ok s cid)"
  using echo_reach_serving(1) [OF assms] serving_lifetimes serving_life by blast

theorem connection_life_witness:
  "\<exists>s. connState (conns (srv s) 0) = KConnecting \<and> held 0 s \<and> life_ok s 0"
proof -
  obtain s where s: "hi_reach s" "alive (srv s) 0" "connState (conns (srv s) 0) = KConnecting"
    using busy_takes by blast
  have "lifetimes_ok s \<and> (alive (srv s) 0 \<longrightarrow> life_ok s 0)"
    using connection_life [OF busy_machine [unfolded busy_app_def]] s(1)
    unfolding busy_reach_def busy_app_def by blast
  then show ?thesis using s(2,3) unfolding lifetimes_ok_def by blast
qed

text \<open>
  C5 (descriptors). In every reachable state the accepted descriptors that are open are exactly
  those of the connection objects that exist, each object with its own; \<open>close\<close> was only ever
  called on a descriptor that was open; and every registration in a poller's kernel list is
  one of the process's own descriptors or that of a live connection of this loop, so an event
  never reaches a dead object.
\<close>

theorem descriptors_exact:
  assumes "machine_ok (echo_app o1 k d ptr) R"
    and "reach (from_main (echo_app o1 k d ptr) R) (srv_step (echo_app o1 k d ptr) peer0) s"
  shows "descriptors_ok (srv s) \<and> registrations_ok R (srv s)"
  using echo_reach_serving(1) [OF assms] servingD(3) serving_registrations by blast

theorem descriptors_exact_witness:
  "\<exists>s :: sys. alive (srv s) 0 \<and> 9 \<in> accepted (calls (srv s)) \<and> registrations_ok busy_fds (srv s)"
proof -
  obtain s where s: "hi_reach s" "alive (srv s) 0" "sockFd (conns (srv s) 0) = 9"
    using busy_takes by blast
  have "descriptors_ok (srv s) \<and> registrations_ok busy_fds (srv s)"
    using descriptors_exact [OF busy_machine [unfolded busy_app_def]] s(1)
    unfolding busy_reach_def busy_app_def by blast
  moreover from this have "9 \<in> accepted (calls (srv s))" using s(2,3) by (force simp: descriptors_ok_def)
  ultimately show ?thesis using s(2) by blast
qed

text \<open>
  C6 (no lost wake-up in the server). In every reachable state each of the four loops has its
  eventfd registered for reads, so that \<open>epoll_wait\<close> can report it, and a loop that waits, is about to
  wait or runs its tasks has a readable eventfd as soon as a task is in its queue: no established,
  closed or destroyed connection is left to a sleeping loop.
\<close>

theorem server_wakes:
  assumes "machine_ok (echo_app o1 k d ptr) R"
    and "reach (from_main (echo_app o1 k d ptr) R) (srv_step (echo_app o1 k d ptr) peer0) s"
  shows "woken s"
  using echo_reach_serving(1) [OF assms] serving_woken by blast

theorem server_wakes_witness:
  "\<exists>(s :: sys) i. phase s i = Waiting \<and> pendingFunctors (evl (srv s) i) = [FConnectEstablished 0] \<and>
     0 < counter (evl (srv s) i)"
proof -
  obtain s i where s: "hi_reach s" "i \<in> {1, 2, 3}" "phase s i = Waiting"
    "pendingFunctors (evl (srv s) i) = [FConnectEstablished 0]"
    using busy_connects by metis
  have "woken s"
    using server_wakes [OF busy_machine [unfolded busy_app_def]] s(1)
    unfolding busy_reach_def busy_app_def by blast
  moreover have "i \<in> all_loops (srv s)" using s(2) busy_serving(2) [OF s(1)] by auto
  ultimately have "0 < counter (evl (srv s) i)" using s(3,4) by (simp add: woken_def)
  then show ?thesis using s(3,4) by blast
qed

subsection \<open>The echo\<close>

text \<open>
  C2 (the server echoes). In every reachable state of the running server, for every live connection
  and however the threads, the other clients and the deliveries are interleaved: as long as every
  \<open>write\<close> to it since it was accepted took all it was given and every \<open>readv\<close> stayed within the
  1024 free bytes of the input buffer, what has been sent is, byte for byte and in order, what
  has been received, and nothing is pending. On a connection that is already closed, whose late bytes are
  dropped, it is a prefix of it. The histories start at the \<open>accept\<close>, so no byte of an earlier
  connection with the same descriptor is ever mixed in.
\<close>

theorem server_echoes:
  assumes "machine_ok (echo_app o1 k d ptr) R"
    and "reach (from_main (echo_app o1 k d ptr) R) (srv_step (echo_app o1 k d ptr) peer0) s"
    and "alive (srv s) cid" "smooth (sockFd (conns (srv s) cid)) (calls (srv s))"
  shows "prefix (sent (sockFd (conns (srv s) cid)) (calls (srv s)))
      (received (sockFd (conns (srv s) cid)) (calls (srv s))) \<and>
    (connState (conns (srv s) cid) \<noteq> KDisconnected \<longrightarrow>
      sent (sockFd (conns (srv s) cid)) (calls (srv s)) = received (sockFd (conns (srv s) cid)) (calls (srv s))) \<and>
    readable (inputBuffer (conns (srv s) cid)) = [] \<and> readable (outputBuffer (conns (srv s) cid)) = []"
proof -
  have "echo_ok cid (srv s)" using echo_reach_echo [OF assms(1,2)] assms(3) by (simp add: all_echo_def)
  note E = echo_okD [OF this assms(4)]
  show ?thesis using E idle_facts [OF E(1)] by simp
qed

text \<open>
  C1 (refinement of the echo service). The server implements the service of \<open>EchoService\<close>. Seen
  through \<open>view\<close>, it starts with every client \<open>Unborn\<close>, and every step of any of its threads, from any reachable
  state, is a sequence of moves of single clients: one arrives, is established, has a message
  answered at its end, is closed, says something more that is not answered, or is
  released; it never skips a stage nor goes back to one, and no move of one client touches another.
  \<open>Impaired\<close> is left to a client only when the kernel took an answer in part or delivered more
  than the input buffer had room for.
\<close>

theorem server_refines_service:
  assumes "machine_ok (echo_app o1 k d ptr) R"
    and "reach (from_main (echo_app o1 k d ptr) R) (srv_step (echo_app o1 k d ptr) peer0) s"
  shows "service_step\<^sup>*\<^sup>* (\<lambda>_. Unborn) (view (srv s)) \<and>
    (\<forall>t. srv_step (echo_app o1 k d ptr) peer0 s t \<longrightarrow> service_step\<^sup>*\<^sup>* (view (srv s)) (view (srv t)))"
  using reach_moves [OF assms] step_moves [OF _ assms(1) _ echo_reach_echo [OF assms]] echo_reach_ok [OF assms]
  by blast

theorem server_refines_service_witness:
  "\<exists>s :: sys. service_step\<^sup>*\<^sup>* (\<lambda>_. Unborn) (view (srv s)) \<and> view (srv s) 0 = Open ''hi''"
proof -
  obtain s where s: "hi_reach s" "alive (srv s) 0" "connState (conns (srv s) 0) = KConnected"
    "sockFd (conns (srv s) 0) = 9" "smooth 9 (calls (srv s))" "received 9 (calls (srv s)) = ''hi''"
    using busy_answered by blast
  obtain la where S: "serving (listens_on la) busy_fds (still s) (called s) (batch s) (active s) (srv s)"
    using busy_serving(1) [OF s(1)] by blast
  have "view (srv s) 0 = Open ''hi''" using view_alive(3) [OF S s(2)] s(3-6) by simp
  moreover have "service_step\<^sup>*\<^sup>* (\<lambda>_. Unborn) (view (srv s))"
    using server_refines_service [OF busy_machine [unfolded busy_app_def] s(1) [unfolded busy_reach_def busy_app_def]]
    by blast
  ultimately show ?thesis by blast
qed

text \<open>
  C7 (every client is served). When the kernel has reported the listening socket readable and the base loop's
  thread comes to it, in any reachable state and whatever the other threads are doing: if \<open>accept\<close>
  returns a descriptor, and no \<open>write\<close> of another connection raises SIGPIPE, then the threads' own
  steps, with no further event from the network, lead to a state in which every loop waits, all work is done, and the new client is \<open>Open []\<close>: its
  connection, on that descriptor, is established and watched for reads, and ready to echo.
\<close>

theorem server_serves:
  assumes "machine_ok (echo_app o1 k d ptr) R" "no_sigpipe o1"
    and "reach (from_main (echo_app o1 k d ptr) R) (srv_step (echo_app o1 k d ptr) peer0) s" and "room s"
    and "phase s 0 = Handling" "active s 0 = ChAcceptor # cs"
    and "revents (chan (pol (srv s) 0) ChAcceptor) = EPOLLIN"
    and "os_accept o1 (calls (srv s)) (acceptFd (srv s)) = Inr (fd, peer)"
  shows "\<exists>w. (calm (echo_app o1 k d ptr) peer0)\<^sup>*\<^sup>* s (idle_sys w) \<and> settled w \<and>
    view w (nextObj (srv s)) = Open [] \<and> sockFd (conns w (nextObj (srv s))) = fd"
  by (rule client_served [OF assms])

theorem server_serves_witness:
  "\<exists>s w. active s 0 = [ChAcceptor] \<and> (calm hi_app zero_addr)\<^sup>*\<^sup>* s (idle_sys w) \<and> settled w \<and>
     view w 0 = Open [] \<and> sockFd (conns w 0) = 9"
proof -
  obtain s where s: "hi_reach s" "phase s = (\<lambda>_. Waiting)(0 := Handling)" "active s 0 = [ChAcceptor]"
    "nextConnId (srv s) = 1" "revents (chan (pol (srv s) 0) ChAcceptor) = EPOLLIN"
    "s = idle_but 0 Handling [ChAcceptor] [] [] (srv s)"
    using busy_polled by blast
  obtain la where S: "serving (listens_on la) busy_fds (still s) (called s) (batch s) (active s) (srv s)"
    using busy_serving(1) [OF s(1)] by blast
  note F = serving_fresh [OF S s(4)]
  have rm: "room s" by (rule busy_room [OF s(1,4,6)])
  have ph: "phase s 0 = Handling" by (simp add: s(2))
  have acc: "os_accept hi_os (calls (srv s)) (acceptFd (srv s)) = Inr (9, zero_addr)"
    by (simp add: busy_os_def F(3))
  have "\<exists>w. (calm hi_app zero_addr)\<^sup>*\<^sup>* s (idle_sys w) \<and> settled w \<and>
      view w (nextObj (srv s)) = Open [] \<and> sockFd (conns w (nextObj (srv s))) = 9"
    using server_serves [OF busy_machine [unfolded busy_app_def] busy_no_sigpipe s(1) [unfolded busy_reach_def busy_app_def]
        rm ph s(3,5) acc]
    unfolding busy_app_def .
  then show ?thesis using s(3) F(2) by metis
qed

text \<open>
  C9 (every client that goes is released). When the kernel has reported, in any reachable state, an event
  that ends a connection (a hang-up, an error, or a read that returns nothing more or fails) and its
  loop's thread comes to it, whatever the other threads are doing and whatever else is queued for
  this connection: if no \<open>write\<close> raises SIGPIPE, then the threads' own steps, with no further event
  from the network (none of them polls a new event), lead to a state in which every loop waits,
  all work is done and the client is \<open>Gone\<close>: its object has been destroyed, and the open accepted
  descriptors are exactly those of the connections that remain. So no client can make the server leak.
\<close>

theorem server_releases:
  assumes "machine_ok (echo_app o1 k d ptr) R" "no_sigpipe o1"
    and "reach (from_main (echo_app o1 k d ptr) R) (srv_step (echo_app o1 k d ptr) peer0) s" and "room s"
    and "i \<in> {0, 1, 2, 3}" "phase s i = Handling" "active s i = ChConn cid # cs"
    and "hangs_up (echo_app o1 k d ptr) cid (srv s)"
  shows "\<exists>w. (calm (echo_app o1 k d ptr) peer0)\<^sup>*\<^sup>* s (idle_sys w) \<and> settled w \<and>
    view w cid = Gone \<and> descriptors_ok w"
  by (rule client_released [OF assms])

theorem server_releases_witness:
  "\<exists>s w. connState (conns (srv s) 0) = KConnected \<and>
     (calm (busy_app (Inr []) (Inr 2)) zero_addr)\<^sup>*\<^sup>* s (idle_sys w) \<and> view w 0 = Gone \<and> descriptors_ok w"
proof -
  let ?app = "busy_app (Inr []) (Inr 2)"
  obtain s i where s: "busy_reach (Inr []) (Inr 2) s" "i \<in> {1, 2, 3}" "phase s i = Handling"
    "active s i = [ChConn 0]" "connState (conns (srv s) 0) = KConnected" "revents (chan_of 0 (srv s)) = EPOLLIN"
    "nextConnId (srv s) = 2" "active s = (\<lambda>_. [])(i := [ChConn 0])"
    using busy_readable [of "Inr []" "Inr 2"] by blast
  have i: "i \<in> {0, 1, 2, 3}" using s(2) by blast
  have "room s"
    using s(2,7) busy_serving(2) [OF s(1)] by (auto simp: room_def s(8))
  moreover have "hangs_up ?app 0 (srv s)"
    by (simp add: hangs_up_def Let_def s(6) channel_masks read_result_def busy_app_def busy_os_def demo_os_def)
  ultimately have "\<exists>w. (calm ?app zero_addr)\<^sup>*\<^sup>* s (idle_sys w) \<and> settled w \<and> view w 0 = Gone \<and> descriptors_ok w"
    using server_releases [OF busy_machine [unfolded busy_app_def] busy_no_sigpipe s(1) [unfolded busy_reach_def busy_app_def] _ i s(3,4)]
    unfolding busy_app_def by blast
  then show ?thesis using s(5) by blast
qed

text \<open>
  C8 (a delivery is answered). When \<open>epoll_wait\<close> has reported an established connection of the
  running server readable and the loop's thread comes to its channel: if until now every \<open>write\<close> to
  it took all it was given and every \<open>readv\<close> stayed within the input buffer, and the kernel now
  delivers a non-empty message of less than 1024 bytes and takes the answer whole, then the handler
  returns, the message has been received and the answer sent in this one step, after all that was
  echoed before, and the same holds of the connection's history after it.
\<close>

theorem server_answers:
  assumes "machine_ok (echo_app o1 k d ptr) R"
    and "reach (from_main (echo_app o1 k d ptr) R) (srv_step (echo_app o1 k d ptr) peer0) s"
    and "i \<in> {0, 1, 2, 3}" "phase s i = Handling" "active s i = ChConn cid # cs"
    and "revents (chan_of cid (srv s)) = EPOLLIN" "connState (conns (srv s) cid) = KConnected"
    and "sockFd (conns (srv s) cid) = c" "smooth c (calls (srv s))"
    and "read_result (echo_app o1 k d ptr) cid (srv s) = Inr bs" "bs \<noteq> []" "length bs < InitialSize"
    and "os_write o1 (calls (srv s) @ [CRead c (Inr bs)]) c bs = Inr (length bs)"
  shows "\<exists>w. handle_active (echo_app o1 k d ptr) i peer0 t (ChConn cid) (srv s) = Some w \<and>
    received c (calls w) = received c (calls (srv s)) @ bs \<and> sent c (calls w) = received c (calls w) \<and>
    smooth c (calls w)"
proof -
  obtain la where S: "serving (listens_on la) R (still s) (called s) (batch s) (active s) (srv s)"
    using echo_reach_serving(1) [OF assms(1,2)] by blast
  have i: "i \<in> all_loops (srv s)" using assms(3) echo_reach_serving(2) [OF assms(1,2)] by auto
  have "hasChannel (ChConn cid) (pol (srv s) i)" using servingD(7) [OF S i] assms(5) by simp
  from delivery_answered [OF assms(1) S i this echo_reach_echo [OF assms(1,2)] assms(6,7), unfolded assms(8),
      OF assms(9-13), of peer0 t]
  show ?thesis using assms(9,12) by (auto simp: own_history simp del: handle_active.simps)
qed

theorem server_answers_witness:
  "\<exists>(s :: sys) i w. handle_active hi_app i zero_addr 5 (ChConn 0) (srv s) = Some w \<and>
     sent 9 (calls w) = ''hi''"
proof -
  obtain s i where s: "hi_reach s" "i \<in> {1, 2, 3}" "phase s i = Handling" "active s i = [ChConn 0]"
    "connState (conns (srv s) 0) = KConnected" "revents (chan_of 0 (srv s)) = EPOLLIN"
    "sockFd (conns (srv s) 0) = 9" "smooth 9 (calls (srv s))" "received 9 (calls (srv s)) = []" "nextConnId (srv s) = 2"
    using busy_readable by blast
  have i: "i \<in> {0, 1, 2, 3}" using s(2) by blast
  have len: "''hi'' \<noteq> []" "length ''hi'' < InitialSize" by (simp_all add: InitialSize_def)
  have "\<exists>w. handle_active hi_app i zero_addr 5 (ChConn 0) (srv s) = Some w \<and>
      received 9 (calls w) = received 9 (calls (srv s)) @ ''hi'' \<and> sent 9 (calls w) = received 9 (calls w) \<and>
      smooth 9 (calls w)"
    using server_answers [OF busy_machine [unfolded busy_app_def] s(1) [unfolded busy_reach_def busy_app_def]
        i s(3,4,6,5,7,8) busy_delivers(1) [unfolded busy_app_def] len busy_delivers(2), of 5]
    unfolding busy_app_def .
  then show ?thesis using s(9) by (metis append_Nil)
qed

theorem server_echoes_witness:
  "\<exists>s :: sys. connState (conns (srv s) 0) = KConnected \<and> received 9 (calls (srv s)) = ''hi'' \<and>
     sent 9 (calls (srv s)) = ''hi''"
proof -
  obtain s where s: "hi_reach s" "alive (srv s) 0" "connState (conns (srv s) 0) = KConnected"
    "sockFd (conns (srv s) 0) = 9" "smooth 9 (calls (srv s))" "received 9 (calls (srv s)) = ''hi''"
    using busy_answered by blast
  have "sent 9 (calls (srv s)) = received 9 (calls (srv s))"
    using server_echoes [OF busy_machine [unfolded busy_app_def] s(1) [unfolded busy_reach_def busy_app_def] s(2),
        unfolded s(4), OF s(5)] s(3) by simp
  then show ?thesis using s(3,6) by auto
qed

subsection \<open>Start-up\<close>

text \<open>
  C15 (start-up). When the system calls of the start-up succeed, \<open>main\<close> brings up the server: it
  returns from \<open>server.start()\<close> listening, with four loops of which the base loop \<open>0\<close> is not one
  of the pool's, no connection, and the kernel watches exactly the eventfd of every loop and, on
  the base loop, the listening socket, all for reads.
\<close>

theorem server_starts:
  assumes "boot_ok env evfd mem pton e l w"
  shows "\<exists>w'. main_start env evfd mem junk pton w = Some w' \<and> listening w' \<and> baseIx w' = 0 \<and>
    loops (threadPool w') = [1, 2, 3] \<and> connections w' = Map.empty \<and> nextConnId w' = 1 \<and>
    interest (ctlTrace (pol w' 0)) = [e 0 \<mapsto> (ReadEvent, ChWakeup 0), l \<mapsto> (ReadEvent, ChAcceptor)] \<and>
    (\<forall>j \<in> {1..3}. interest (ctlTrace (pol w' j)) = [e j \<mapsto> (ReadEvent, ChWakeup j)])"
  using main_start_state [OF assms subset_refl, of junk] by blast

theorem server_starts_witness:
  "\<exists>w'. main_start hi_app (\<lambda>i. Inr (4 + int i)) (\<lambda>_ _. Channel (-1)) 0
      (\<lambda>_. Some (127, 0, 0, 1)) base_server = Some w' \<and>
    interest (ctlTrace (pol w' 0)) = [4 \<mapsto> (ReadEvent, ChWakeup 0), 3 \<mapsto> (ReadEvent, ChAcceptor)]"
  using server_starts [OF busy_boot [of "Inr ''hi''" "Inr 2"], of 0] by auto


subsection \<open>Turns of the loops\<close>

text \<open>
  C10 (the server settles). From every reachable state in which the loops wait, one turn of
  every loop in which nothing happens on the network returns and completes all that was under
  way: no task is left in any queue; the connections that exist are exactly those that did and
  were not closed, each established, in the map and watched for reads; every closed one, one that
  was closed twice included, has been destroyed, and the open accepted descriptors are those of
  the connections that remain.
\<close>

theorem server_settles:
  assumes "machine_ok (echo_app o1 k d ptr) R"
    and "reach (from_main (echo_app o1 k d ptr) R) (srv_step (echo_app o1 k d ptr) peer0) (idle_sys w)"
  shows "\<exists>w'. settle (echo_app o1 k d ptr) peer0 t w = Some w' \<and> settled w' \<and> descriptors_ok w' \<and>
    {c. alive w' c} = {c. alive w c \<and> connState (conns w c) \<noteq> KDisconnected}"
proof -
  obtain la where "sys_ok (listens_on la) R (idle_sys w)" using echo_reach_ok [OF assms] by blast
  from echo_settles [OF assms(1) this, of peer0 t]
  obtain w' where w': "settle (echo_app o1 k d ptr) peer0 t w = Some w'" "settled w'" "survive w w'"
    "sys_ok (listens_on la) R (idle_sys w')"
    by blast
  have "alive w' c = (alive w c \<and> connState (conns w c) \<noteq> KDisconnected)" for c
    using w'(2,3) by (auto simp: settled_def survive_def closed_def)
  then show ?thesis using w'(1,2) servingD(3) [OF sys_okD(1) [OF w'(4)]] by auto
qed

theorem server_settles_witness:
  "\<exists>w w'. alive w 0 \<and> connState (conns w 0) = KConnecting \<and>
     settle hi_app zero_addr 5 w = Some w' \<and> settled w' \<and> alive w' 0"
proof -
  obtain s where s: "hi_reach s" "alive (srv s) 0" "connState (conns (srv s) 0) = KConnecting"
    "pendingFunctors (evl (srv s) 0) = []" "s = idle_but 0 Handling [] [] [] (srv s)"
    using busy_connects by blast
  define x where "x = srv s"
  have "s = idle_but 0 Handling [] [] [] x" unfolding x_def by (rule s(5))
  from subst [OF this, where P = hi_reach, OF s(1)]
  have x: "hi_reach (idle_but 0 Handling [] [] [] x)" "alive x 0"
    "connState (conns x 0) = KConnecting" "pendingFunctors (evl x 0) = []"
    using s(2-4) by (simp_all only: x_def)
  obtain la where S: "sys_ok (listens_on la) busy_fds (idle_but 0 Handling [] [] [] x)"
    using echo_reach_ok [OF busy_machine [unfolded busy_app_def]] x(1)
    unfolding busy_reach_def busy_app_def by blast
  have i: "0 \<in> snd (listens_on la)" by (simp add: listens_on_def)
  obtain w where w: "doPendingFunctors hi_app 0 x = Some w"
    "(calm hi_app zero_addr)\<^sup>*\<^sup>* (idle_but 0 Handling [] [] [] x) (idle_sys w)"
    using echo.tasks_run [OF busy_machine [unfolded busy_app_def] S i] unfolding busy_app_def by blast
  have r: "hi_reach (idle_sys w)" using reach_run [OF _ calm_runs [OF w(2)]] x(1) unfolding busy_reach_def .
  have k: "alive w 0" "connState (conns w 0) = KConnecting"
    using w(1) x(2-4) by (auto simp: doPendingFunctors_def Let_def)
  obtain w' where w': "settle hi_app zero_addr 5 w = Some w'" "settled w'"
    "{c. alive w' c} = {c. alive w c \<and> connState (conns w c) \<noteq> KDisconnected}"
    using server_settles [OF busy_machine [unfolded busy_app_def] r [unfolded busy_reach_def busy_app_def], of 5]
    unfolding busy_app_def by blast
  have "0 \<in> {c. alive w' c}" unfolding w'(3) using k by simp
  then show ?thesis using k w'(1,2) by blast
qed

text \<open>
  C11 (progress). There is no deadlock, and nothing is ever stuck: from every reachable state, whatever each
  of the four threads is doing, their own steps alone, without any new event from the network, lead to a
  state in which every loop waits in \<open>epoll_wait\<close>, no task is queued, every connection object
  that remains is established, in the map and watched for reads, and all others are destroyed. The
  hypotheses are that no \<open>write\<close> raises SIGPIPE, and that the \<open>int\<close> that numbers the connections
  does not overflow, while the events already reported are handled.
\<close>

theorem server_can_settle:
  assumes "machine_ok (echo_app o1 k d ptr) R" "no_sigpipe o1"
    and "reach (from_main (echo_app o1 k d ptr) R) (srv_step (echo_app o1 k d ptr) peer0) s" and "room s"
  shows "\<exists>w. (calm (echo_app o1 k d ptr) peer0)\<^sup>*\<^sup>* s (idle_sys w) \<and> settled w \<and> descriptors_ok w"
proof -
  obtain u where u: "(calm (echo_app o1 k d ptr) peer0)\<^sup>*\<^sup>* s (idle_sys u)"
    using returns_to_poll [OF assms] by blast
  obtain la where S: "sys_ok (listens_on la) R (idle_sys u)"
    using echo_reach_ok [OF assms(1) reach_run [OF assms(3) calm_runs [OF u]]] by blast
  obtain w where w: "settled w" "sys_ok (listens_on la) R (idle_sys w)"
    "(calm (echo_app o1 k d ptr) peer0)\<^sup>*\<^sup>* (idle_sys u) (idle_sys w)"
    using echo_settles [OF assms(1) S, of peer0] by blast
  show ?thesis
    using rtranclp_trans [OF u w(3)] w(1) servingD(3) [OF sys_okD(1) [OF w(2)]] by auto
qed

theorem server_can_settle_witness:
  "\<exists>s w. phase s 0 = Handling \<and> active s 0 = [ChAcceptor] \<and>
     (calm hi_app zero_addr)\<^sup>*\<^sup>* s (idle_sys w) \<and> settled w"
proof -
  obtain s where s: "hi_reach s" "phase s = (\<lambda>_. Waiting)(0 := Handling)" "active s 0 = [ChAcceptor]"
    "nextConnId (srv s) = 1" "s = idle_but 0 Handling [ChAcceptor] [] [] (srv s)"
    using busy_polled by blast
  have "room s" by (rule busy_room [OF s(1,4,5)])
  then obtain w where "(calm hi_app zero_addr)\<^sup>*\<^sup>* s (idle_sys w)" "settled w"
    using server_can_settle [OF busy_machine [unfolded busy_app_def] busy_no_sigpipe s(1) [unfolded busy_reach_def busy_app_def]]
    unfolding busy_app_def by blast
  then show ?thesis using s(2,3) by (intro exI [of _ s] exI [of _ w]) simp
qed

end
