(* ===== verification/Spec2Isabelle.thy ===== *)
theory Spec2Isabelle
  imports NetBuffer FixBuffer LogStreams Timestamps Loggers LogFiles AsyncLog
    LogPipeline Channels Pollers EventLoops LoopThreads Sockets TcpConnections Servers
    ConnSteps ServerSystem ServerSteps ServerAccept ServerTasks ServerRuns EchoMain ServerLife
    SystemTurns EchoStream ReachableServer EchoService ServerProgress ServerAdmits ServerReleases
    BusyServer RunningServer CorruptedEcho
begin

text \<open>
  A verification development for the echo server.

  The program. A reactor network library in C++ (\<open>include/\<close>, \<open>src/\<close>) with an asynchronous
  logger (\<open>log/\<close>) and an echo server on top (\<open>src/main.cc\<close>). A base loop accepts connections
  (\<open>Acceptor\<close>, \<open>TcpServer\<close>) and hands each to one of the loops of a thread pool
  (\<open>EventLoopThreadPool\<close>). A loop (\<open>EventLoop\<close>) waits in \<open>epoll_wait\<close> (\<open>EPollPoller\<close>), dispatches
  the returned events (\<open>Channel\<close>) and runs the tasks other threads have queued, which wake it
  up through an eventfd. A connection (\<open>TcpConnection\<close>) owns a socket, a channel and two
  \<open>Buffer\<close>s. Log statements format into fixed buffers (\<open>Logger\<close>, \<open>LogStream\<close>), are collected
  in memory by any thread (\<open>AsyncLogging::append\<close>) and written by one thread to files that
  roll (\<open>LogFile\<close>, \<open>FileUtil\<close>).

  The theories, in the order of their imports:
  \<^item> \<open>Prelude\<close>: memory as lists, \<open>size_t\<close> arithmetic, partial steps folded over a list, the
    outcome of a partial step (\<open>yields\<close>: partial correctness, and success where it is due), and
    the invariant rule for step relations (locale \<open>invariant_system\<close>).
  \<^item> \<open>NetBuffer\<close> (Buffer.h, Buffer.cc): the vector with its two indices, growth and
    compaction, \<open>readFd\<close>, \<open>writeFd\<close>. It refines a byte queue (locale \<open>byte_queue\<close>,
    interpretation \<open>nb\<close>). \<open>readFd\<close> and \<open>writeFd\<close> are shown to lose data.
  \<^item> \<open>FixBuffer\<close>, \<open>LogStreams\<close>, \<open>Timestamps\<close>, \<open>Loggers\<close> (FixedBuffer.h, LogStream.h/.cc,
    Timestamp.h/.cc, Logger.h/.cc): bounded buffers (locale \<open>append_buffer\<close>), number formatting
    with its round trip, the exact text of a log line.
  \<^item> \<open>LogFiles\<close> (FileUtil.h/.cc, LogFile.h/.cc): the write loop over a C stream that may write
    short, and the roll rules; locale \<open>log_sink\<close>, interpreted by \<open>LogFile\<close>.
  \<^item> \<open>AsyncLog\<close> (AsyncLogging.h/.cc): the double buffering as a step relation of the logging
    thread and any number of front ends; nothing accepted is lost or reordered before the
    thread leaves its loop.
  \<^item> \<open>LogPipeline\<close> (Logger.cc, main.cc): the way of a line from \<open>Logger\<close> through \<open>g_output\<close> and
    \<open>asyncLog\<close> to the files. Asynchronous logging holds what synchronous logging prints; a
    FATAL line can be lost.
  \<^item> \<open>Channels\<close> (Channel.h/.cc): event masks, and the order of the callbacks for an event.
  \<^item> \<open>Pollers\<close> (Poller.h/.cc, EPollPoller.h/.cc): registration states New, Added, Deleted, the
    \<open>epoll_ctl\<close> calls they cause and the interest list they leave (locale \<open>event_registry\<close>,
    interpretation \<open>ep\<close>), and the delivery of events.
  \<^item> \<open>EventLoops\<close> (EventLoop.h/.cc): task queue, eventfd and \<open>loop()\<close> as a step relation with
    the control point of the loop's thread; no wake-up is lost, every task runs once.
  \<^item> \<open>LoopThreads\<close> (CurrentThread, Thread, EventLoopThread, EventLoopThreadPool): the hand-over
    of a loop between threads and its destruction as a step relation over that of
    \<open>EventLoops\<close>, the use of a destroyed loop (\<open>PFault\<close>) included; the round robin of the pool.
  \<^item> \<open>Sockets\<close> (InetAddress.h/.cc, Socket.h/.cc): addresses, the trace of system calls, and
    \<open>write\<close> with the SIGPIPE it raises (\<open>sock_write\<close>).
  \<^item> \<open>TcpConnections\<close> (TcpConnection.h/.cc): the handlers of a connection on a state with all
    loops, pollers and connections. The invariant \<open>conn_ok\<close> says that the poller agrees with
    the kernel and the buffers are well formed; a lemma per handler gives its whole effect.
  \<^item> \<open>Servers\<close> (Acceptor.h/.cc, TcpServer.h/.cc, main.cc): accepting, naming and removing
    connections, execution of the queued tasks, one round of a loop, the echo callback, and
    the properties that span the components: the echo of a stream and the teardown.
  \<^item> \<open>ConnSteps\<close>: what a handler of a connection may change (\<open>conn_change\<close>, \<open>handler_ok\<close>).
  \<^item> \<open>ServerSystem\<close>: the whole server as a step relation \<open>srv_step\<close> on \<open>sys\<close>, the state of
    \<open>Servers\<close> with the control point of every loop's thread (in \<open>epoll_wait\<close>, in the list of active channels, in
    the batch of tasks) and the tasks already called, which hold their shared pointers until the batch
    is destroyed; and its invariant \<open>serving\<close>: the phases of a connection, who owns which descriptor,
    what the queues, the map and the pollers may contain.
  \<^item> \<open>ServerSteps\<close>, \<open>ServerAccept\<close>, \<open>ServerTasks\<close>, \<open>ServerRuns\<close>: every event and every task
    keeps the invariant and does not fail, for any application that keeps the contract of the
    locale \<open>connection_app\<close> (its callbacks return, and leave the connection well formed and
    registered); a sublocale makes it an \<open>invariant_system\<close>.
  \<^item> \<open>EchoMain\<close> (main.cc): the echo server keeps the contract (interpretation \<open>echo\<close>); \<open>main\<close> up
    to the listening server establishes the invariant.
  \<^item> \<open>ServerLife\<close>, \<open>SystemTurns\<close>: the invariant in terms of the objects, with the wake-ups of the
    loops (\<open>woken\<close>); whole turns of a loop, \<open>loop_once\<close>, as runs of the system.
  \<^item> \<open>EchoStream\<close>: what was read from a connection since its \<open>accept\<close> (\<open>received\<close>) against what was
    written to it (\<open>sent\<close>); the invariant \<open>echo_ok\<close>, which every callback, task and step keeps.
  \<^item> \<open>ReachableServer\<close>: the states reached from \<open>main\<close>, with all these invariants.
  \<^item> \<open>EchoService\<close>: an abstract echo service, in which a client arrives, is established, has
    messages answered, is closed and released, and the server as a refinement of it: a step of a
    thread is a sequence of moves of the service on the \<open>view\<close> of the server's state.
  \<^item> \<open>ServerProgress\<close>: the threads can always complete the work under way and return to \<open>epoll_wait\<close>.
  \<^item> \<open>ServerAdmits\<close>: a client that has connected is brought to an open connection by the threads' own steps.
  \<^item> \<open>ServerReleases\<close>: an event that ends a connection (\<open>hangs_up\<close>) closes it, a closed one stays closed,
    and the threads' own steps destroy it.
  \<^item> \<open>BusyServer\<close>: machines on which one client connects and sends, with a reachable state for each
    stage of its connection, for the witnesses; on one of them it says hi and is answered.
  \<^item> \<open>RunningServer\<close>: the properties of the running echo server: the refinement of the service,
    the echo itself, that every client is served, answered and released by the threads' own steps
    (\<open>calm\<close>: none of them polls a new event), type soundness and progress, the life of a connection,
    the descriptors, the wake-ups, that the server settles, and that a client can end it by SIGPIPE.
  \<^item> \<open>CorruptedEcho\<close>: a reachable state of the server in which a client has been sent a byte it never
    said, on a machine whose \<open>write\<close> is partial: the hypothesis of the echo is necessary. And the
    delivery whose answer meets a closed connection.

  Conventions. An object is a record with a field per member. \<open>None\<close> is the end of the
  process or undefined behaviour: a FATAL log line, an empty callback called, a null pointer
  used, the channel or a task of a destroyed connection run (\<open>handle_active\<close>, \<open>run_task\<close>), a
  \<open>write\<close> that raises SIGPIPE, which the program neither handles nor ignores. A theorem that
  gives \<open>Some\<close> shows that this does not happen. What is not code of the repository is a
  parameter: the results of system calls as functions of the trace of the calls made before
  (\<open>os\<close>, \<open>kernel_ctl\<close>), \<open>inet_pton\<close>, \<open>localtime\<close>, the C stream behind \<open>FileUtil\<close>, and the
  callbacks of the application. The hypotheses about them are what their manual pages say:
  \<open>epoll_ok\<close> (ADD succeeds on an unregistered descriptor, MOD and DEL on a registered one),
  \<open>os_ok\<close> (no call transfers more bytes than asked, and none more than the 2147479552 bytes of
  \<open>write(2)\<close>, so that the \<open>int\<close> of \<open>handleWrite\<close> holds the count) and \<open>machine_ok\<close> (both, and
  \<open>accept\<close> returns no descriptor that is open). Two more are conditions on a run, not promises
  of the system: \<open>no_sigpipe\<close> (no \<open>write\<close> fails with EPIPE), which the theorems on success and
  progress need and \<open>server_killed\<close> shows to be needed, and \<open>healthy\<close> for the log files (no
  \<open>fwrite\<close> short, every \<open>fopen\<close> succeeds). The invariants of the server need neither.

  Concurrency. \<open>EventLoops\<close>, \<open>LoopThreads\<close> and \<open>AsyncLog\<close> are step relations whose steps are
  the critical sections and the atomic accesses, interleaved in every order. In
  \<open>TcpConnections\<close> and \<open>Servers\<close> a handler, a task and a round of tasks are functions, each
  run by the thread of one loop; the loops share only the task queues. \<open>ServerSystem\<close>
  interleaves the threads of all loops handler by handler and task by task. Its steps are coarser
  than those of the code in one respect: when a handler queues a task on another loop, the push
  under that loop's mutex and the write to its eventfd are one step. The split of the two,
  with the loop's thread running in between, is in \<open>EventLoops\<close>, where no wake-up is lost.

  Bounds and fuel. There is no fuel. The only loop of the program that need not end, the one
  of \<open>FileUtil::append\<close>, is a partial function in the option monad and is proved to return for
  the disks considered; the event loops are step relations. \<open>int\<close> counters are unbounded
  integers, with the range a statement needs as a hypothesis.

  Not modelled: the interleaving of other threads between the two halves of a \<open>queueInLoop\<close> in
  \<open>srv_step\<close> (above), allocation failure, the text of the log statements inside the network
  library, the timeout and the file descriptor limit of epoll, the lifetime of a log statement's
  temporaries, what a thread initialisation callback does (the program sets none), the return of
  \<open>main\<close> (no code quits the base loop), the exhaustion of the connection counter, where \<open>srv_step\<close> stops, and the generated build files.
\<close>

end
